(* ===== verification/Prelude.thy ===== *)
theory Prelude
  imports Main "HOL-Library.Word"
begin

text \<open>
  Shared vocabulary of the development.  A byte of the C++ sources is a \<^typ>\<open>char\<close> (an 8-bit
  value in HOL as well), so \<^verbatim>\<open>std::string\<close>, \<^verbatim>\<open>leveldb::Slice\<close> and \<^verbatim>\<open>char*\<close> buffers of known
  length are all \<^typ>\<open>string\<close>, and the string literals of the sources read the same here.
  The theory holds the type names, the theorem collections, C strings, the little-endian
  memory image of the unsigned integers with \<^verbatim>\<open>htonl\<close>/\<^verbatim>\<open>ntohl\<close>, and the decimal conversions
  \<^verbatim>\<open>zltoa\<close>, \<^verbatim>\<open>itostr\<close> (src/Base_Inc/public.h), \<^verbatim>\<open>atol\<close> and \<^verbatim>\<open>atoi\<close>.
\<close>

unbundle bit_operations_syntax

type_synonym bytes = string
type_synonym u8 = "8 word"
type_synonym u16 = "16 word"
type_synonym u32 = "32 word"
type_synonym u64 = "64 word"

named_theorems codec_simps \<open>encode and decode equations of the byte formats\<close>
named_theorems inv_intros \<open>preservation of the component invariants\<close>

abbreviation NUL :: char where "NUL \<equiv> CHR 0x00"
abbreviation CR :: char where "CR \<equiv> CHR 0x0D"
abbreviation LF :: char where "LF \<equiv> CHR 0x0A"
abbreviation CRLF :: string where "CRLF \<equiv> [CR, LF]"

section \<open>Lists\<close>

lemma butlast_last_eq: "xs \<noteq> [] \<Longrightarrow> butlast xs @ [last xs] = xs"
  by simp

lemma take_le_append: "n \<le> length xs \<Longrightarrow> take n (xs @ ys) = take n xs"
  by simp

lemma drop_le_append: "n \<le> length xs \<Longrightarrow> drop n (xs @ ys) = drop n xs @ ys"
  by simp

lemma takeWhile_id: "(\<forall>x\<in>set xs. P x) \<Longrightarrow> takeWhile P xs = xs"
  by (simp add: takeWhile_eq_all_conv)

lemma takeWhile_stop: "(\<forall>x\<in>set xs. P x) \<Longrightarrow> \<not> P y \<Longrightarrow> takeWhile P (xs @ y # ys) = xs"
  by (simp add: takeWhile_tail)

section \<open>C strings\<close>

text \<open>The bytes a \<^verbatim>\<open>const char*\<close> denotes: everything before the first NUL.\<close>

definition cstr :: "bytes \<Rightarrow> string" where
  "cstr s = takeWhile (\<lambda>c. c \<noteq> NUL) s"

definition no_nul :: "bytes \<Rightarrow> bool" where
  "no_nul s \<longleftrightarrow> NUL \<notin> set s"

lemma cstr_no_nul [simp]: "no_nul (cstr s)"
  by (auto simp: cstr_def no_nul_def dest: set_takeWhileD)

lemma cstr_id [simp]: "no_nul s \<Longrightarrow> cstr s = s"
  by (auto simp: cstr_def no_nul_def takeWhile_eq_all_conv)

lemma cstr_append_nul [simp]: "no_nul s \<Longrightarrow> cstr (s @ NUL # t) = s"
  by (auto simp: cstr_def no_nul_def intro!: takeWhile_stop)

lemma no_nul_append [simp]: "no_nul (s @ t) \<longleftrightarrow> no_nul s \<and> no_nul t"
  by (auto simp: no_nul_def)

lemma no_nul_Nil [simp]: "no_nul []"
  by (simp add: no_nul_def)

lemma no_nul_Cons [simp]: "no_nul (c # s) \<longleftrightarrow> c \<noteq> NUL \<and> no_nul s"
  by (auto simp: no_nul_def)

text \<open>
  \<^verbatim>\<open>zn::strupr\<close>: upper-cases the letters a to z up to the terminating NUL (C locale).
\<close>

definition toupper :: "char \<Rightarrow> char" where
  "toupper c = (if 97 \<le> (of_char c :: nat) \<and> (of_char c :: nat) \<le> 122
     then char_of ((of_char c :: nat) - 32) else c)"

definition strupr :: "string \<Rightarrow> string" where
  "strupr s = map toupper (cstr s)"

lemma toupper_idem [simp]: "toupper (toupper c) = toupper c"
  by (auto simp: toupper_def)

section \<open>Memory images of the unsigned integers\<close>

primrec le_bytes :: "nat \<Rightarrow> nat \<Rightarrow> bytes" where
  "le_bytes 0 x = []"
| "le_bytes (Suc n) x = char_of x # le_bytes n (x div 256)"

primrec le_val :: "bytes \<Rightarrow> nat" where
  "le_val [] = 0"
| "le_val (c # cs) = of_char c + 256 * le_val cs"

lemma length_le_bytes [simp]: "length (le_bytes n x) = n"
  by (induction n arbitrary: x) auto

lemma of_char_bound: "(of_char c :: nat) < 256"
  by (metis of_char_mod_256 mod_less_divisor zero_less_numeral)

lemma le_val_bound: "le_val cs < 256 ^ length cs"
proof (induction cs)
  case (Cons c cs)
  have "of_char c + 256 * le_val cs < 256 + 256 * le_val cs"
    using of_char_bound by simp
  also have "\<dots> \<le> 256 * 256 ^ length cs"
    using Cons.IH by (simp flip: mult_Suc_right)
  finally show ?case by simp
qed simp

lemma le_val_le_bytes [codec_simps]: "le_val (le_bytes n x) = x mod 256 ^ n"
  by (induction n arbitrary: x) (auto simp: mod_mult2_eq)

lemma le_bytes_le_val [codec_simps]: "le_bytes (length cs) (le_val cs) = cs"
proof (induction cs)
  case (Cons c cs)
  have "(of_char c + 256 * le_val cs) div 256 = le_val cs"
    using of_char_bound [of c] by simp
  moreover have "char_of (of_char c + 256 * le_val cs) = c"
    by (metis char_of_char mod_mult_self2 char_of_mod_256)
  ultimately show ?case using Cons.IH by simp
qed simp


definition u8_mem :: "u8 \<Rightarrow> bytes" where "u8_mem w = le_bytes 1 (unat w)"
definition u16_mem :: "u16 \<Rightarrow> bytes" where "u16_mem w = le_bytes 2 (unat w)"
definition u32_mem :: "u32 \<Rightarrow> bytes" where "u32_mem w = le_bytes 4 (unat w)"

text \<open>Reading a field: \<^verbatim>\<open>memcpy(&x, p, sizeof x)\<close> on a little-endian host.\<close>

definition mem_u8 :: "bytes \<Rightarrow> u8" where "mem_u8 bs = of_nat (le_val (take 1 bs))"
definition mem_u16 :: "bytes \<Rightarrow> u16" where "mem_u16 bs = of_nat (le_val (take 2 bs))"
definition mem_u32 :: "bytes \<Rightarrow> u32" where "mem_u32 bs = of_nat (le_val (take 4 bs))"

lemma length_mem [simp]:
  "length (u8_mem a) = 1" "length (u16_mem b) = 2" "length (u32_mem c) = 4"
  by (simp_all add: u8_mem_def u16_mem_def u32_mem_def)

lemma unat_bounds:
  "unat (a :: u8) < 256" "unat (b :: u16) < 65536" "unat (c :: u32) < 4294967296"
  using unsigned_less [of a] unsigned_less [of b] unsigned_less [of c] by simp_all

lemma mem_roundtrip [simp]:
  "mem_u8 (u8_mem a @ r) = a" "mem_u16 (u16_mem b @ r) = b" "mem_u32 (u32_mem c @ r) = c"
  "mem_u8 (u8_mem a) = a" "mem_u16 (u16_mem b) = b" "mem_u32 (u32_mem c) = c"
  by (simp_all add: unat_bounds mem_u8_def mem_u16_def mem_u32_def u8_mem_def u16_mem_def u32_mem_def
      codec_simps)

lemma unat_of_nat_le_val:
  "length cs = 2 \<Longrightarrow> unat (of_nat (le_val cs) :: u16) = le_val cs"
  "length ds = 4 \<Longrightarrow> unat (of_nat (le_val ds) :: u32) = le_val ds"
  using le_val_bound [of cs] le_val_bound [of ds]
  by (simp_all add: unat_of_nat)

lemma u_mem_of_nat:
  "length cs = 2 \<Longrightarrow> u16_mem (of_nat (le_val cs)) = cs"
  "length ds = 4 \<Longrightarrow> u32_mem (of_nat (le_val ds)) = ds"
  using le_bytes_le_val [of cs] le_bytes_le_val [of ds]
  by (simp_all add: u16_mem_def u32_mem_def unat_of_nat_le_val)

section \<open>Byte order\<close>

text \<open>
  The host is little-endian (the x86 builds of the project), so \<^verbatim>\<open>htons\<close>, \<^verbatim>\<open>ntohs\<close>, \<^verbatim>\<open>htonl\<close>
  and \<^verbatim>\<open>ntohl\<close> reverse the bytes of the value.
\<close>

definition htons :: "u16 \<Rightarrow> u16" where "htons w = of_nat (le_val (rev (u16_mem w)))"
definition ntohs :: "u16 \<Rightarrow> u16" where "ntohs w = of_nat (le_val (rev (u16_mem w)))"
definition htonl :: "u32 \<Rightarrow> u32" where "htonl w = of_nat (le_val (rev (u32_mem w)))"
definition ntohl :: "u32 \<Rightarrow> u32" where "ntohl w = of_nat (le_val (rev (u32_mem w)))"

lemma hton_image [simp]:
  "u16_mem (ntohs b) = rev (u16_mem b)" "u32_mem (ntohl c) = rev (u32_mem c)"
  "u16_mem (htons b) = rev (u16_mem b)" "u32_mem (htonl c) = rev (u32_mem c)"
  by (simp_all add: ntohs_def ntohl_def htons_def htonl_def u_mem_of_nat)

lemma hton_inverse [simp]:
  "htons (ntohs b) = b" "ntohs (htons b) = b" "htonl (ntohl c) = c" "ntohl (htonl c) = c"
  using mem_roundtrip(5) [of b] mem_roundtrip(6) [of c]
  by (simp_all add: htons_def htonl_def ntohs_def ntohl_def u_mem_of_nat mem_u16_def mem_u32_def)

section \<open>Decimal text\<close>

definition ltoa_str :: string where
  "ltoa_str = ''0123456789ABCDEFGHIJKLMNOPQRSTUVWXYZ''"

text \<open>
  \<^verbatim>\<open>_zltoa\<close>: the digits of a positive number, most significant first; nothing at 0.  The
  callers pass radix 10 or 16.
\<close>

function zltoa_rec :: "nat \<Rightarrow> nat \<Rightarrow> string" where
  "zltoa_rec num radix = (if 0 < num \<and> 1 < radix
     then zltoa_rec (num div radix) radix @ [ltoa_str ! (num mod radix)] else [])"
  by pat_completeness auto
termination
  by (relation "measure fst") auto

declare zltoa_rec.simps [simp del]

definition zltoa :: "int \<Rightarrow> nat \<Rightarrow> string" where
  "zltoa num radix =
     (if num = 0 then ''0''
      else if num < 0 \<and> radix = 10 then CHR ''-'' # zltoa_rec (nat (- num)) radix
      else zltoa_rec (nat num) radix)"

definition itostr :: "int \<Rightarrow> string" where
  "itostr i = zltoa i 10"

definition isspace :: "char \<Rightarrow> bool" where
  "isspace c \<longleftrightarrow> c = CHR '' '' \<or> (9 \<le> (of_char c :: nat) \<and> (of_char c :: nat) \<le> 13)"

definition isdigit :: "char \<Rightarrow> bool" where
  "isdigit c \<longleftrightarrow> 48 \<le> (of_char c :: nat) \<and> (of_char c :: nat) \<le> 57"

primrec read_digits :: "nat \<Rightarrow> string \<Rightarrow> nat" where
  "read_digits acc [] = acc"
| "read_digits acc (c # cs) =
     (if isdigit c then read_digits (acc * 10 + (of_char c - 48)) cs else acc)"

text \<open>
  \<^verbatim>\<open>atol\<close> with a 64-bit \<^verbatim>\<open>long\<close> that saturates (glibc \<^verbatim>\<open>strtol\<close>), and \<^verbatim>\<open>atoi\<close>, its
  truncation to a 32-bit \<^verbatim>\<open>int\<close>.
\<close>

definition atol :: "string \<Rightarrow> int" where
  "atol s = (case dropWhile isspace s of
      [] \<Rightarrow> 0
    | c # cs \<Rightarrow>
       (let v = (if c = CHR ''-'' then - int (read_digits 0 cs)
                 else if c = CHR ''+'' then int (read_digits 0 cs)
                 else int (read_digits 0 (c # cs)))
        in max (- (2 ^ 63)) (min (2 ^ 63 - 1) v)))"

definition atoi :: "string \<Rightarrow> int" where
  "atoi s = sint (word_of_int (atol s) :: 32 word)"


lemma ltoa_digit_table: "\<forall>d\<in>{0..<10}. ltoa_str ! d = char_of (48 + d)"
  by code_simp

lemma ltoa_digit: "d < 10 \<Longrightarrow> ltoa_str ! d = char_of (48 + d)"
  using ltoa_digit_table by simp

lemma isdigit_ltoa [simp]: "d < 10 \<Longrightarrow> isdigit (ltoa_str ! d)"
  by (simp add: ltoa_digit isdigit_def)

lemma digit_value [simp]: "d < 10 \<Longrightarrow> of_char (ltoa_str ! d) - (48 :: nat) = d"
  by (simp add: ltoa_digit)

lemma zltoa_rec_0 [simp]: "zltoa_rec 0 radix = []"
  by (simp add: zltoa_rec.simps)

lemma zltoa_rec_step:
  "0 < n \<Longrightarrow> zltoa_rec n 10 = zltoa_rec (n div 10) 10 @ [ltoa_str ! (n mod 10)]"
  by (subst zltoa_rec.simps) simp

lemma zltoa_rec_digits: "c \<in> set (zltoa_rec n 10) \<Longrightarrow> isdigit c"
proof (induction n rule: less_induct)
  case (less n)
  show ?case
  proof (cases "n = 0")
    case False
    then have "c \<in> set (zltoa_rec (n div 10) 10) \<or> c = ltoa_str ! (n mod 10)"
      using less.prems zltoa_rec_step [of n] by auto
    then show ?thesis using less.IH [of "n div 10"] False by auto
  qed (use less.prems in simp)
qed

lemma zltoa_rec_nonempty: "0 < n \<Longrightarrow> zltoa_rec n 10 \<noteq> []"
  by (simp add: zltoa_rec_step)

lemma read_digits_append:
  "(\<forall>c\<in>set ds. isdigit c) \<Longrightarrow> read_digits acc (ds @ r) = read_digits (read_digits acc ds) r"
  by (induction ds arbitrary: acc) auto

lemma read_digits_zltoa: "read_digits 0 (zltoa_rec n 10) = n"
proof (induction n rule: less_induct)
  case (less n)
  show ?case
  proof (cases "n = 0")
    case False
    have "read_digits 0 (zltoa_rec n 10) =
        read_digits (read_digits 0 (zltoa_rec (n div 10) 10)) [ltoa_str ! (n mod 10)]"
      using False by (simp add: zltoa_rec_step read_digits_append zltoa_rec_digits)
    also have "\<dots> = n div 10 * 10 + n mod 10"
      using less.IH [of "n div 10"] False by simp
    finally show ?thesis by simp
  qed simp
qed

lemma read_digits_stop: "r = [] \<or> \<not> isdigit (hd r) \<Longrightarrow> read_digits acc r = acc"
  by (cases r) auto

lemma isdigit_not: "isdigit c \<Longrightarrow> \<not> isspace c \<and> c \<noteq> CHR ''-'' \<and> c \<noteq> CHR ''+'' \<and> c \<noteq> NUL
    \<and> c \<noteq> CR \<and> c \<noteq> LF \<and> c \<noteq> CHR ''@'' \<and> c \<noteq> CHR '',''"
  by (auto simp: isdigit_def isspace_def)

lemma itostr_nat: "itostr (int n) = (if n = 0 then ''0'' else zltoa_rec n 10)"
  by (simp add: itostr_def zltoa_def)

lemma itostr_digits: "c \<in> set (itostr (int n)) \<Longrightarrow> isdigit c"
  by (auto simp: itostr_nat isdigit_def dest: zltoa_rec_digits split: if_splits)

lemma itostr_nonempty [simp]: "itostr (int n) \<noteq> []"
  by (simp add: itostr_nat zltoa_rec_nonempty)

lemma itostr_no_nul [simp]: "no_nul (itostr (int n))"
  using itostr_digits [of NUL n] isdigit_not [of NUL] by (auto simp: no_nul_def)

lemma read_digits_itostr: "read_digits 0 (itostr (int n)) = n"
  by (simp add: itostr_nat read_digits_zltoa isdigit_def)

lemma itostr_inject [simp]: "itostr (int m) = itostr (int n) \<longleftrightarrow> m = n"
  by (metis read_digits_itostr)

text \<open>Reading back what \<^const>\<open>itostr\<close> printed, whatever non-digit follows it.\<close>

lemma atol_itostr:
  assumes "r = [] \<or> \<not> isdigit (hd r)" and "n < 2 ^ 63"
  shows "atol (itostr (int n) @ r) = int n"
proof -
  obtain c cs where c: "itostr (int n) = c # cs"
    by (meson itostr_nonempty list.exhaust)
  have dig: "isdigit c" using c itostr_digits [of c n] by simp
  have "read_digits 0 (itostr (int n) @ r) = n"
    using assms(1) by (simp add: read_digits_append itostr_digits read_digits_itostr
        read_digits_stop)
  then show ?thesis
    using assms(2) isdigit_not [OF dig] by (simp add: c atol_def)
qed

lemma atoi_itostr:
  assumes "r = [] \<or> \<not> isdigit (hd r)" and "n < 2 ^ 31"
  shows "atoi (itostr (int n) @ r) = int n"
proof -
  have "atol (itostr (int n) @ r) = int n"
    using assms by (intro atol_itostr) auto
  moreover have "signed_take_bit 31 (int n) = int n"
    using assms(2) by (intro signed_take_bit_int_eq_self) auto
  ultimately show ?thesis
    by (simp add: atoi_def signed_of_int signed_of_nat)
qed

end
