(* ===== verification/Crc16.thy ===== *)
theory Crc16
  imports Prelude
begin

text \<open>
  The checksum of the stored records: \<^verbatim>\<open>c_crc::crc16\<close> of src/Base_Inc/c_crc.h, table driven and
  unrolled eight bytes at a time.  It is shown equal to the bit-serial CRC with the polynomial
  0x1021 that the header's comment names, and to detect every change of a single byte.
\<close>

section \<open>The code\<close>

definition crctab :: "u16 list" where
  "crctab = [
     0x0000, 0x1021, 0x2042, 0x3063, 0x4084, 0x50a5, 0x60c6, 0x70e7,
     0x8108, 0x9129, 0xa14a, 0xb16b, 0xc18c, 0xd1ad, 0xe1ce, 0xf1ef,
     0x1231, 0x0210, 0x3273, 0x2252, 0x52b5, 0x4294, 0x72f7, 0x62d6,
     0x9339, 0x8318, 0xb37b, 0xa35a, 0xd3bd, 0xc39c, 0xf3ff, 0xe3de,
     0x2462, 0x3443, 0x0420, 0x1401, 0x64e6, 0x74c7, 0x44a4, 0x5485,
     0xa56a, 0xb54b, 0x8528, 0x9509, 0xe5ee, 0xf5cf, 0xc5ac, 0xd58d,
     0x3653, 0x2672, 0x1611, 0x0630, 0x76d7, 0x66f6, 0x5695, 0x46b4,
     0xb75b, 0xa77a, 0x9719, 0x8738, 0xf7df, 0xe7fe, 0xd79d, 0xc7bc,
     0x48c4, 0x58e5, 0x6886, 0x78a7, 0x0840, 0x1861, 0x2802, 0x3823,
     0xc9cc, 0xd9ed, 0xe98e, 0xf9af, 0x8948, 0x9969, 0xa90a, 0xb92b,
     0x5af5, 0x4ad4, 0x7ab7, 0x6a96, 0x1a71, 0x0a50, 0x3a33, 0x2a12,
     0xdbfd, 0xcbdc, 0xfbbf, 0xeb9e, 0x9b79, 0x8b58, 0xbb3b, 0xab1a,
     0x6ca6, 0x7c87, 0x4ce4, 0x5cc5, 0x2c22, 0x3c03, 0x0c60, 0x1c41,
     0xedae, 0xfd8f, 0xcdec, 0xddcd, 0xad2a, 0xbd0b, 0x8d68, 0x9d49,
     0x7e97, 0x6eb6, 0x5ed5, 0x4ef4, 0x3e13, 0x2e32, 0x1e51, 0x0e70,
     0xff9f, 0xefbe, 0xdfdd, 0xcffc, 0xbf1b, 0xaf3a, 0x9f59, 0x8f78,
     0x9188, 0x81a9, 0xb1ca, 0xa1eb, 0xd10c, 0xc12d, 0xf14e, 0xe16f,
     0x1080, 0x00a1, 0x30c2, 0x20e3, 0x5004, 0x4025, 0x7046, 0x6067,
     0x83b9, 0x9398, 0xa3fb, 0xb3da, 0xc33d, 0xd31c, 0xe37f, 0xf35e,
     0x02b1, 0x1290, 0x22f3, 0x32d2, 0x4235, 0x5214, 0x6277, 0x7256,
     0xb5ea, 0xa5cb, 0x95a8, 0x8589, 0xf56e, 0xe54f, 0xd52c, 0xc50d,
     0x34e2, 0x24c3, 0x14a0, 0x0481, 0x7466, 0x6447, 0x5424, 0x4405,
     0xa7db, 0xb7fa, 0x8799, 0x97b8, 0xe75f, 0xf77e, 0xc71d, 0xd73c,
     0x26d3, 0x36f2, 0x0691, 0x16b0, 0x6657, 0x7676, 0x4615, 0x5634,
     0xd94c, 0xc96d, 0xf90e, 0xe92f, 0x99c8, 0x89e9, 0xb98a, 0xa9ab,
     0x5844, 0x4865, 0x7806, 0x6827, 0x18c0, 0x08e1, 0x3882, 0x28a3,
     0xcb7d, 0xdb5c, 0xeb3f, 0xfb1e, 0x8bf9, 0x9bd8, 0xabbb, 0xbb9a,
     0x4a75, 0x5a54, 0x6a37, 0x7a16, 0x0af1, 0x1ad0, 0x2ab3, 0x3a92,
     0xfd2e, 0xed0f, 0xdd6c, 0xcd4d, 0xbdaa, 0xad8b, 0x9de8, 0x8dc9,
     0x7c26, 0x6c07, 0x5c64, 0x4c45, 0x3ca2, 0x2c83, 0x1ce0, 0x0cc1,
     0xef1f, 0xff3e, 0xcf5d, 0xdf7c, 0xaf9b, 0xbfba, 0x8fd9, 0x9ff8,
     0x6e17, 0x7e36, 0x4e55, 0x5e74, 0x2e93, 0x3eb2, 0x0ed1, 0x1ef0]"

text \<open>\<^verbatim>\<open>DO1\<close>: \<^verbatim>\<open>crc = (crc<<8) ^ crctab[(crc>>8) ^ *buf++]\<close> on an \<^verbatim>\<open>unsigned short\<close>.\<close>

definition crc_do1 :: "u16 \<Rightarrow> char \<Rightarrow> u16" where
  "crc_do1 crc c = push_bit 8 crc XOR (crctab ! unat (drop_bit 8 crc XOR of_char c))"

definition crc_do2 :: "u16 \<Rightarrow> char \<Rightarrow> char \<Rightarrow> u16" where
  "crc_do2 crc a b = crc_do1 (crc_do1 crc a) b"

definition crc_do4 :: "u16 \<Rightarrow> char \<Rightarrow> char \<Rightarrow> char \<Rightarrow> char \<Rightarrow> u16" where
  "crc_do4 crc a b c d = crc_do2 (crc_do2 crc a b) c d"

primrec crc16_tail :: "u16 \<Rightarrow> bytes \<Rightarrow> u16" where
  "crc16_tail crc [] = crc"
| "crc16_tail crc (c # cs) = crc16_tail (crc_do1 crc c) cs"

fun crc16 :: "u16 \<Rightarrow> bytes \<Rightarrow> u16" where
  "crc16 crc (a # b # c # d # e # f # g # h # buf) =
     crc16 (crc_do4 (crc_do4 crc a b c d) e f g h) buf"
| "crc16 crc buf = crc16_tail crc buf"

section \<open>The bit-serial reference\<close>

definition crc_bit :: "u16 \<Rightarrow> u16" where
  "crc_bit r = (if bit r 15 then push_bit 1 r XOR 0x1021 else push_bit 1 r)"

definition crc_bit8 :: "u16 \<Rightarrow> u16" where
  "crc_bit8 r = crc_bit (crc_bit (crc_bit (crc_bit (crc_bit (crc_bit (crc_bit (crc_bit r)))))))"

definition crc_ref_byte :: "u16 \<Rightarrow> char \<Rightarrow> u16" where
  "crc_ref_byte r c = crc_bit8 (r XOR push_bit 8 (of_char c))"

definition crc_ref :: "u16 \<Rightarrow> bytes \<Rightarrow> u16" where
  "crc_ref r buf = foldl crc_ref_byte r buf"

section \<open>Unrolling\<close>

lemma crc16_tail_foldl: "crc16_tail crc buf = foldl crc_do1 crc buf"
  by (induction buf arbitrary: crc) auto

lemma crc16_foldl: "crc16 crc buf = foldl crc_do1 crc buf"
  by (induction crc buf rule: crc16.induct)
    (simp_all add: crc16_tail_foldl crc_do4_def crc_do2_def)

section \<open>The table\<close>

lemma crctab_length: "length crctab = 256"
  by (simp add: crctab_def)


lemma upt_256: "[0..<256] = [
     0, 1, 2, 3, 4, 5, 6, 7, 8, 9, 10, 11, 12, 13, 14, 15, 16, 17, 18, 19, 20, 21, 22, 23,
     24, 25, 26, 27, 28, 29, 30, 31, 32, 33, 34, 35, 36, 37, 38, 39, 40, 41, 42, 43, 44, 45,
     46, 47, 48, 49, 50, 51, 52, 53, 54, 55, 56, 57, 58, 59, 60, 61, 62, 63, 64, 65, 66, 67,
     68, 69, 70, 71, 72, 73, 74, 75, 76, 77, 78, 79, 80, 81, 82, 83, 84, 85, 86, 87, 88, 89,
     90, 91, 92, 93, 94, 95, 96, 97, 98, 99, 100, 101, 102, 103, 104, 105, 106, 107, 108,
     109, 110, 111, 112, 113, 114, 115, 116, 117, 118, 119, 120, 121, 122, 123, 124, 125,
     126, 127, 128, 129, 130, 131, 132, 133, 134, 135, 136, 137, 138, 139, 140, 141, 142,
     143, 144, 145, 146, 147, 148, 149, 150, 151, 152, 153, 154, 155, 156, 157, 158, 159,
     160, 161, 162, 163, 164, 165, 166, 167, 168, 169, 170, 171, 172, 173, 174, 175, 176,
     177, 178, 179, 180, 181, 182, 183, 184, 185, 186, 187, 188, 189, 190, 191, 192, 193,
     194, 195, 196, 197, 198, 199, 200, 201, 202, 203, 204, 205, 206, 207, 208, 209, 210,
     211, 212, 213, 214, 215, 216, 217, 218, 219, 220, 221, 222, 223, 224, 225, 226, 227,
     228, 229, 230, 231, 232, 233, 234, 235, 236, 237, 238, 239, 240, 241, 242, 243, 244,
     245, 246, 247, 248, 249, 250, 251, 252, 253, 254, 255] "
  by code_simp

lemma crctab_poly_map: "map crc_bit8 (map (\<lambda>i. of_nat (256 * i)) [0..<256]) = crctab"
proof -
  have "map (\<lambda>i. of_nat (256 * i) :: u16) [0..<256] = [
     0, 256, 512, 768, 1024, 1280, 1536, 1792, 2048, 2304, 2560, 2816, 3072, 3328, 3584,
     3840, 4096, 4352, 4608, 4864, 5120, 5376, 5632, 5888, 6144, 6400, 6656, 6912, 7168,
     7424, 7680, 7936, 8192, 8448, 8704, 8960, 9216, 9472, 9728, 9984, 10240, 10496, 10752,
     11008, 11264, 11520, 11776, 12032, 12288, 12544, 12800, 13056, 13312, 13568, 13824,
     14080, 14336, 14592, 14848, 15104, 15360, 15616, 15872, 16128, 16384, 16640, 16896,
     17152, 17408, 17664, 17920, 18176, 18432, 18688, 18944, 19200, 19456, 19712, 19968,
     20224, 20480, 20736, 20992, 21248, 21504, 21760, 22016, 22272, 22528, 22784, 23040,
     23296, 23552, 23808, 24064, 24320, 24576, 24832, 25088, 25344, 25600, 25856, 26112,
     26368, 26624, 26880, 27136, 27392, 27648, 27904, 28160, 28416, 28672, 28928, 29184,
     29440, 29696, 29952, 30208, 30464, 30720, 30976, 31232, 31488, 31744, 32000, 32256,
     32512, 32768, 33024, 33280, 33536, 33792, 34048, 34304, 34560, 34816, 35072, 35328,
     35584, 35840, 36096, 36352, 36608, 36864, 37120, 37376, 37632, 37888, 38144, 38400,
     38656, 38912, 39168, 39424, 39680, 39936, 40192, 40448, 40704, 40960, 41216, 41472,
     41728, 41984, 42240, 42496, 42752, 43008, 43264, 43520, 43776, 44032, 44288, 44544,
     44800, 45056, 45312, 45568, 45824, 46080, 46336, 46592, 46848, 47104, 47360, 47616,
     47872, 48128, 48384, 48640, 48896, 49152, 49408, 49664, 49920, 50176, 50432, 50688,
     50944, 51200, 51456, 51712, 51968, 52224, 52480, 52736, 52992, 53248, 53504, 53760,
     54016, 54272, 54528, 54784, 55040, 55296, 55552, 55808, 56064, 56320, 56576, 56832,
     57088, 57344, 57600, 57856, 58112, 58368, 58624, 58880, 59136, 59392, 59648, 59904,
     60160, 60416, 60672, 60928, 61184, 61440, 61696, 61952, 62208, 62464, 62720, 62976,
     63232, 63488, 63744, 64000, 64256, 64512, 64768, 65024, 65280]"
    by (simp add: upt_256)
  then show ?thesis
    by (simp add: crc_bit8_def crc_bit_def crctab_def del: map_map)
qed

lemma crctab_poly: "i < 256 \<Longrightarrow> crctab ! i = crc_bit8 (push_bit 8 (of_nat i))"
proof -
  assume i: "i < 256"
  have "crctab ! i = map crc_bit8 (map (\<lambda>i. of_nat (256 * i)) [0..<256]) ! i"
    by (simp only: crctab_poly_map)
  also have "\<dots> = crc_bit8 (push_bit 8 (of_nat i))"
    using i by (simp add: push_bit_eq_mult mult.commute)
  finally show ?thesis .
qed

section \<open>Linearity, the reference and the code agree\<close>

lemma crc_bit_xor: "crc_bit (x XOR y) = crc_bit x XOR crc_bit y"
  by (auto simp: crc_bit_def bit_xor_iff push_bit_xor xor.assoc xor.left_commute xor.commute)

lemma crc_bit8_xor: "crc_bit8 (x XOR y) = crc_bit8 x XOR crc_bit8 y"
  by (simp add: crc_bit8_def crc_bit_xor)

lemma crc_bit8_pow: "crc_bit8 r = (crc_bit ^^ 8) r"
  by (simp add: crc_bit8_def numeral_eq_Suc)

lemma crc_bit_pow_low: "take_bit 8 x = x \<Longrightarrow> k \<le> 8 \<Longrightarrow> (crc_bit ^^ k) x = push_bit k x"
proof (induction k)
  case (Suc k)
  have "\<not> bit x (15 - k)"
    using Suc.prems bit_take_bit_iff [of 8 x "15 - k"] by auto
  then have "\<not> bit (push_bit k x) 15"
    using Suc.prems(2) by (simp add: bit_push_bit_iff)
  then have "crc_bit (push_bit k x) = push_bit (1 + k) x"
    by (simp only: crc_bit_def if_False push_bit_push_bit)
  then show ?case using Suc by simp
qed simp

lemma crc_bit8_low: "take_bit 8 x = x \<Longrightarrow> crc_bit8 x = push_bit 8 x"
  by (simp add: crc_bit8_pow crc_bit_pow_low)

lemma split_16: "push_bit 8 (drop_bit 8 w) XOR take_bit 8 w = (w :: u16)"
proof (rule bit_word_eqI)
  fix n assume "n < LENGTH(16)"
  then show "bit (push_bit 8 (drop_bit 8 w) XOR take_bit 8 w) n = bit w n"
    by (cases "n < 8") (simp_all only: bit_simps, simp_all)
qed

lemma unat_of_char [simp]: "unat (of_char c :: u16) = of_char c"
proof -
  have "(of_char c :: u16) = of_nat (of_char c)" by (simp add: of_nat_of_char)
  moreover have "(of_char c :: nat) mod 65536 = of_char c"
    using of_char_bound [of c] by (intro mod_less) linarith
  ultimately show ?thesis by (simp add: unat_of_nat)
qed

lemma xor_cancel_right: "a XOR k = b XOR k \<longleftrightarrow> a = (b :: u16)"
proof
  assume "a XOR k = b XOR k"
  then have "(a XOR k) XOR k = (b XOR k) XOR k" by (simp only:)
  then show "a = b" by (simp only: xor.assoc xor_self_eq xor.right_neutral)
qed simp

lemma xor_cancel_left: "k XOR a = k XOR b \<longleftrightarrow> a = (b :: u16)"
  by (simp only: xor.commute [of k] xor_cancel_right)

lemmas xor_cancel = xor_cancel_right xor_cancel_left

lemma xor_below_256: "(m :: nat) < 256 \<Longrightarrow> n < 256 \<Longrightarrow> m XOR n < 256"
proof -
  assume "m < 256" "n < 256"
  then have "take_bit 8 (m XOR n) = m XOR n"
    by (simp add: take_bit_xor take_bit_nat_eq_self)
  then show ?thesis using take_bit_nat_less_exp [of 8 "m XOR n"] by simp
qed

lemma crc_index_bound: "unat (drop_bit 8 (crc :: u16) XOR of_char c) < 256"
proof -
  have "unat crc div 256 < 256" using unat_bounds(2) [of crc] by simp
  then have "unat (drop_bit 8 crc) < 256"
    unfolding unat_drop_bit_eq by (simp add: drop_bit_eq_div)
  then show ?thesis
    by (simp add: unsigned_xor_eq xor_below_256 of_char_bound)
qed

lemma crc_do1_ref: "crc_do1 crc c = crc_ref_byte crc c"
proof -
  let ?h = "drop_bit 8 crc XOR of_char c"
  have "crc XOR push_bit 8 (of_char c) = push_bit 8 ?h XOR take_bit 8 crc"
    by (subst split_16 [of crc, symmetric])
      (simp only: push_bit_xor xor.assoc xor.commute xor.left_commute)
  then have "crc_ref_byte crc c = crc_bit8 (push_bit 8 ?h) XOR crc_bit8 (take_bit 8 crc)"
    by (simp add: crc_ref_byte_def crc_bit8_xor)
  also have "crc_bit8 (push_bit 8 ?h) = crctab ! unat ?h"
    using crctab_poly [OF crc_index_bound] by simp
  also have "crc_bit8 (take_bit 8 crc) = push_bit 8 crc"
    by (simp add: crc_bit8_low) (simp add: push_bit_take_bit take_bit_word_eq_self)
  finally show ?thesis by (simp add: crc_do1_def xor.commute)
qed

section \<open>Detection of a changed byte\<close>

lemma bit_shift1: "bit (push_bit 1 (r :: u16)) n \<longleftrightarrow> 1 \<le> n \<and> n < 16 \<and> bit r (n - 1)"
  by (simp only: bit_push_bit_iff) auto

lemma crc_bit_low_bit: "bit (crc_bit r) 0 \<longleftrightarrow> bit r 15"
proof -
  have "\<not> bit (push_bit 1 r) 0" by (simp only: bit_shift1) simp
  then show ?thesis by (simp only: crc_bit_def bit_xor_iff split: if_split) simp
qed

lemma crc_bit_inject: "crc_bit x = crc_bit y \<longleftrightarrow> x = y"
proof
  assume eq: "crc_bit x = crc_bit y"
  then have top: "bit x 15 = bit y 15" by (metis crc_bit_low_bit)
  have sh: "push_bit 1 x = push_bit 1 y"
    using eq unfolding crc_bit_def top
    by (cases "bit y 15") (simp_all only: if_True if_False xor_cancel)
  show "x = y"
  proof (rule bit_word_eqI)
    fix n assume n: "n < LENGTH(16)"
    show "bit x n = bit y n"
    proof (cases "n = 15")
      case False
      then have "bit (push_bit 1 x) (Suc n) = bit (push_bit 1 y) (Suc n)" using sh by simp
      with n False show ?thesis by (simp only: bit_shift1) simp
    qed (use top in simp)
  qed
qed simp

lemma crc_do1_inject_crc: "crc_do1 r c = crc_do1 s c \<longleftrightarrow> r = s"
  by (simp only: crc_do1_ref crc_ref_byte_def crc_bit8_def crc_bit_inject xor_cancel)

lemma crc_do1_inject_byte: "crc_do1 r c = crc_do1 r d \<longleftrightarrow> c = d"
proof
  assume "crc_do1 r c = crc_do1 r d"
  then have "push_bit 8 (of_char c :: u16) = push_bit 8 (of_char d)"
    by (simp only: crc_do1_ref crc_ref_byte_def crc_bit8_def crc_bit_inject xor_cancel)
  then have "unat (push_bit 8 (of_char c :: u16)) = unat (push_bit 8 (of_char d :: u16))"
    by simp
  moreover have "unat (push_bit 8 (of_char e :: u16)) = of_char e * 256" for e
  proof -
    have "(of_char e :: nat) * 256 < 65536" using of_char_bound [of e] by linarith
    then show ?thesis by (simp add: push_bit_eq_mult unat_word_ariths)
  qed
  ultimately show "c = d" by simp
qed simp

lemma foldl_crc_inject: "foldl crc_do1 r buf = foldl crc_do1 s buf \<longleftrightarrow> r = s"
  by (induction buf arbitrary: r s) (simp_all add: crc_do1_inject_crc)

text \<open>
  C10.  The unrolled table-driven routine is the bit-serial CRC-16 with polynomial 0x1021,
  for every start value and every buffer.
\<close>

theorem crc16_is_ccitt: "crc16 crc buf = crc_ref crc buf"
proof -
  have "crc_do1 = crc_ref_byte" by (intro ext crc_do1_ref)
  then show ?thesis by (simp add: crc16_foldl crc_ref_def)
qed

text \<open>
  C11.  A record in which exactly one byte differs never has the same checksum.
\<close>

theorem crc16_detects_byte:
  "crc16 crc (xs @ a # ys) = crc16 crc (xs @ b # ys) \<longleftrightarrow> a = b"
  by (simp add: crc16_foldl foldl_crc_inject crc_do1_inject_byte)

end
