(* ===== verification/RingQueue.thy ===== *)
theory RingQueue
  imports Prelude
begin

text \<open>
  The chunked byte queue \<^verbatim>\<open>CRingQueue<T>\<close> of src/Base_Inc/RingQueue.h, through which every
  received and every sent byte passes.  A queue is a list of blocks with the newest at the front
  and the oldest at the back; the block capacity \<open>T\<close> is the template argument (4096 in the
  protocol code, 8196 in the TLV container).  The abstraction is the byte sequence
  \<open>contents\<close>.  The interface locale \<open>byte_fifo\<close> is what the sending loops rely on.
\<close>

section \<open>Blocks\<close>

text \<open>
  \<^verbatim>\<open>CDataBlock\<close>: \<open>blk_T\<close> holds the bytes written so far (so \<^verbatim>\<open>_p\<close> is its length) and \<open>blk_b\<close>
  is the read position \<^verbatim>\<open>_b\<close>.  The capacity \<^verbatim>\<open>_l\<close> is the template argument.
\<close>

record block =
  blk_T :: bytes
  blk_b :: nat

definition blk_new :: block where
  "blk_new = \<lparr>blk_T = [], blk_b = 0\<rparr>"

definition blk_append :: "nat \<Rightarrow> bytes \<Rightarrow> block \<Rightarrow> block option" where
  "blk_append T v b =
     (if T < length (blk_T b) + length v then None else Some (b\<lparr>blk_T := blk_T b @ v\<rparr>))"

definition blk_advance :: "nat \<Rightarrow> block \<Rightarrow> block" where
  "blk_advance n b = b\<lparr>blk_b := blk_b b + n\<rparr>"

definition blk_buffer :: "block \<Rightarrow> bytes" where
  "blk_buffer b = drop (blk_b b) (blk_T b)"

definition blk_len :: "block \<Rightarrow> nat" where
  "blk_len b = length (blk_T b) - blk_b b"

section \<open>The queue\<close>

record ringq =
  m_q :: "block list"
  m_size :: nat

definition rq_new :: ringq where
  "rq_new = \<lparr>m_q = [], m_size = 0\<rparr>"

definition rq_clear :: "ringq \<Rightarrow> ringq" where
  "rq_clear q = q\<lparr>m_q := [], m_size := 0\<rparr>"

definition rq_count :: "ringq \<Rightarrow> nat" where
  "rq_count q = m_size q"

text \<open>\<^verbatim>\<open>Append\<close> of at most \<open>T\<close> bytes: into the newest block if it fits, else into a new one.\<close>

definition rq_append1 :: "nat \<Rightarrow> ringq \<Rightarrow> bytes \<Rightarrow> ringq" where
  "rq_append1 T q d =
     (case m_q q of
        [] \<Rightarrow> q\<lparr>m_q := [blk_new\<lparr>blk_T := d\<rparr>], m_size := m_size q + length d\<rparr>
      | b # bs \<Rightarrow>
         (case blk_append T d b of
            Some b' \<Rightarrow> q\<lparr>m_q := b' # bs, m_size := m_size q + length d\<rparr>
          | None \<Rightarrow> q\<lparr>m_q := blk_new\<lparr>blk_T := d\<rparr> # b # bs, m_size := m_size q + length d\<rparr>))"

text \<open>\<^verbatim>\<open>Append\<close>: a longer buffer is cut into pieces of \<open>T\<close> bytes.\<close>

function rq_append :: "nat \<Rightarrow> ringq \<Rightarrow> bytes \<Rightarrow> ringq" where
  "rq_append T q d =
     (if d = [] then q
      else if 0 < T \<and> T < length d then rq_append T (rq_append1 T q (take T d)) (drop T d)
      else rq_append1 T q d)"
  by pat_completeness auto
termination
  by (relation "measure (\<lambda>(T, q, d). length d)") auto

declare rq_append.simps [simp del]

text \<open>
  \<^verbatim>\<open>int Attach(unsigned char**)\<close>: the unread part of the oldest block.  On an empty queue the
  code reads \<^verbatim>\<open>back()\<close> of an empty list; that is \<^const>\<open>None\<close>.
\<close>

definition rq_attach_block :: "ringq \<Rightarrow> (ringq \<times> bytes) option" where
  "rq_attach_block q =
     (if m_q q = [] then None
      else let bs = (if blk_len (last (m_q q)) = 0 then butlast (m_q q) else m_q q)
           in if bs = [] then None else Some (q\<lparr>m_q := bs\<rparr>, blk_buffer (last bs)))"

text \<open>
  The gathering loop of \<^verbatim>\<open>void Attach(unsigned char**, int)\<close>: the blocks come oldest first, \<open>t\<close>
  is the list of blocks taken off the queue.
\<close>

fun attach_loop :: "nat \<Rightarrow> bytes \<Rightarrow> block list \<Rightarrow> block list \<Rightarrow> bytes \<times> block list \<times> block list" where
  "attach_loop n temp t [] = (temp, t, [])"
| "attach_loop n temp t (b # r) =
     (let k = min (blk_len b) n; temp' = temp @ take k (blk_buffer b)
      in if n - k = 0 then (temp', t, b # r) else attach_loop (n - k) temp' (t @ [b]) r)"

text \<open>
  \<^verbatim>\<open>void Attach(unsigned char**, int)\<close>: \<^const>\<open>None\<close> is the NULL pointer.  When the bytes span
  several blocks they are copied to a temporary block and the visited blocks are pushed back at
  the back of the list, first visited first, as the code does.
\<close>

definition rq_attach :: "nat \<Rightarrow> ringq \<Rightarrow> nat \<Rightarrow> ringq \<times> bytes option" where
  "rq_attach T q n =
     (if T < n \<or> m_size q < n \<or> m_q q = [] then (q, None)
      else if blk_len (last (m_q q)) < n
      then (let (temp, t, r) = attach_loop n [] [] (rev (m_q q))
            in (q\<lparr>m_q := rev r @ t\<rparr>, Some temp))
      else (q, Some (take n (blk_buffer (last (m_q q))))))"

text \<open>\<^verbatim>\<open>void Attach(unsigned char*, int&)\<close>: copies the whole queue.\<close>

definition rq_attach_copy :: "ringq \<Rightarrow> nat \<Rightarrow> bytes option" where
  "rq_attach_copy q n =
     (if rq_count q < n then None else Some (concat (map blk_buffer (rev (m_q q)))))"

text \<open>The loop of \<^verbatim>\<open>Advance\<close>, oldest block first.\<close>

function advance_loop :: "nat \<Rightarrow> block list \<Rightarrow> block list" where
  "advance_loop n [] = []"
| "advance_loop n (b # r) =
     (if n = 0 then b # r
      else let k = min (blk_len b) n; b' = blk_advance k b
           in if blk_len b' = 0 then advance_loop (n - k) r else advance_loop (n - k) (b' # r))"
  by pat_completeness auto
termination
  by (relation "measure (\<lambda>(n, bs). n + length bs)") (auto simp: blk_len_def blk_advance_def)

text \<open>\<^verbatim>\<open>Advance\<close>: asking for more than is queued changes nothing (after a failed \<^verbatim>\<open>assert\<close>).\<close>

definition rq_advance :: "ringq \<Rightarrow> nat \<Rightarrow> ringq" where
  "rq_advance q n =
     (if m_size q < n then q
      else q\<lparr>m_q := rev (advance_loop n (rev (m_q q))), m_size := m_size q - n\<rparr>)"

text \<open>
  The loop of \<^verbatim>\<open>GetBuffer\<close>; \<open>n\<close> is what is still to be copied.  A step that copies nothing
  would repeat for ever and is \<^const>\<open>None\<close>.
\<close>

function get_loop :: "nat \<Rightarrow> ringq \<Rightarrow> bytes \<Rightarrow> (ringq \<times> bytes) option" where
  "get_loop n q acc =
     (if n = 0 then Some (q, acc)
      else (case rq_attach_block q of
              None \<Rightarrow> None
            | Some (q', buf) \<Rightarrow>
               (let m = min n (length buf)
                in if m = 0 then None
                   else get_loop (n - m) (rq_advance q' m) (acc @ take m buf))))"
  by pat_completeness auto
termination
  by (relation "measure (\<lambda>(n, q, acc). n)") auto

declare get_loop.simps [simp del]

definition rq_get_buffer :: "ringq \<Rightarrow> nat \<Rightarrow> (ringq \<times> bytes) option" where
  "rq_get_buffer q n = (if m_size q < n then None else get_loop n q [])"

section \<open>Abstraction and invariant\<close>

definition contents :: "ringq \<Rightarrow> bytes" where
  "contents q = concat (map blk_buffer (rev (m_q q)))"

definition blk_inv :: "nat \<Rightarrow> block \<Rightarrow> bool" where
  "blk_inv T b \<longleftrightarrow> blk_b b < length (blk_T b) \<and> length (blk_T b) \<le> T"

definition rq_inv :: "nat \<Rightarrow> ringq \<Rightarrow> bool" where
  "rq_inv T q \<longleftrightarrow> (\<forall>b\<in>set (m_q q). blk_inv T b) \<and> m_size q = length (contents q)"

lemma length_blk_buffer [simp]: "length (blk_buffer b) = blk_len b"
  by (simp add: blk_buffer_def blk_len_def)

lemma blk_inv_len: "blk_inv T b \<Longrightarrow> 0 < blk_len b \<and> blk_len b \<le> T"
  by (auto simp: blk_inv_def blk_len_def)

lemma blk_buffer_nonempty: "blk_inv T b \<Longrightarrow> blk_buffer b \<noteq> []"
  by (simp add: blk_inv_def blk_buffer_def)

lemma rq_inv_new [simp, inv_intros]: "rq_inv T rq_new"
  by (simp add: rq_inv_def rq_new_def contents_def)

lemma contents_new [simp]: "contents rq_new = []"
  by (simp add: rq_new_def contents_def)

lemma rq_inv_clear [simp, inv_intros]: "rq_inv T (rq_clear q)"
  by (simp add: rq_inv_def rq_clear_def contents_def)

lemma contents_clear [simp]: "contents (rq_clear q) = []"
  by (simp add: rq_clear_def contents_def)

lemma rq_count_contents: "rq_inv T q \<Longrightarrow> rq_count q = length (contents q)"
  by (simp add: rq_inv_def rq_count_def)

subsection \<open>Append\<close>

lemma rq_append1_contents:
  assumes "rq_inv T q"
  shows "contents (rq_append1 T q d) = contents q @ d"
proof (cases "m_q q")
  case Nil
  then show ?thesis
    by (simp add: rq_append1_def contents_def blk_new_def blk_buffer_def)
next
  case (Cons b bs)
  with assms have "blk_b b \<le> length (blk_T b)" by (simp add: rq_inv_def blk_inv_def)
  with Cons show ?thesis
    by (simp add: rq_append1_def contents_def blk_append_def blk_new_def blk_buffer_def)
qed

lemma rq_append1_inv [inv_intros]:
  assumes "rq_inv T q" and "d \<noteq> []" and "length d \<le> T"
  shows "rq_inv T (rq_append1 T q d)"
proof -
  have "\<forall>b\<in>set (m_q (rq_append1 T q d)). blk_inv T b"
    using assms
    by (auto simp: rq_inv_def rq_append1_def blk_inv_def blk_append_def blk_new_def
        split: list.splits)
  moreover have "m_size (rq_append1 T q d) = m_size q + length d"
    by (auto simp: rq_append1_def split: list.splits option.splits)
  ultimately show ?thesis
    using assms(1) rq_append1_contents [OF assms(1), of d] by (simp add: rq_inv_def)
qed

lemma rq_append_spec:
  assumes "0 < T" and "rq_inv T q"
  shows "rq_inv T (rq_append T q d) \<and> contents (rq_append T q d) = contents q @ d"
  using assms
proof (induction T q d rule: rq_append.induct)
  case (1 T q d)
  show ?case
  proof (cases "d \<noteq> [] \<and> T < length d")
    case True
    then have "rq_inv T (rq_append1 T q (take T d))"
      using "1.prems" by (intro rq_append1_inv) auto
    with "1.IH" "1.prems" True rq_append1_contents [of T q "take T d"] show ?thesis
      by (simp add: rq_append.simps [of T q d])
  next
    case False
    with "1.prems" show ?thesis
      by (auto simp: rq_append.simps [of T q d] rq_append1_contents rq_append1_inv)
  qed
qed

lemmas rq_append_inv [inv_intros] = rq_append_spec [THEN conjunct1]
lemmas rq_append_contents = rq_append_spec [THEN conjunct2]


subsection \<open>Advance\<close>

lemma advance_loop_spec:
  assumes "\<forall>b\<in>set bs. blk_inv T b" and "n \<le> length (concat (map blk_buffer bs))"
  shows "(\<forall>b\<in>set (advance_loop n bs). blk_inv T b) \<and>
    concat (map blk_buffer (advance_loop n bs)) = drop n (concat (map blk_buffer bs))"
  using assms
proof (induction n bs rule: advance_loop.induct)
  case (2 n b r)
  let ?k = "min (blk_len b) n"
  let ?b = "blk_advance ?k b"
  have len: "blk_len ?b = blk_len b - ?k"
    by (simp add: blk_advance_def blk_len_def)
  have b: "blk_inv T b" using "2.prems"(1) by simp
  consider "n = 0" | "n \<noteq> 0" "blk_len b \<le> n" | "n \<noteq> 0" "n < blk_len b" by linarith
  then show ?case
  proof cases
    case 1
    with "2.prems" show ?thesis by simp
  next
    case 2
    then have "blk_len ?b = 0" using len by simp
    with 2 "2.IH"(1) [OF 2(1) refl refl] "2.prems" show ?thesis
      by (simp add: min_absorb1)
  next
    case 3
    then have nz: "blk_len ?b \<noteq> 0" using len by simp
    have "blk_inv T ?b"
      using 3 b by (auto simp: blk_inv_def blk_advance_def blk_len_def)
    moreover have "blk_buffer ?b = drop n (blk_buffer b)"
      using 3 by (simp add: blk_buffer_def blk_advance_def add.commute)
    moreover have "advance_loop n (b # r) = ?b # r"
      using 3 nz by (simp add: Let_def)
    ultimately show ?thesis
      using 3 "2.prems"(1) by (simp only: list.simps concat.simps) (auto simp: drop_append)
  qed
qed simp

lemma rq_advance_spec:
  assumes "rq_inv T q" and "n \<le> length (contents q)"
  shows "rq_inv T (rq_advance q n) \<and> contents (rq_advance q n) = drop n (contents q)"
proof -
  have "\<forall>b\<in>set (rev (m_q q)). blk_inv T b" using assms(1) by (simp add: rq_inv_def)
  from advance_loop_spec [OF this, of n] assms show ?thesis
    by (simp add: rq_advance_def rq_inv_def contents_def)
qed

lemmas rq_advance_inv [inv_intros] = rq_advance_spec [THEN conjunct1]
lemmas rq_advance_contents = rq_advance_spec [THEN conjunct2]

lemma rq_advance_beyond: "m_size q < n \<Longrightarrow> rq_advance q n = q"
  by (simp add: rq_advance_def)

subsection \<open>The oldest block\<close>

lemma contents_snoc: "bs \<noteq> [] \<Longrightarrow> m_q q = bs \<Longrightarrow>
    contents q = blk_buffer (last bs) @ concat (map blk_buffer (rev (butlast bs)))"
  by (simp add: contents_def) (metis append_butlast_last_id concat.simps(2) list.simps(9) rev_eq_Cons_iff rev_rev_ident)

lemma contents_empty_iff: "rq_inv T q \<Longrightarrow> contents q = [] \<longleftrightarrow> m_q q = []"
proof
  assume inv: "rq_inv T q" and e: "contents q = []"
  show "m_q q = []"
  proof (rule ccontr)
    assume ne: "m_q q \<noteq> []"
    then have "blk_inv T (last (m_q q))" using inv by (simp add: rq_inv_def)
    moreover have "blk_buffer (last (m_q q)) = []"
      using contents_snoc [OF ne refl] e by simp
    ultimately show False
      by (simp add: blk_buffer_nonempty)
  qed
qed (simp add: contents_def)

lemma rq_attach_block_spec:
  assumes inv: "rq_inv T q" and ne: "contents q \<noteq> []"
  shows "\<exists>buf r. rq_attach_block q = Some (q, buf) \<and> buf \<noteq> [] \<and> contents q = buf @ r"
proof -
  have m: "m_q q \<noteq> []" using inv ne contents_empty_iff by blast
  then have l: "blk_inv T (last (m_q q))" using inv by (simp add: rq_inv_def)
  then have len: "0 < blk_len (last (m_q q))" by (simp add: blk_inv_len)
  from l have "blk_buffer (last (m_q q)) \<noteq> []" by (rule blk_buffer_nonempty)
  moreover have "rq_attach_block q = Some (q, blk_buffer (last (m_q q)))"
    using m len by (simp add: rq_attach_block_def)
  ultimately show ?thesis
    using contents_snoc [OF m refl] by blast
qed

subsection \<open>GetBuffer\<close>

lemma get_loop_spec:
  "rq_inv T q \<Longrightarrow> n \<le> length (contents q) \<Longrightarrow>
   \<exists>q'. get_loop n q acc = Some (q', acc @ take n (contents q)) \<and> rq_inv T q' \<and>
     contents q' = drop n (contents q)"
proof (induction n q acc rule: get_loop.induct)
  case (1 n q acc)
  show ?case
  proof (cases "n = 0")
    case True
    with "1.prems" show ?thesis by (simp add: get_loop.simps)
  next
    case False
    with "1.prems" have "contents q \<noteq> []" by auto
    from rq_attach_block_spec [OF "1.prems"(1) this] obtain buf r
      where at: "rq_attach_block q = Some (q, buf)" "buf \<noteq> []" "contents q = buf @ r"
      by blast
    let ?m = "min n (length buf)"
    have m: "?m \<noteq> 0" "?m \<le> length (contents q)" using False at by auto
    have adv: "rq_inv T (rq_advance q ?m)" "contents (rq_advance q ?m) = drop ?m (contents q)"
      using rq_advance_spec [OF "1.prems"(1) m(2)] by auto
    have "n - ?m \<le> length (contents (rq_advance q ?m))"
      using adv(2) "1.prems"(2) m by simp
    from "1.IH" [OF False at(1) refl refl m(1) adv(1) this] obtain q'
      where q': "get_loop (n - ?m) (rq_advance q ?m) (acc @ take ?m buf) =
          Some (q', (acc @ take ?m buf) @ take (n - ?m) (contents (rq_advance q ?m)))"
        "rq_inv T q'" "contents q' = drop (n - ?m) (contents (rq_advance q ?m))"
      by blast
    have "take ?m buf @ take (n - ?m) (drop ?m (contents q)) = take n (contents q)"
      using at(3) by (cases "n \<le> length buf") auto
    moreover have "get_loop n q acc = get_loop (n - ?m) (rq_advance q ?m) (acc @ take ?m buf)"
      using False at(1) m(1) by (subst get_loop.simps) (auto simp: Let_def min_def)
    ultimately show ?thesis
      using q' adv(2) by (auto simp: add.commute)
  qed
qed


lemma rq_get_buffer_spec:
  assumes "rq_inv T q" and "n \<le> length (contents q)"
  shows "\<exists>q'. rq_get_buffer q n = Some (q', take n (contents q)) \<and> rq_inv T q' \<and>
    contents q' = drop n (contents q)"
  using get_loop_spec [OF assms, of "[]"] assms by (simp add: rq_get_buffer_def rq_inv_def)

subsection \<open>Attach over several blocks\<close>

lemma attach_loop_spec:
  assumes "0 < n" and "n \<le> length (concat (map blk_buffer bs))"
  shows "\<exists>p r. attach_loop n temp t bs =
      (temp @ take n (concat (map blk_buffer bs)), t @ p, r) \<and> bs = p @ r \<and>
      length (concat (map blk_buffer p)) < n"
  using assms
proof (induction n temp t bs rule: attach_loop.induct)
  case (2 n temp t b r)
  let ?k = "min (blk_len b) n"
  show ?case
  proof (cases "n \<le> blk_len b")
    case True
    with "2.prems" show ?thesis
      by (intro exI [of _ "[]"] exI [of _ "b # r"]) (auto simp: Let_def min_absorb2)
  next
    case False
    then have k: "?k = blk_len b" and nz: "n - ?k \<noteq> 0" by auto
    have "0 < n - ?k" "n - ?k \<le> length (concat (map blk_buffer r))"
      using False "2.prems" by auto
    from "2.IH" [OF refl refl nz this] obtain p r' where
      ih: "attach_loop (n - ?k) (temp @ take ?k (blk_buffer b)) (t @ [b]) r =
        ((temp @ take ?k (blk_buffer b)) @ take (n - ?k) (concat (map blk_buffer r)),
         (t @ [b]) @ p, r')" "r = p @ r'" "length (concat (map blk_buffer p)) < n - ?k"
      by blast
    have "attach_loop n temp t (b # r) =
        attach_loop (n - ?k) (temp @ take ?k (blk_buffer b)) (t @ [b]) r"
      using nz by (simp add: Let_def)
    with ih False show ?thesis
      by (intro exI [of _ "b # p"] exI [of _ r']) (auto simp: k)
  qed
qed simp

lemma attach_loop_within_two:
  assumes "blk_len a < n" and "n \<le> blk_len a + blk_len b"
  shows "\<exists>temp. attach_loop n [] [] (a # b # r) = (temp, [a], b # r)"
  using assms by (simp add: Let_def min_def)

definition two_block_span :: "ringq \<Rightarrow> nat \<Rightarrow> bool" where
  "two_block_span q n \<longleftrightarrow>
     (case rev (m_q q) of a # b # r \<Rightarrow> n \<le> blk_len a + blk_len b | _ \<Rightarrow> True)"

lemma rq_attach_value:
  assumes inv: "rq_inv T q" and n: "0 < n" "n \<le> T" "n \<le> length (contents q)"
  shows "snd (rq_attach T q n) = Some (take n (contents q))"
proof -
  have ne: "m_q q \<noteq> []" using n by (auto simp: contents_def)
  have sz: "m_size q = length (contents q)" using inv by (simp add: rq_inv_def)
  show ?thesis
  proof (cases "blk_len (last (m_q q)) < n")
    case True
    have "n \<le> length (concat (map blk_buffer (rev (m_q q))))" using n by (simp add: contents_def)
    from attach_loop_spec [OF n(1) this, of "[]" "[]"] obtain p r where
      "attach_loop n [] [] (rev (m_q q)) = (take n (contents q), p, r)"
      by (auto simp: contents_def)
    with True ne n sz show ?thesis by (simp add: rq_attach_def)
  next
    case False
    with ne n sz show ?thesis by (simp add: rq_attach_def contents_snoc [OF ne refl])
  qed
qed

lemma rq_attach_frame:
  assumes "rq_inv T q" and "0 < n" and "n \<le> T" and "n \<le> length (contents q)"
    and two: "two_block_span q n"
  shows "rq_attach T q n = (q, Some (take n (contents q)))"
proof (cases "blk_len (last (m_q q)) < n")
  case False
  with rq_attach_value [OF assms(1-4)] show ?thesis
    by (auto simp: rq_attach_def)
next
  case True
  have ne: "m_q q \<noteq> []" using assms(2,4) by (auto simp: contents_def)
  then obtain a r where ar: "rev (m_q q) = a # r" by (metis list.exhaust rev_is_Nil_conv)
  then have a: "last (m_q q) = a" by (metis hd_rev list.sel(1))
  have "r \<noteq> []"
  proof
    assume "r = []"
    then have "contents q = blk_buffer a" using ar by (simp add: contents_def)
    with True assms(4) a show False by simp
  qed
  then obtain b r' where r: "r = b # r'" by (cases r) auto
  then have "n \<le> blk_len a + blk_len b" using two ar by (simp add: two_block_span_def)
  with True a obtain temp where
    "attach_loop n [] [] (rev (m_q q)) = (temp, [a], b # r')"
    using attach_loop_within_two ar r by metis
  moreover have "m_q q = rev (b # r') @ [a]"
    using ar r by (metis rev_rev_ident rev.simps(2))
  ultimately have "fst (rq_attach T q n) = q"
    using True ne by (simp add: rq_attach_def)
  with rq_attach_value [OF assms(1-4)] show ?thesis
    by (metis prod.collapse)
qed


text \<open>Three blocks in one window: the two oldest blocks change places.\<close>

lemma rq_attach_swap:
  assumes q: "m_q q = r @ [c, b, a]" and n: "blk_len a + blk_len b < n"
    "n \<le> blk_len a + blk_len b + blk_len c" "n \<le> T" "n \<le> m_size q"
  shows "m_q (fst (rq_attach T q n)) = r @ [c, a, b]"
proof -
  have "\<exists>temp. attach_loop n [] [] (a # b # c # rev r) = (temp, [a, b], c # rev r)"
    using n(1,2) by (auto simp: Let_def min_def)
  then show ?thesis using q n by (auto simp: rq_attach_def)
qed

section \<open>Sequences of operations with bounded chunks\<close>

text \<open>
  \<open>rq_dense c T q\<close>: every block but the newest is full up to less than \<open>c\<close> bytes, and every
  block but the oldest is unread.  Appending chunks of at most \<open>c\<close> bytes keeps it, and then a
  window of at most \<open>T - c\<close> bytes never reaches a third block.
\<close>

definition rq_dense :: "nat \<Rightarrow> nat \<Rightarrow> ringq \<Rightarrow> bool" where
  "rq_dense c T q \<longleftrightarrow> (\<forall>b\<in>set (tl (m_q q)). T < length (blk_T b) + c) \<and>
     (\<forall>b\<in>set (butlast (m_q q)). blk_b b = 0)"

lemma rq_dense_new [simp]: "rq_dense c T rq_new"
  by (simp add: rq_dense_def rq_new_def)

lemma rq_dense_append1:
  assumes "rq_dense c T q" and "length d \<le> c"
  shows "rq_dense c T (rq_append1 T q d)"
  using assms
  by (auto simp: rq_dense_def rq_append1_def blk_append_def blk_new_def
      split: list.splits if_splits)

lemma rq_dense_append:
  assumes "rq_dense c T q" and "length d \<le> c" and "c \<le> T"
  shows "rq_dense c T (rq_append T q d)"
  using assms rq_dense_append1 by (subst rq_append.simps) auto

lemma advance_loop_suffix:
  "advance_loop n bs = [] \<or> (\<exists>b r p k. bs = p @ b # r \<and> advance_loop n bs = blk_advance k b # r)"
proof (induction n bs rule: advance_loop.induct)
  case (2 n b r)
  let ?k = "min (blk_len b) n"
  consider "n = 0" | "n \<noteq> 0" "blk_len (blk_advance ?k b) = 0"
    | "n \<noteq> 0" "blk_len (blk_advance ?k b) \<noteq> 0" by blast
  then show ?case
  proof cases
    case 1
    then have "advance_loop n (b # r) = blk_advance 0 b # r" by (simp add: blk_advance_def)
    then show ?thesis by blast
  next
    case 2
    then have "advance_loop n (b # r) = advance_loop (n - ?k) r" by (simp add: Let_def)
    with "2.IH"(1) [OF 2(1) refl refl 2(2)] show ?thesis
      by (metis append_Cons)
  next
    case 3
    then have "n - ?k = 0" by (auto simp: blk_len_def blk_advance_def)
    with 3 have "advance_loop n (b # r) = blk_advance ?k b # r" by (simp add: Let_def)
    then show ?thesis by blast
  qed
qed simp

lemma rq_dense_advance: "rq_dense c T q \<Longrightarrow> rq_dense c T (rq_advance q n)"
proof -
  assume d: "rq_dense c T q"
  show ?thesis
  proof (cases "m_size q < n")
    case False
    let ?l = "advance_loop n (rev (m_q q))"
    consider "?l = []" | b r p k where "rev (m_q q) = p @ b # r" "?l = blk_advance k b # r"
      using advance_loop_suffix [of n "rev (m_q q)"] by blast
    then show ?thesis
    proof cases
      case 1
      with False show ?thesis by (simp add: rq_dense_def rq_advance_def)
    next
      case 2
      then have "m_q q = rev r @ b # rev p" by (simp add: rev_swap)
      with 2 False d show ?thesis
        by (cases "rev r") (auto simp: rq_dense_def rq_advance_def butlast_append blk_advance_def)
    qed
  qed (use d in \<open>simp add: rq_advance_def\<close>)
qed

lemma rq_dense_two_block_span:
  assumes "rq_dense c T q" and "n \<le> T - c" and "n \<le> length (contents q)"
  shows "two_block_span q n"
proof (cases "rev (m_q q)")
  case (Cons a bs)
  show ?thesis
  proof (cases bs)
    case (Cons b r)
    have m: "m_q q = rev r @ [b, a]" using \<open>rev (m_q q) = a # bs\<close> Cons by (simp add: rev_swap)
    show ?thesis
    proof (cases "rev r")
      case Nil
      with m assms(3) show ?thesis by (simp add: two_block_span_def contents_def)
    next
      case (Cons x xs)
      then have "b \<in> set (tl (m_q q))" "b \<in> set (butlast (m_q q))"
        using m by (auto simp: butlast_append)
      then have "n \<le> blk_len b"
        using assms by (auto simp: rq_dense_def blk_len_def)
      then show ?thesis using m by (simp add: two_block_span_def)
    qed
  qed (simp add: two_block_span_def \<open>rev (m_q q) = a # bs\<close>)
qed (simp add: two_block_span_def)


text \<open>
  The receiving side: chunks that arrive are appended, the resolver peeks at a window
  (\<^verbatim>\<open>Attach(ptr, len)\<close>) and consumes bytes (\<^verbatim>\<open>Advance\<close>).
\<close>

datatype rq_op = OpAppend bytes | OpPeek nat | OpAdvance nat

fun rq_run :: "nat \<Rightarrow> rq_op list \<Rightarrow> ringq \<Rightarrow> ringq \<times> bytes option list" where
  "rq_run T [] q = (q, [])"
| "rq_run T (OpAppend d # ops) q = rq_run T ops (rq_append T q d)"
| "rq_run T (OpPeek n # ops) q =
     (let (q', w) = rq_attach T q n; (q'', ws) = rq_run T ops q' in (q'', w # ws))"
| "rq_run T (OpAdvance n # ops) q = rq_run T ops (rq_advance q n)"

text \<open>The same operations on the byte sequence itself.\<close>

fun fifo_run :: "rq_op list \<Rightarrow> bytes \<Rightarrow> bytes \<times> bytes option list" where
  "fifo_run [] s = (s, [])"
| "fifo_run (OpAppend d # ops) s = fifo_run ops (s @ d)"
| "fifo_run (OpPeek n # ops) s =
     (let (s', ws) = fifo_run ops s
      in (s', (if length s < n then None else Some (take n s)) # ws))"
| "fifo_run (OpAdvance n # ops) s = fifo_run ops (if length s < n then s else drop n s)"

fun op_bounded :: "nat \<Rightarrow> nat \<Rightarrow> rq_op \<Rightarrow> bool" where
  "op_bounded c w (OpAppend d) \<longleftrightarrow> length d \<le> c"
| "op_bounded c w (OpPeek n) \<longleftrightarrow> 0 < n \<and> n \<le> w"
| "op_bounded c w (OpAdvance n) \<longleftrightarrow> True"

lemma rq_attach_short: "m_size q < n \<Longrightarrow> rq_attach T q n = (q, None)"
  by (simp add: rq_attach_def)

lemma rq_run_refines:
  assumes "list_all (op_bounded c w) ops" and "w + c \<le> T" and "0 < T"
    and "rq_inv T q" and "rq_dense c T q"
  shows "fifo_run ops (contents q) =
    (contents (fst (rq_run T ops q)), snd (rq_run T ops q))"
  using assms
proof (induction T ops q rule: rq_run.induct)
  case (2 T d ops q)
  have "rq_inv T (rq_append T q d)" "rq_dense c T (rq_append T q d)"
    using "2.prems" by (auto intro: rq_append_inv rq_dense_append)
  with "2.IH" "2.prems" show ?case by (simp add: rq_append_contents)
next
  case (3 T n ops q)
  have sz: "m_size q = length (contents q)" using "3.prems" by (simp add: rq_inv_def)
  have att: "rq_attach T q n =
      (q, if length (contents q) < n then None else Some (take n (contents q)))"
  proof (cases "length (contents q) < n")
    case False
    moreover have "0 < n" "n \<le> T" "n \<le> T - c" using "3.prems" by auto
    ultimately show ?thesis
      using rq_attach_frame rq_dense_two_block_span "3.prems"(4,5) by (metis not_less)
  qed (simp add: rq_attach_short sz)
  have "fifo_run ops (contents q) = (contents (fst (rq_run T ops q)), snd (rq_run T ops q))"
    using "3.IH" [OF att [symmetric] refl] "3.prems" by simp
  with att show ?case by (simp add: Let_def split_beta)
next
  case (4 T n ops q)
  have sz: "m_size q = length (contents q)" using "4.prems" by (simp add: rq_inv_def)
  show ?case
  proof (cases "length (contents q) < n")
    case True
    with "4.IH" "4.prems" sz show ?thesis by (simp add: rq_advance_beyond)
  next
    case False
    then have "rq_inv T (rq_advance q n)" "rq_dense c T (rq_advance q n)"
      "contents (rq_advance q n) = drop n (contents q)"
      using "4.prems" rq_dense_advance by (auto simp: rq_advance_spec)
    with "4.IH" "4.prems" False show ?thesis by simp
  qed
qed simp

section \<open>The sending loops\<close>

text \<open>
  The loop of \<^verbatim>\<open>c_zclient::doWrite\<close>, \<^verbatim>\<open>c_zclient::rawSend\<close> (src/zredis/zredis/c_zclient.cpp) and
  of the \<^verbatim>\<open>RESULT_PARAM\<close> macro (src/include/zredis/c_command.h): while the queue has bytes, hand
  its oldest block to the connection and consume it.  \<open>send i\<close> tells whether the \<open>i\<close>-th call of
  \<^verbatim>\<open>_send\<close> succeeds; the loop leaves on the first failure.  The operations of the queue are
  parameters.  The fuel is the number of queued bytes; \<^const>\<open>None\<close> would be an exhausted fuel or
  \<^verbatim>\<open>back()\<close> of an empty list.
\<close>

fun send_loop :: "('q \<Rightarrow> ('q \<times> bytes) option) \<Rightarrow> ('q \<Rightarrow> nat \<Rightarrow> 'q) \<Rightarrow> ('q \<Rightarrow> nat) \<Rightarrow> (nat \<Rightarrow> bool) \<Rightarrow>
    nat \<Rightarrow> nat \<Rightarrow> 'q \<Rightarrow> ('q \<times> bytes list) option" where
  "send_loop att adv cnt send 0 i q = (if cnt q = 0 then Some (q, []) else None)"
| "send_loop att adv cnt send (Suc fuel) i q =
     (if cnt q = 0 then Some (q, [])
      else case att q of
        None \<Rightarrow> None
      | Some (q', buf) \<Rightarrow>
          if send i
          then (case send_loop att adv cnt send fuel (Suc i) (adv q' (length buf)) of
                  None \<Rightarrow> None | Some (q'', sent) \<Rightarrow> Some (q'', buf # sent))
          else Some (q', []))"

definition do_write :: "(nat \<Rightarrow> bool) \<Rightarrow> ringq \<Rightarrow> (ringq \<times> bytes list) option" where
  "do_write send q = send_loop rq_attach_block rq_advance rq_count send (rq_count q) 0 q"

text \<open>\<^verbatim>\<open>RESULT_PARAM\<close> ignores what \<^verbatim>\<open>con->send\<close> returns.\<close>

definition result_send :: "ringq \<Rightarrow> (ringq \<times> bytes list) option" where
  "result_send q = do_write (\<lambda>_. True) q"

text \<open>What the loops rely on.\<close>

locale byte_fifo =
  fixes fifo_inv :: "'q \<Rightarrow> bool"
    and fifo_bytes :: "'q \<Rightarrow> bytes"
    and att :: "'q \<Rightarrow> ('q \<times> bytes) option"
    and adv :: "'q \<Rightarrow> nat \<Rightarrow> 'q"
    and cnt :: "'q \<Rightarrow> nat"
  assumes cnt_bytes: "fifo_inv q \<Longrightarrow> cnt q = length (fifo_bytes q)"
    and att_bytes: "fifo_inv q \<Longrightarrow> fifo_bytes q \<noteq> [] \<Longrightarrow>
      \<exists>q' buf r. att q = Some (q', buf) \<and> buf \<noteq> [] \<and> fifo_bytes q = buf @ r \<and>
        fifo_inv q' \<and> fifo_bytes q' = fifo_bytes q"
    and adv_bytes: "fifo_inv q \<Longrightarrow> n \<le> length (fifo_bytes q) \<Longrightarrow>
      fifo_inv (adv q n) \<and> fifo_bytes (adv q n) = drop n (fifo_bytes q)"
begin

lemma send_loop_spec:
  assumes "fifo_inv q" and "length (fifo_bytes q) \<le> fuel"
  shows "\<exists>q' sent. send_loop att adv cnt send fuel i q = Some (q', sent) \<and> fifo_inv q' \<and>
    concat sent @ fifo_bytes q' = fifo_bytes q \<and> [] \<notin> set sent \<and>
    (fifo_bytes q' = [] \<or> \<not> send (i + length sent)) \<and> (\<forall>j<length sent. send (i + j))"
  using assms
proof (induction fuel arbitrary: i q)
  case (Suc fuel)
  show ?case
  proof (cases "fifo_bytes q = []")
    case False
    then obtain q' buf r where a: "att q = Some (q', buf)" "buf \<noteq> []" "fifo_bytes q = buf @ r"
        "fifo_inv q'" "fifo_bytes q' = fifo_bytes q"
      using att_bytes Suc.prems by blast
    have c: "cnt q \<noteq> 0" using False Suc.prems by (simp add: cnt_bytes)
    show ?thesis
    proof (cases "send i")
      case True
      have d: "fifo_inv (adv q' (length buf))" "fifo_bytes (adv q' (length buf)) = r"
        using a adv_bytes [of q' "length buf"] by auto
      have "length r \<le> fuel" using a Suc.prems by (cases buf) auto
      then obtain q'' sent where ih:
          "send_loop att adv cnt send fuel (Suc i) (adv q' (length buf)) = Some (q'', sent)"
          "fifo_inv q''" "concat sent @ fifo_bytes q'' = r" "[] \<notin> set sent"
          "fifo_bytes q'' = [] \<or> \<not> send (Suc i + length sent)"
          "\<forall>j<length sent. send (Suc i + j)"
        using Suc.IH [OF d(1), of "Suc i"] d(2) by auto
      have "\<forall>j<length (buf # sent). send (i + j)"
        using True ih(6) by (auto simp: less_Suc_eq_0_disj)
      with True a c ih show ?thesis by auto
    qed (use a c in auto)
  qed (use Suc.prems in \<open>simp add: cnt_bytes\<close>)
qed (simp add: cnt_bytes)

end

interpretation rq: byte_fifo "rq_inv T" contents rq_attach_block rq_advance rq_count
  by unfold_locales
    (use rq_attach_block_spec in \<open>fastforce simp: rq_count_contents rq_advance_spec\<close>)+


section \<open>Properties\<close>

text \<open>
  C12. With chunks of at most \<open>c\<close> bytes and windows of at most \<open>w\<close> bytes, \<open>w + c \<le> T\<close>, every
  sequence of appends, peeks and advances on the chunked queue yields exactly the windows, and
  leaves exactly the bytes, of the same sequence on a plain byte string.
\<close>

theorem rq_run_is_fifo:
  assumes "list_all (op_bounded c w) ops" and "w + c \<le> T" and "0 < T"
  shows "snd (rq_run T ops rq_new) = snd (fifo_run ops []) \<and>
    contents (fst (rq_run T ops rq_new)) = fst (fifo_run ops [])"
  using rq_run_refines [OF assms rq_inv_new rq_dense_new] by simp_all

theorem rq_run_is_fifo_witness:
  "snd (rq_run 6 [OpAppend ''abc'', OpAppend ''def'', OpAppend ''ghi'', OpAdvance 5, OpPeek 3] rq_new)
     = [Some ''fgh'']"
  using rq_run_is_fifo [of 3 3
      "[OpAppend ''abc'', OpAppend ''def'', OpAppend ''ghi'', OpAdvance 5, OpPeek 3]" 6]
  by simp

text \<open>
  When a window reaches a third block, peeking at it changes the queue: the two oldest blocks
  change places, so that the bytes read afterwards are out of order.
\<close>

theorem rq_attach_reorders:
  assumes "m_q q = r @ [c, b, a]" and "blk_len a + blk_len b < n"
    and "n \<le> blk_len a + blk_len b + blk_len c" and "n \<le> T" and "n \<le> m_size q"
  shows "contents q = blk_buffer a @ blk_buffer b @ blk_buffer c @
      concat (map blk_buffer (rev r)) \<and>
    contents (fst (rq_attach T q n)) = blk_buffer b @ blk_buffer a @ blk_buffer c @
      concat (map blk_buffer (rev r))"
  using assms rq_attach_swap [OF assms] by (simp_all add: contents_def)

theorem rq_attach_reorders_witness:
  "\<exists>q. q = fst (rq_run 4 [OpAppend ''aaaa'', OpAdvance 3, OpAppend ''bb'', OpAppend ''cccc''] rq_new) \<and>
     contents q = ''abbcccc'' \<and> contents (fst (rq_attach 4 q 4)) = ''bbacccc''"
proof -
  let ?a = "\<lparr>blk_T = ''aaaa'', blk_b = 3\<rparr>" and ?b = "\<lparr>blk_T = ''bb'', blk_b = 0\<rparr>"
    and ?c = "\<lparr>blk_T = ''cccc'', blk_b = 0\<rparr>"
  let ?q = "\<lparr>m_q = [?c, ?b, ?a], m_size = 7\<rparr>"
  have "?q = fst (rq_run 4 [OpAppend ''aaaa'', OpAdvance 3, OpAppend ''bb'', OpAppend ''cccc''] rq_new)"
    by code_simp
  moreover have "contents ?q = ''abbcccc''" "contents (fst (rq_attach 4 ?q 4)) = ''bbacccc''"
    using rq_attach_reorders [of ?q "[]" ?c ?b ?a 4 4] by (simp_all add: blk_len_def blk_buffer_def)
  ultimately show ?thesis by blast
qed

text \<open>
  C13. The sending loop always ends and loses nothing: what was accepted followed by what is still
  queued is what was queued, in order, whatever the connection does; and the queue is drained
  unless a send failed.
\<close>

theorem do_write_conserves:
  assumes "rq_inv T q"
  shows "\<exists>q' sent. do_write send q = Some (q', sent) \<and> rq_inv T q' \<and>
    concat sent @ contents q' = contents q \<and> [] \<notin> set sent \<and>
    (contents q' = [] \<or> \<not> send (length sent)) \<and> (\<forall>j<length sent. send j)"
  using rq.send_loop_spec [OF assms, of "rq_count q" send 0]
  by (simp add: do_write_def rq_count_contents [OF assms])

theorem do_write_conserves_witness:
  "\<exists>q' sent. do_write (\<lambda>i. i < 1) (rq_append 2 rq_new ''abcde'') = Some (q', sent) \<and>
     concat sent @ contents q' = ''abcde''"
proof -
  have "rq_inv 2 (rq_append 2 rq_new ''abcde'')" by (simp add: rq_append_inv)
  from do_write_conserves [OF this, of "\<lambda>i. i < 1"] show ?thesis
    by (auto simp: rq_append_contents)
qed

end
