(* ===== verification/Resolver.thy ===== *)
theory Resolver
  imports RingQueue
begin

text \<open>
  The protocol layer of src/include/zredis/c_resolver.h and src/zredis/zredis/c_resolver.cpp: the
  parameter unit \<^verbatim>\<open>c_punit\<close>, the incremental request parser \<^verbatim>\<open>c_istream\<close>, the four reply
  streams behind \<^verbatim>\<open>IOStream\<close>, and \<^verbatim>\<open>c_stream\<close>, which feeds the received bytes to the parser in
  either of two protocols (redis arrays, or a command line).  The properties: a pipeline of
  serialized requests is delivered exactly, however the network cuts it into chunks; what the
  replies look like on the wire; the command line protocol; and two inputs on which the parser
  does not do its work.
\<close>

section \<open>Searching a separator\<close>

text \<open>\<^verbatim>\<open>zn::zstrstr\<close> of src/Base_Inc/public.h: the offset of the first occurrence.\<close>

fun zstrstr :: "bytes \<Rightarrow> bytes \<Rightarrow> nat option" where
  "zstrstr [] sub = (if sub = [] then Some 0 else None)"
| "zstrstr (c # cs) sub =
     (if length (c # cs) < length sub then None
      else if take (length sub) (c # cs) = sub then Some 0
      else map_option Suc (zstrstr cs sub))"

section \<open>Parameter units\<close>

text \<open>
  \<^verbatim>\<open>c_punit\<close>: \<open>pu_str\<close> is what has been read into \<^verbatim>\<open>m_str\<close>, so \<^verbatim>\<open>m_pos\<close> is its length; \<open>pu_len\<close>
  is \<^verbatim>\<open>m_len\<close>, an \<^verbatim>\<open>int\<close> that wraps around.
\<close>

record punit =
  pu_str :: bytes
  pu_len :: int

definition s32 :: "int \<Rightarrow> int" where
  "s32 i = sint (word_of_int i :: 32 word)"

definition pu_pos :: "punit \<Rightarrow> nat" where
  "pu_pos u = length (pu_str u)"

definition punit_new :: "int \<Rightarrow> punit" where
  "punit_new n = \<lparr>pu_str = [], pu_len = s32 (n + 2)\<rparr>"

definition punit_read :: "punit \<Rightarrow> bytes \<Rightarrow> punit \<times> int" where
  "punit_read u w =
     (if pu_len u \<le> int (pu_pos u) then (u, 0)
      else let result = min (nat (pu_len u) - pu_pos u) (length w);
               str = pu_str u @ take result w;
               str' = (if int (length str) = pu_len u then str[nat (pu_len u) - 2 := NUL] else str)
           in (u\<lparr>pu_str := str'\<rparr>, int result))"

definition punit_finish :: "punit \<Rightarrow> bool" where
  "punit_finish u \<longleftrightarrow> pu_len u = int (pu_pos u)"

section \<open>The request parser\<close>

record istream =
  is_vp :: "punit list"
  is_count :: int
  is_index :: nat
  is_line :: bool

definition istream_new :: istream where
  "istream_new = \<lparr>is_vp = [], is_count = 0, is_index = 0, is_line = True\<rparr>"

text \<open>
  \<^verbatim>\<open>read_param\<close> on a line of \<open>n\<close> bytes at the start of the window \<open>w\<close>.  As in the code, \<^verbatim>\<open>atoi\<close>
  reads from the window and not from the line.
\<close>

definition read_param :: "istream \<Rightarrow> bytes \<Rightarrow> nat \<Rightarrow> istream \<times> int" where
  "read_param s w n =
     (if is_count s = 0
      then if w ! 0 \<noteq> CHR ''*'' then (s, - 2)
           else let s' = s\<lparr>is_count := atoi (drop 1 w)\<rparr>
                in if is_count s' \<le> 0 then (s', - 2) else (s', int n)
      else if w ! 0 \<noteq> CHR ''$'' then (s, - 2)
      else let len = atoi (drop 1 w)
           in if len < 0 then (s, - 2)
              else (s\<lparr>is_vp := is_vp s @ [punit_new len], is_index := is_index s + 1,
                      is_line := False\<rparr>, int n))"

definition read_data :: "istream \<Rightarrow> bytes \<Rightarrow> istream \<times> int" where
  "read_data s w =
     (if is_vp s = [] then (s, - 2)
      else if length (is_vp s) \<noteq> is_index s then (s, - 2)
      else let (u, result) = punit_read (is_vp s ! (is_index s - 1)) w;
               s' = s\<lparr>is_vp := (is_vp s)[is_index s - 1 := u]\<rparr>
           in (if punit_finish u then s'\<lparr>is_line := True\<rparr> else s', result))"

definition istream_read :: "istream \<Rightarrow> bytes \<Rightarrow> istream \<times> int" where
  "istream_read s w =
     (if is_line s
      then case zstrstr w CRLF of
             None \<Rightarrow> (s, - 1)
           | Some pos \<Rightarrow> read_param s w (pos + 2)
      else read_data s w)"

definition istream_finish :: "istream \<Rightarrow> bool" where
  "istream_finish s \<longleftrightarrow> int (length (is_vp s)) = is_count s \<and> punit_finish (last (is_vp s))"

text \<open>\<^verbatim>\<open>c_istream::push\<close>: a command line argument, followed by its line end.\<close>

definition istream_push :: "istream \<Rightarrow> bytes \<Rightarrow> istream" where
  "istream_push s d =
     s\<lparr>is_vp := is_vp s @ [fst (punit_read (punit_new (int (length d) - 2)) d)]\<rparr>"

text \<open>\<^verbatim>\<open>get\<close>: the parameters are counted from 1; the result is \<^verbatim>\<open>ptr\<close> with its \<^verbatim>\<open>len\<close>.\<close>

definition istream_get :: "istream \<Rightarrow> nat \<Rightarrow> (bytes \<times> int) option" where
  "istream_get s index =
     (if index = 0 \<or> length (is_vp s) \<le> index - 1 then None
      else let u = is_vp s ! (index - 1) in Some (pu_str u, int (pu_pos u) - 2))"

definition istream_to_string :: "istream \<Rightarrow> nat \<Rightarrow> string" where
  "istream_to_string s index =
     (case istream_get s index of None \<Rightarrow> '''' | Some (ptr, len) \<Rightarrow> cstr ptr)"

definition istream_to_integer :: "istream \<Rightarrow> nat \<Rightarrow> u64" where
  "istream_to_integer s index = word_of_int (atol (istream_to_string s index))"

definition istream_count :: "istream \<Rightarrow> u32" where
  "istream_count s = of_nat (length (is_vp s))"

section \<open>Reply streams\<close>

text \<open>
  \<^verbatim>\<open>IOStream\<close> and its four implementations.  The three overloads of \<^verbatim>\<open>push\<close> are told apart by
  name; \<^verbatim>\<open>push(const char*)\<close> is \<open>os_push_buf\<close> on the C string.
\<close>

datatype ostream =
    Os_error string
  | Os_success string
  | Os_data bytes
  | Os_array "punit list"

fun os_push_str :: "ostream \<Rightarrow> string \<Rightarrow> ostream" where
  "os_push_str (Os_error r) s = Os_error s"
| "os_push_str (Os_success r) s = Os_success s"
| "os_push_str (Os_data r) s = Os_data s"
| "os_push_str (Os_array us) s = Os_array (us @ [fst (punit_read (punit_new (int (length s))) s)])"

fun os_push_buf :: "ostream \<Rightarrow> bytes \<Rightarrow> ostream" where
  "os_push_buf (Os_error r) d = Os_error d"
| "os_push_buf (Os_success r) d = Os_success d"
| "os_push_buf (Os_data r) d = Os_data d"
| "os_push_buf (Os_array us) d =
     (if d = [] then Os_array us
      else Os_array (us @ [fst (punit_read (punit_new (int (length d))) d)]))"

definition os_push_cstr :: "ostream \<Rightarrow> bytes \<Rightarrow> ostream" where
  "os_push_cstr os s = os_push_buf os (cstr s)"

text \<open>\<^verbatim>\<open>push(int)\<close>: four bytes in network order; the status streams inherit the empty body.\<close>

fun os_push_int :: "ostream \<Rightarrow> u32 \<Rightarrow> ostream" where
  "os_push_int (Os_error r) i = Os_error r"
| "os_push_int (Os_success r) i = Os_success r"
| "os_push_int (Os_data r) i = Os_data (u32_mem (htonl i))"
| "os_push_int (Os_array us) i =
     Os_array (us @ [fst (punit_read (punit_new 4) (u32_mem (htonl i)))])"

fun os_empty :: "ostream \<Rightarrow> bool" where
  "os_empty (Os_error r) \<longleftrightarrow> r = []"
| "os_empty (Os_success r) \<longleftrightarrow> r = []"
| "os_empty (Os_data r) \<longleftrightarrow> r = []"
| "os_empty (Os_array us) \<longleftrightarrow> us = []"

fun os_get :: "ostream \<Rightarrow> nat \<Rightarrow> punit option" where
  "os_get (Os_array us) i = (if length us \<le> i then None else Some (us ! i))"
| "os_get _ i = None"

text \<open>\<^verbatim>\<open>Append(const char*)\<close>.\<close>

definition rq_puts :: "ringq \<Rightarrow> bytes \<Rightarrow> ringq" where
  "rq_puts q s = rq_append 4096 q (cstr s)"

fun serialize_units :: "ringq \<Rightarrow> punit list \<Rightarrow> ringq" where
  "serialize_units q [] = q"
| "serialize_units q (u # us) =
     (let q1 = rq_puts q (''$'' @ itostr (int (pu_pos u)) @ CRLF);
          q2 = rq_append 4096 q1 (pu_str u);
          q3 = rq_append 4096 q2 CRLF
      in serialize_units q3 us)"

text \<open>
  \<^verbatim>\<open>serialize\<close>; an empty array is refused.  \<^verbatim>\<open>__tos\<close> builds the status lines with \<^verbatim>\<open>strcat\<close>, so they
  end at the first NUL of the message.
\<close>

fun os_serialize :: "ostream \<Rightarrow> ringq \<Rightarrow> ringq \<times> bool" where
  "os_serialize (Os_error r) q = (rq_puts q (''-'' @ cstr r @ CRLF), True)"
| "os_serialize (Os_success r) q = (rq_puts q (''+'' @ cstr r @ CRLF), True)"
| "os_serialize (Os_data r) q =
     (rq_append 4096 (rq_append 4096 (rq_puts q (''$'' @ itostr (int (length r)) @ CRLF)) r) CRLF, True)"
| "os_serialize (Os_array us) q =
     (if us = [] then (q, False)
      else (serialize_units (rq_puts q (''*'' @ itostr (int (length us)) @ CRLF)) us, True))"

section \<open>The connection's input stream\<close>

datatype e_command = E_defalt | E_commandline | E_redis

record cstream =
  cs_ring :: ringq
  cs_param :: "istream option"
  cs_vparam :: bytes
  cs_commandline :: e_command

definition cstream_new :: cstream where
  "cstream_new = \<lparr>cs_ring = rq_new, cs_param = None, cs_vparam = [], cs_commandline = E_defalt\<rparr>"

text \<open>\<^verbatim>\<open>recv\<close>; the caller passes at least one byte.\<close>

definition cstream_recv :: "cstream \<Rightarrow> bytes \<Rightarrow> cstream" where
  "cstream_recv s d =
     (let mode = (if cs_commandline s = E_defalt
                  then if d ! 0 = CHR ''*'' then E_redis else E_commandline
                  else cs_commandline s)
      in s\<lparr>cs_commandline := mode, cs_ring := rq_append 4096 (cs_ring s) d\<rparr>)"

text \<open>
  What \<^verbatim>\<open>analyze\<close> sees of its connection (the pointer may be NULL), and what it broadcasts to the
  monitors of the connection: a list of packets.
\<close>

record conn_view =
  cv_is_broadcast :: bool
  cv_ip :: string
  cv_port :: u16

definition con_broadcast :: "conn_view option \<Rightarrow> bytes \<Rightarrow> bytes list" where
  "con_broadcast con d = (case con of None \<Rightarrow> [] | Some _ \<Rightarrow> [d])"

text \<open>The macro \<^verbatim>\<open>SEND_IPADDR\<close> of src/include/zredis/c_command.h.\<close>

definition send_ipaddr :: "conn_view option \<Rightarrow> string \<Rightarrow> bytes list" where
  "send_ipaddr con agreement =
     (case con of
        None \<Rightarrow> []
      | Some c \<Rightarrow>
          if cv_is_broadcast c
          then let line = cv_ip c @ '':('' @ itostr (int (unat (cv_port c))) @ '')=>'' @ agreement;
                   ring = fst (os_serialize (os_push_str (Os_success []) line) rq_new)
               in (case result_send ring of None \<Rightarrow> [] | Some (_, sent) \<Rightarrow> sent)
          else [])"

text \<open>
  The inner loop of the command line protocol over the bytes of one block: the queue, the
  parameter being collected, the parser and the broadcasts are threaded through; the flag tells
  that a line is complete.
\<close>

definition is_blank :: "char \<Rightarrow> bool" where
  "is_blank c \<longleftrightarrow> c = CHR '' '' \<or> c = CHR 0x09"

definition is_eol :: "char \<Rightarrow> bool" where
  "is_eol c \<longleftrightarrow> c = CR \<or> c = LF"

fun cmdline_for :: "conn_view option \<Rightarrow> bytes \<Rightarrow> ringq \<times> bytes \<times> istream \<times> bytes list \<Rightarrow>
    (ringq \<times> bytes \<times> istream \<times> bytes list) \<times> bool" where
  "cmdline_for con [] (q, vp, p, lg) = ((q, vp, p, lg), False)"
| "cmdline_for con (c # cs) (q, vp, p, lg) =
     (if vp = [] \<and> (is_eol c \<or> is_blank c) then ((rq_advance q 1, vp, p, lg), False)
      else if is_blank c
      then ((rq_advance q 1, [], istream_push p (vp @ CRLF), lg @ con_broadcast con (vp @ CRLF)), False)
      else if is_eol c
      then ((rq_advance q 1, [], istream_push p (vp @ CRLF), lg @ con_broadcast con (vp @ CRLF)), True)
      else cmdline_for con cs (rq_advance q 1, vp @ [c], p, lg))"

text \<open>
  The result of \<^verbatim>\<open>analyze\<close>: the stream, its return value, the parameters handed out (on return
  value 0) and the broadcasts.  \<^const>\<open>None\<close> is a loop that has not ended within the fuel, or an
  access through a NULL pointer.
\<close>

type_synonym analyzed = "cstream \<times> int \<times> istream option \<times> bytes list"

fun analyze_cmdline :: "nat \<Rightarrow> conn_view option \<Rightarrow> cstream \<Rightarrow> istream \<Rightarrow> bytes list \<Rightarrow> analyzed option" where
  "analyze_cmdline 0 con s p lg =
     (if rq_count (cs_ring s) = 0 then Some (s\<lparr>cs_param := Some p\<rparr>, - 1, None, lg) else None)"
| "analyze_cmdline (Suc fuel) con s p lg =
     (if rq_count (cs_ring s) = 0 then Some (s\<lparr>cs_param := Some p\<rparr>, - 1, None, lg)
      else case rq_attach_block (cs_ring s) of
        None \<Rightarrow> None
      | Some (q, buf) \<Rightarrow>
          (let ((q', vp, p', lg'), line) = cmdline_for con buf (q, cs_vparam s, p, lg);
               s' = s\<lparr>cs_ring := q', cs_vparam := vp\<rparr>
           in if line then Some (s'\<lparr>cs_param := None\<rparr>, 0, Some p', lg')
              else analyze_cmdline fuel con s' p' lg'))"

fun analyze_redis :: "nat \<Rightarrow> conn_view option \<Rightarrow> cstream \<Rightarrow> istream \<Rightarrow> bytes list \<Rightarrow> analyzed option" where
  "analyze_redis 0 con s p lg =
     (if rq_count (cs_ring s) = 0 then Some (s\<lparr>cs_param := Some p\<rparr>, - 1, None, lg) else None)"
| "analyze_redis (Suc fuel) con s p lg =
     (if rq_count (cs_ring s) = 0 then Some (s\<lparr>cs_param := Some p\<rparr>, - 1, None, lg)
      else case rq_attach 4096 (cs_ring s) (min (rq_count (cs_ring s)) 1024) of
        (q, None) \<Rightarrow> None
      | (q, Some ptr) \<Rightarrow>
          (let (p', adv) = istream_read p ptr;
               sent = lg @ con_broadcast con (take (nat adv) ptr)
           in if adv < 0 then Some (s\<lparr>cs_ring := q, cs_param := Some p'\<rparr>, adv, None, lg)
              else if istream_finish p'
              then Some (s\<lparr>cs_ring := rq_advance q (nat adv), cs_param := None\<rparr>, 0, Some p',
                         sent @ send_ipaddr con ''SEND'')
              else analyze_redis fuel con (s\<lparr>cs_ring := rq_advance q (nat adv)\<rparr>) p' sent))"

definition analyze :: "nat \<Rightarrow> conn_view option \<Rightarrow> cstream \<Rightarrow> analyzed option" where
  "analyze fuel con s =
     (let p = (case cs_param s of None \<Rightarrow> istream_new | Some p \<Rightarrow> p)
      in case cs_commandline s of
           E_defalt \<Rightarrow> Some (s\<lparr>cs_param := Some p\<rparr>, - 1, None, [])
         | E_commandline \<Rightarrow> analyze_cmdline fuel con s p []
         | E_redis \<Rightarrow> analyze_redis fuel con s p [])"

text \<open>
  \<^verbatim>\<open>c_zredis_connect::on_read\<close> (src/zredis/zredis/c_zredis_connect.cpp): the received bytes are
  taken over in pieces of at most \<^verbatim>\<open>READ_LEN\<close> bytes, and then the requests are handed to
  \<^verbatim>\<open>on_command\<close>, in order, until the stream is partial (-1) or in error (-2, the connection is
  then closed).  The result lists the requests.  One unit of fuel per queued byte is enough for
  each call of \<^const>\<open>analyze\<close>.
\<close>

function recv_pieces :: "cstream \<Rightarrow> bytes \<Rightarrow> cstream" where
  "recv_pieces s d =
     (if d = [] then s else recv_pieces (cstream_recv s (take 4096 d)) (drop 4096 d))"
  by pat_completeness auto
termination
  by (relation "measure (\<lambda>(s, d). length d)") auto

declare recv_pieces.simps [simp del]

fun on_read_loop :: "nat \<Rightarrow> conn_view option \<Rightarrow> cstream \<Rightarrow> (cstream \<times> int \<times> istream list) option" where
  "on_read_loop 0 con s = None"
| "on_read_loop (Suc fuel) con s =
     (case analyze (rq_count (cs_ring s)) con s of
        None \<Rightarrow> None
      | Some (s', r, None, lg) \<Rightarrow> Some (s', r, [])
      | Some (s', r, Some p, lg) \<Rightarrow>
          (case on_read_loop fuel con s' of
             None \<Rightarrow> None
           | Some (s'', r', ps) \<Rightarrow> Some (s'', r', p # ps)))"

definition on_read :: "conn_view option \<Rightarrow> cstream \<Rightarrow> bytes \<Rightarrow> (cstream \<times> int \<times> istream list) option" where
  "on_read con s d =
     (if d = [] then Some (s, - 1, [])
      else let s' = recv_pieces s d in on_read_loop (rq_count (cs_ring s') + 1) con s')"

text \<open>A connection over its lifetime: the chunks as the network delivers them.\<close>

fun on_reads :: "conn_view option \<Rightarrow> cstream \<Rightarrow> bytes list \<Rightarrow> (cstream \<times> int \<times> istream list) option" where
  "on_reads con s [] = Some (s, - 1, [])"
| "on_reads con s (d # ds) =
     (case on_read con s d of
        None \<Rightarrow> None
      | Some (s', r, ps) \<Rightarrow>
          if r = - 2 then Some (s', r, ps)
          else (case on_reads con s' ds of
                  None \<Rightarrow> None
                | Some (s'', r', ps') \<Rightarrow> Some (s'', r', ps @ ps')))"

section \<open>Searching\<close>

lemma zstrstr_no_LF: "LF \<notin> set w \<Longrightarrow> zstrstr w CRLF = None"
proof (induction w)
  case (Cons c cs)
  then show ?case by (cases cs) auto
qed simp

lemma zstrstr_found: "CR \<notin> set h \<Longrightarrow> zstrstr (h @ CRLF @ r) CRLF = Some (length h)"
  by (induction h) auto

lemma take_no_LF:
  assumes "LF \<notin> set h" and "n < length h + 2"
  shows "LF \<notin> set (take n (h @ CRLF))"
proof -
  have "take n (h @ CRLF) = take n (h @ [CR])" using assms(2) by (simp add: take_Cons')
  then show ?thesis using assms(1) by (auto dest: in_set_takeD)
qed

lemma length_zltoa_rec: "n < 10 ^ k \<Longrightarrow> length (zltoa_rec n 10) \<le> k"
proof (induction k arbitrary: n)
  case (Suc k)
  show ?case
  proof (cases "n = 0")
    case False
    have "length (zltoa_rec (n div 10) 10) \<le> k" using Suc.prems by (intro Suc.IH) auto
    with False show ?thesis by (simp add: zltoa_rec_step)
  qed simp
qed simp

lemma length_itostr: "n < 2 ^ 31 \<Longrightarrow> length (itostr (int n)) \<le> 10"
  using length_zltoa_rec [of n 10] by (simp add: itostr_nat)

lemma itostr_no_eol: "CR \<notin> set (itostr (int n))" "LF \<notin> set (itostr (int n))"
  using itostr_digits isdigit_not by blast+

text \<open>A header line \<open>x\<close>, decimal number, CRLF at the start of the buffered bytes.\<close>

lemma prefix_split:
  assumes "b @ t = h @ m"
  shows "if length h \<le> length b then b = h @ drop (length h) b else b = take (length b) h"
  using assms by (auto simp: append_eq_append_conv2)

lemma istream_read_line:
  assumes line: "is_line p" and n: "n < 2 ^ 31" and x: "x \<noteq> CR" "x \<noteq> LF"
    and b: "b @ t = (x # itostr (int n)) @ CRLF @ m"
  shows "if length b < length (itostr (int n)) + 3
    then istream_read p (take 1024 b) = (p, - 1)
    else \<exists>r. istream_read p (take 1024 b) =
      read_param p ((x # itostr (int n)) @ CRLF @ r) (length (itostr (int n)) + 3)"
proof -
  let ?h = "x # itostr (int n)"
  have len: "length ?h \<le> 11" using length_itostr [OF n] by simp
  have eol: "CR \<notin> set ?h" "LF \<notin> set ?h" using x itostr_no_eol by auto
  have p: "b @ t = (?h @ CRLF) @ m" using b by simp
  show ?thesis
  proof (cases "length b < length (itostr (int n)) + 3")
    case True
    then have "b = take (length b) (?h @ CRLF)" using prefix_split [OF p] by auto
    moreover have "LF \<notin> set (take (length b) (?h @ CRLF))"
      using take_no_LF [OF eol(2)] True by simp
    ultimately have "zstrstr b CRLF = None" using zstrstr_no_LF by metis
    moreover have "take 1024 b = b" using True len by simp
    ultimately show ?thesis using True line by (simp add: istream_read_def)
  next
    case False
    then have "b = ?h @ CRLF @ drop (length ?h + 2) b" using prefix_split [OF p] by simp
    then have "take 1024 b = take 1024 (?h @ CRLF @ drop (length ?h + 2) b)" by simp
    also have "\<dots> = ?h @ CRLF @ take (1022 - length ?h) (drop (length ?h + 2) b)"
      using len by (simp add: take_Cons')
    finally obtain r where r: "take 1024 b = ?h @ CRLF @ r" by blast
    have "istream_read p (?h @ CRLF @ r) = read_param p (?h @ CRLF @ r) (length ?h + 2)"
      using line zstrstr_found [OF eol(1), of r] by (simp add: istream_read_def del: zstrstr.simps)
    with r False show ?thesis by (auto simp: numeral_3_eq_3)
  qed
qed

lemma atoi_header: "n < 2 ^ 31 \<Longrightarrow> atoi (drop 1 ((x # itostr (int n)) @ CRLF @ r)) = int n"
  using atoi_itostr [of "CRLF @ r" n] by (simp add: isdigit_def)

section \<open>Requests on the wire\<close>

definition wire_arg :: "bytes \<Rightarrow> bytes" where
  "wire_arg a = ''$'' @ itostr (int (length a)) @ CRLF @ a @ CRLF"

definition wire :: "bytes list \<Rightarrow> bytes" where
  "wire args = ''*'' @ itostr (int (length args)) @ CRLF @ concat (map wire_arg args)"

definition wf_args :: "bytes list \<Rightarrow> bool" where
  "wf_args args \<longleftrightarrow> args \<noteq> [] \<and> length args < 2 ^ 31 \<and> (\<forall>a\<in>set args. length a < 2 ^ 31 - 2)"

text \<open>The unit of a parameter that has been received, with its line end overwritten by a NUL.\<close>

definition unit_of :: "bytes \<Rightarrow> punit" where
  "unit_of a = \<lparr>pu_str = a @ [NUL, LF], pu_len = int (length a) + 2\<rparr>"

definition st_line :: "bytes list \<Rightarrow> nat \<Rightarrow> istream" where
  "st_line ds n = \<lparr>is_vp = map unit_of ds, is_count = int n, is_index = length ds, is_line = True\<rparr>"

definition st_data :: "bytes list \<Rightarrow> bytes \<Rightarrow> nat \<Rightarrow> nat \<Rightarrow> istream" where
  "st_data ds a j n =
     \<lparr>is_vp = map unit_of ds @ [\<lparr>pu_str = take j (a @ CRLF), pu_len = int (length a) + 2\<rparr>],
      is_count = int n, is_index = length ds + 1, is_line = False\<rparr>"

text \<open>
  \<open>parsing p args rest\<close>: the parser \<open>p\<close> has consumed a proper part of the request \<open>args\<close>, and
  \<open>rest\<close> is what is still to come of it.
\<close>

inductive parsing :: "istream \<Rightarrow> bytes list \<Rightarrow> bytes \<Rightarrow> bool" where
  parsing_start: "parsing istream_new args (wire args)"
| parsing_line: "rs \<noteq> [] \<Longrightarrow>
    parsing (st_line ds (length (ds @ rs))) (ds @ rs) (concat (map wire_arg rs))"
| parsing_data: "j < length a + 2 \<Longrightarrow>
    parsing (st_data ds a j (length (ds @ a # rs))) (ds @ a # rs)
      (drop j (a @ CRLF) @ concat (map wire_arg rs))"

lemma s32_id: "- (2 ^ 31) \<le> i \<Longrightarrow> i < 2 ^ 31 \<Longrightarrow> s32 i = i"
  by (simp add: s32_def signed_of_int signed_take_bit_int_eq_self)

lemma punit_new_id: "length a < 2 ^ 31 - 2 \<Longrightarrow>
    punit_new (int (length a)) = \<lparr>pu_str = take 0 (a @ CRLF), pu_len = int (length a) + 2\<rparr>"
  by (simp add: punit_new_def s32_id)

lemma parsing_nonempty: "parsing p args rest \<Longrightarrow> rest \<noteq> []"
proof (induction rule: parsing.induct)
  case (parsing_line rs ds)
  then show ?case by (cases rs) (simp_all add: wire_arg_def)
qed (auto simp: wire_def)

text \<open>One call of \<^const>\<open>punit_read\<close> on the next bytes of a parameter.\<close>

lemma punit_read_more:
  assumes "j < length a + 2" and "b @ t = drop j (a @ CRLF) @ m" and "b \<noteq> []"
  defines "k \<equiv> min (length a + 2 - j) (length (take 1024 b))"
  shows "punit_read \<lparr>pu_str = take j (a @ CRLF), pu_len = int (length a) + 2\<rparr> (take 1024 b) =
      (if j + k = length a + 2 then unit_of a
       else \<lparr>pu_str = take (j + k) (a @ CRLF), pu_len = int (length a) + 2\<rparr>, int k)"
proof -
  let ?w = "take 1024 b" and ?d = "a @ CRLF"
  have kb: "k \<le> length b" and kd: "k \<le> length (drop j ?d)" by (auto simp: k_def)
  have "take k ?w = take k (b @ t)" using kb by (simp add: k_def min_def)
  also have "\<dots> = take k (drop j ?d)" using assms(2) kd by simp
  finally have tk: "take k ?w = take k (drop j ?d)" .
  have str: "take j ?d @ take k ?w = take (j + k) ?d"
    unfolding tk by (simp only: take_add)
  have pos: "pu_pos \<lparr>pu_str = take j ?d, pu_len = int (length a) + 2\<rparr> = j"
    using assms(1) by (simp add: pu_pos_def)
  have res: "min (nat (int (length a) + 2) - j) (length ?w) = k"
    by (simp add: k_def nat_add_distrib)
  have len: "length (take (j + k) ?d) = j + k" using kd assms(1) by auto
  have full: "(take (length a + 2) ?d)[length a := NUL] = a @ [NUL, LF]"
    by (simp add: list_update_append)
  have nl: "nat (int (length a) + 2) - 2 = length a" by simp
  have le: "\<not> int (length a) + 2 \<le> int j" using assms(1) by simp
  show ?thesis
  proof (cases "j + k = length a + 2")
    case True
    then have "int (length (take (j + k) ?d)) = int (length a) + 2" using len by simp
    with le show ?thesis
      unfolding punit_read_def Let_def pos
      by (simp only: punit.simps res str nl if_False if_True True full unit_of_def refl)
  next
    case False
    then have "int (length (take (j + k) ?d)) \<noteq> int (length a) + 2" using len by simp
    with le False show ?thesis
      unfolding punit_read_def Let_def pos by (simp only: punit.simps res str if_False)
  qed
qed

subsection \<open>One step of the parser\<close>

definition parse_step :: "bytes list \<Rightarrow> bytes \<Rightarrow> bytes \<Rightarrow> istream \<Rightarrow> istream \<times> int \<Rightarrow> bool" where
  "parse_step args rest b p r \<longleftrightarrow>
     r = (p, - 1) \<and> length b < length rest \<or>
     (\<exists>p' adv. r = (p', int adv) \<and> 0 < adv \<and> adv \<le> length b \<and> adv < length rest \<and>
        parsing p' args (drop adv rest) \<and> \<not> istream_finish p') \<or>
     r = (st_line args (length args), int (length rest)) \<and> length rest \<le> length b \<and>
        istream_finish (st_line args (length args))"

lemma parse_step_more:
  assumes "r = (p', int adv)" and "0 < adv" and "adv \<le> length b" and "adv < length rest"
    and "parsing p' args (drop adv rest)" and "\<not> istream_finish p'"
  shows "parse_step args rest b p r"
  using assms unfolding parse_step_def by blast

lemma parse_step_start:
  assumes wf: "wf_args args" and b: "b @ t = wire args @ m"
  shows "parse_step args (wire args) b istream_new (istream_read istream_new (take 1024 b))"
proof -
  let ?h = "CHR ''*'' # itostr (int (length args))" and ?n = "length (itostr (int (length args))) + 3"
  have n: "length args < 2 ^ 31" "args \<noteq> []" using wf by (auto simp: wf_args_def)
  have b': "b @ t = ?h @ CRLF @ (concat (map wire_arg args) @ m)" using b by (simp add: wire_def)
  have w: "wire args = (?h @ CRLF) @ concat (map wire_arg args)" "length (?h @ CRLF) = ?n"
    by (simp_all add: wire_def)
  have ne: "concat (map wire_arg args) \<noteq> []"
    using parsing_nonempty [OF parsing_line [OF n(2), of "[]"]] by simp
  have line: "is_line istream_new" by (simp add: istream_new_def)
  note rd = istream_read_line [OF line n(1) _ _ b', simplified if_bool_eq_conj]
  show ?thesis
  proof (cases "length b < ?n")
    case True
    then show ?thesis using rd w by (auto simp: parse_step_def)
  next
    case False
    then obtain r where r: "istream_read istream_new (take 1024 b) =
        read_param istream_new (?h @ CRLF @ r) ?n"
      using rd by auto
    have "atoi (drop 1 (?h @ CRLF @ r)) = int (length args)" using n by (intro atoi_header)
    then have "read_param istream_new (?h @ CRLF @ r) ?n = (st_line [] (length args), int ?n)"
      using n by (simp add: read_param_def istream_new_def st_line_def)
    moreover have "drop ?n (wire args) = concat (map wire_arg args)"
      using w by (metis append_eq_conv_conj)
    then have "parsing (st_line [] (length args)) args (drop ?n (wire args))"
      using parsing_line [OF n(2), of "[]"] by simp
    moreover have "?n < length (wire args)" using w ne by simp
    moreover have "\<not> istream_finish (st_line [] (length args))"
      using n by (simp add: istream_finish_def st_line_def)
    ultimately show ?thesis using r False by (intro parse_step_more [where adv = ?n]) auto
  qed
qed

lemma parse_step_line:
  assumes wf: "wf_args (ds @ a # rs)" and b: "b @ t = concat (map wire_arg (a # rs)) @ m"
  defines "p \<equiv> st_line ds (length (ds @ a # rs))"
  shows "parse_step (ds @ a # rs) (concat (map wire_arg (a # rs))) b p (istream_read p (take 1024 b))"
proof -
  let ?h = "CHR ''$'' # itostr (int (length a))" and ?n = "length (itostr (int (length a))) + 3"
  let ?N = "length (ds @ a # rs)"
  have n: "length a < 2 ^ 31 - 2" "length a < 2 ^ 31" using wf by (auto simp: wf_args_def)
  have w: "concat (map wire_arg (a # rs)) = (?h @ CRLF) @ (a @ CRLF) @ concat (map wire_arg rs)"
      "length (?h @ CRLF) = ?n"
    by (simp_all add: wire_arg_def)
  have b': "b @ t = ?h @ CRLF @ ((a @ CRLF) @ concat (map wire_arg rs) @ m)" using b w by simp
  have line: "is_line p" by (simp add: p_def st_line_def)
  note rd = istream_read_line [OF line n(2) _ _ b', simplified if_bool_eq_conj]
  show ?thesis
  proof (cases "length b < ?n")
    case True
    then show ?thesis using rd w by (auto simp: parse_step_def)
  next
    case False
    then obtain r where r: "istream_read p (take 1024 b) = read_param p (?h @ CRLF @ r) ?n"
      using rd by auto
    have "atoi (drop 1 (?h @ CRLF @ r)) = int (length a)" using n by (intro atoi_header)
    then have 1: "istream_read p (take 1024 b) = (st_data ds a 0 ?N, int ?n)"
      using punit_new_id [OF n(1)] unfolding r
      by (simp add: read_param_def p_def st_line_def st_data_def Let_def)
    have "drop ?n (concat (map wire_arg (a # rs))) = (a @ CRLF) @ concat (map wire_arg rs)"
      using w by (metis append_eq_conv_conj)
    then have 2: "parsing (st_data ds a 0 ?N) (ds @ a # rs) (drop ?n (concat (map wire_arg (a # rs))))"
      using parsing_data [of 0 a ds rs] by simp
    have 3: "\<not> istream_finish (st_data ds a 0 ?N)"
      by (simp add: istream_finish_def st_data_def punit_finish_def pu_pos_def)
    have 4: "?n < length (concat (map wire_arg (a # rs)))" unfolding w by simp
    show ?thesis by (rule parse_step_more [OF 1 _ _ 4 2 3]) (use False in simp_all)
  qed
qed

lemma parse_step_data:
  fixes ds :: "bytes list"
  assumes j: "j < length a + 2" and b: "b @ t = (drop j (a @ CRLF) @ concat (map wire_arg rs)) @ m"
    and ne: "b \<noteq> []"
  defines "p \<equiv> st_data ds a j (length (ds @ a # rs))"
  shows "parse_step (ds @ a # rs) (drop j (a @ CRLF) @ concat (map wire_arg rs)) b p
    (istream_read p (take 1024 b))"
proof -
  let ?N = "length (ds @ a # rs)" and ?R = "drop j (a @ CRLF) @ concat (map wire_arg rs)"
  define k where "k = min (length a + 2 - j) (length (take 1024 b))"
  have b': "b @ t = drop j (a @ CRLF) @ (concat (map wire_arg rs) @ m)" using b by simp
  note rd = punit_read_more [OF j b' ne, folded k_def]
  have k: "0 < k" "k \<le> length b" "k \<le> length a + 2 - j" using j ne by (auto simp: k_def)
  show ?thesis
  proof (cases "j + k = length a + 2")
    case True
    have r: "istream_read p (take 1024 b) = (st_line (ds @ [a]) ?N, int k)"
      using rd True
      by (simp add: istream_read_def p_def st_data_def read_data_def st_line_def nth_append
          list_update_append punit_finish_def unit_of_def pu_pos_def)
    have R: "drop k ?R = concat (map wire_arg rs)" "length ?R = k + length (concat (map wire_arg rs))"
      using True by auto
    show ?thesis
    proof (cases "rs = []")
      case True
      then have "istream_finish (st_line (ds @ [a]) ?N)"
        by (simp add: istream_finish_def st_line_def unit_of_def punit_finish_def pu_pos_def)
      with r R k True show ?thesis by (simp add: parse_step_def)
    next
      case False
      have "parsing (st_line (ds @ [a]) ?N) (ds @ a # rs) (drop k ?R)"
        using parsing_line [OF False, of "ds @ [a]"] unfolding R by simp
      moreover have "\<not> istream_finish (st_line (ds @ [a]) ?N)"
        using False by (simp add: istream_finish_def st_line_def)
      moreover have "k < length ?R"
        using parsing_nonempty [OF parsing_line [OF False]]
        unfolding R(2) length_greater_0_conv [symmetric] by linarith
      ultimately show ?thesis using r k unfolding parse_step_def by blast
    qed
  next
    case False
    have lt: "j + k < length a + 2" using False k(3) j by simp
    then have nf: "\<not> punit_finish \<lparr>pu_str = take (j + k) (a @ CRLF), pu_len = int (length a) + 2\<rparr>"
      by (simp add: punit_finish_def pu_pos_def)
    then have r: "istream_read p (take 1024 b) = (st_data ds a (j + k) ?N, int k)"
      using rd False
      by (simp add: istream_read_def p_def st_data_def read_data_def nth_append Let_def
          list_update_append del: take_append)
    have "k \<le> length (drop j (a @ CRLF))" using k(3) by simp
    then have "drop k ?R = drop (j + k) (a @ CRLF) @ concat (map wire_arg rs)"
      by (simp only: drop_le_append drop_drop add.commute)
    then have "parsing (st_data ds a (j + k) ?N) (ds @ a # rs) (drop k ?R)"
      using parsing_data [OF lt, of ds rs] by simp
    moreover have "\<not> istream_finish (st_data ds a (j + k) ?N)"
      using nf by (simp add: istream_finish_def st_data_def del: take_append)
    moreover have "k < length ?R" using lt by simp
    ultimately show ?thesis using r k unfolding parse_step_def by blast
  qed
qed

lemma parse_step_ok:
  assumes "parsing p args rest" and "wf_args args" and "b @ t = rest @ m" and "b \<noteq> []"
  shows "parse_step args rest b p (istream_read p (take 1024 b))"
  using assms
proof (cases rule: parsing.cases)
  case (parsing_line rs ds)
  then show ?thesis using assms parse_step_line by (cases rs) auto
qed (use assms parse_step_start parse_step_data in auto)

subsection \<open>The receive loop\<close>

definition ring_ok :: "ringq \<Rightarrow> bool" where
  "ring_ok q \<longleftrightarrow> rq_inv 4096 q \<and> rq_dense 3072 4096 q"

lemma ring_ok_new [simp, inv_intros]: "ring_ok rq_new"
  by (simp add: ring_ok_def)

lemma ring_ok_append [inv_intros]: "ring_ok q \<Longrightarrow> length d \<le> 3072 \<Longrightarrow> ring_ok (rq_append 4096 q d)"
  by (simp add: ring_ok_def rq_append_inv rq_dense_append)

lemma ring_ok_advance [inv_intros]:
  "ring_ok q \<Longrightarrow> n \<le> length (contents q) \<Longrightarrow> ring_ok (rq_advance q n)"
  by (simp add: ring_ok_def rq_advance_inv rq_dense_advance)

lemma ring_ok_count: "ring_ok q \<Longrightarrow> rq_count q = length (contents q)"
  by (auto simp: ring_ok_def rq_count_contents)

lemma ring_ok_contents:
  "ring_ok q \<Longrightarrow> contents (rq_append 4096 q d) = contents q @ d"
  "ring_ok q \<Longrightarrow> n \<le> length (contents q) \<Longrightarrow> contents (rq_advance q n) = drop n (contents q)"
  by (auto simp: ring_ok_def rq_append_contents intro: rq_advance_contents)

lemma ring_window:
  assumes "ring_ok q" and "contents q \<noteq> []"
  shows "rq_attach 4096 q (min (rq_count q) 1024) = (q, Some (take 1024 (contents q)))"
proof -
  let ?n = "min (rq_count q) 1024"
  have n: "0 < ?n" "?n \<le> 4096" "?n \<le> length (contents q)" "?n \<le> 4096 - 3072"
    using assms by (auto simp: ring_ok_count)
  have inv: "rq_inv 4096 q" "rq_dense 3072 4096 q" using assms by (auto simp: ring_ok_def)
  have "take ?n (contents q) = take 1024 (contents q)"
    using ring_ok_count [OF assms(1)] by (simp add: min_def)
  then show ?thesis
    using rq_attach_frame [OF inv(1) n(1-3) rq_dense_two_block_span [OF inv(2) n(4,3)]] by simp
qed

lemma analyze_redis_request:
  assumes "ring_ok (cs_ring s)" and "parsing p args rest" and "wf_args args"
    and "contents (cs_ring s) @ t = rest @ m" and "length (contents (cs_ring s)) \<le> fuel"
  shows "\<exists>s' lg'. ring_ok (cs_ring s') \<and> cs_commandline s' = cs_commandline s \<and>
    (if length rest \<le> length (contents (cs_ring s))
     then analyze_redis fuel con s p lg = Some (s', 0, Some (st_line args (length args)), lg') \<and>
       cs_param s' = None \<and> contents (cs_ring s') = drop (length rest) (contents (cs_ring s))
     else analyze_redis fuel con s p lg = Some (s', - 1, None, lg') \<and>
       (\<exists>p' rest'. cs_param s' = Some p' \<and> parsing p' args rest' \<and>
         contents (cs_ring s') @ t = rest' @ m \<and> length (contents (cs_ring s')) < length rest'))"
  using assms
proof (induction fuel arbitrary: s p rest lg)
  case 0
  then have "contents (cs_ring s) = []" "rq_count (cs_ring s) = 0" by (auto simp: ring_ok_count)
  with 0 parsing_nonempty [OF 0(2)] show ?case
    by (intro exI [of _ "s\<lparr>cs_param := Some p\<rparr>"]) auto
next
  case (Suc fuel)
  let ?b = "contents (cs_ring s)"
  show ?case
  proof (cases "?b = []")
    case True
    then have "rq_count (cs_ring s) = 0" using Suc.prems by (simp add: ring_ok_count)
    with True Suc.prems parsing_nonempty [OF Suc.prems(2)] show ?thesis
      by (intro exI [of _ "s\<lparr>cs_param := Some p\<rparr>"]) auto
  next
    case False
    have cnt: "rq_count (cs_ring s) \<noteq> 0" using False Suc.prems(1) by (simp add: ring_ok_count)
    note att = ring_window [OF Suc.prems(1) False]
    from parse_step_ok [OF Suc.prems(2,3,4) False]
    consider (partial) "istream_read p (take 1024 ?b) = (p, - 1)" "length ?b < length rest"
      | (more) p' adv where "istream_read p (take 1024 ?b) = (p', int adv)" "0 < adv"
          "adv \<le> length ?b" "adv < length rest" "parsing p' args (drop adv rest)"
          "\<not> istream_finish p'"
      | (complete) "istream_read p (take 1024 ?b) = (st_line args (length args), int (length rest))"
          "length rest \<le> length ?b" "istream_finish (st_line args (length args))"
      unfolding parse_step_def by blast
    then show ?thesis
    proof cases
      case partial
      then show ?thesis using cnt att Suc.prems
        by (intro exI [of _ "s\<lparr>cs_param := Some p\<rparr>"]) auto
    next
      case more
      let ?s = "s\<lparr>cs_ring := rq_advance (cs_ring s) adv\<rparr>"
      let ?lg = "lg @ con_broadcast con (take adv (take 1024 ?b))"
      have ok: "ring_ok (cs_ring ?s)" "contents (cs_ring ?s) = drop adv ?b"
        using Suc.prems more by (auto simp: ring_ok_advance ring_ok_contents)
      have "drop adv ?b @ t = drop adv rest @ m"
        using more Suc.prems(4) by (metis drop_le_append less_imp_le_nat)
      moreover have "length (drop adv ?b) \<le> fuel" using more Suc.prems(5) by auto
      ultimately have ih: "contents (cs_ring ?s) @ t = drop adv rest @ m"
          "length (contents (cs_ring ?s)) \<le> fuel" using ok by auto
      have eq: "analyze_redis (Suc fuel) con s p lg = analyze_redis fuel con ?s p' ?lg"
        using cnt att more by simp
      have le: "length (drop adv rest) \<le> length (drop adv ?b) \<longleftrightarrow> length rest \<le> length ?b"
        "drop (length (drop adv rest)) (drop adv ?b) = drop (length rest) ?b"
        using more by auto
      show ?thesis
        using Suc.IH [OF ok(1) more(5) Suc.prems(3) ih, of ?lg] unfolding eq ok(2) le by simp
    next
      case complete
      let ?s = "s\<lparr>cs_ring := rq_advance (cs_ring s) (length rest), cs_param := None\<rparr>"
      have "ring_ok (cs_ring ?s)" "contents (cs_ring ?s) = drop (length rest) ?b"
        using Suc.prems complete by (auto simp: ring_ok_advance ring_ok_contents)
      then show ?thesis using cnt att complete by (intro exI [of _ ?s]) auto
    qed
  qed
qed

text \<open>
  \<open>awaiting s cmds t\<close>: the stream \<open>s\<close> has still to deliver the requests \<open>cmds\<close>, and \<open>t\<close> is what
  of them has not been received.
\<close>

definition cs_parser :: "cstream \<Rightarrow> istream" where
  "cs_parser s = (case cs_param s of None \<Rightarrow> istream_new | Some p \<Rightarrow> p)"

definition awaiting :: "cstream \<Rightarrow> bytes list list \<Rightarrow> bytes \<Rightarrow> bool" where
  "awaiting s cmds t \<longleftrightarrow> ring_ok (cs_ring s) \<and> cs_commandline s = E_redis \<and>
     (case cmds of
        [] \<Rightarrow> cs_parser s = istream_new \<and> contents (cs_ring s) = [] \<and> t = []
      | c # cs \<Rightarrow> \<exists>rest. parsing (cs_parser s) c rest \<and>
                   contents (cs_ring s) @ t = rest @ concat (map wire cs))"

abbreviation request :: "bytes list \<Rightarrow> istream" where
  "request args \<equiv> st_line args (length args)"

lemma awaiting_start:
  assumes "ring_ok (cs_ring s)" and "cs_commandline s = E_redis" and "cs_param s = None"
    and "contents (cs_ring s) @ t = concat (map wire cmds)"
  shows "awaiting s cmds t"
  using assms parsing_start by (cases cmds) (auto simp: awaiting_def cs_parser_def)

lemma analyze_redis_mode:
  "cs_commandline s = E_redis \<Longrightarrow> analyze fuel con s = analyze_redis fuel con s (cs_parser s) []"
  by (simp add: analyze_def cs_parser_def)

lemma on_read_loop_requests:
  assumes "awaiting s cmds t" and "list_all wf_args cmds" and "length (contents (cs_ring s)) < fuel"
  shows "\<exists>s' cs1 cs2. on_read_loop fuel con s = Some (s', - 1, map request cs1) \<and>
    cmds = cs1 @ cs2 \<and> awaiting s' cs2 t \<and> (t = [] \<longrightarrow> cs2 = [])"
  using assms
proof (induction fuel arbitrary: s cmds)
  case (Suc fuel)
  let ?b = "contents (cs_ring s)"
  have s: "ring_ok (cs_ring s)" "cs_commandline s = E_redis"
    using Suc.prems(1) by (auto simp: awaiting_def)
  note an = analyze_redis_mode [OF s(2)] and cnt = ring_ok_count [OF s(1)]
  show ?case
  proof (cases cmds)
    case Nil
    then have "analyze (rq_count (cs_ring s)) con s = Some (s\<lparr>cs_param := Some istream_new\<rparr>, - 1, None, [])"
      using Suc.prems(1) cnt an by (simp add: awaiting_def)
    with Nil Suc.prems(1) show ?thesis
      by (intro exI [of _ "s\<lparr>cs_param := Some istream_new\<rparr>"] exI [of _ "[]"])
        (simp add: awaiting_def cs_parser_def)
  next
    case (Cons c cs)
    then obtain rest where rest: "parsing (cs_parser s) c rest" "?b @ t = rest @ concat (map wire cs)"
      using Suc.prems(1) by (auto simp: awaiting_def)
    have wf: "wf_args c" "list_all wf_args cs" using Suc.prems(2) Cons by auto
    obtain s' lg' where s': "ring_ok (cs_ring s')" "cs_commandline s' = E_redis"
      and r: "if length rest \<le> length ?b
       then analyze (rq_count (cs_ring s)) con s = Some (s', 0, Some (request c), lg') \<and>
         cs_param s' = None \<and> contents (cs_ring s') = drop (length rest) ?b
       else analyze (rq_count (cs_ring s)) con s = Some (s', - 1, None, lg') \<and>
         (\<exists>p' rest'. cs_param s' = Some p' \<and> parsing p' c rest' \<and>
           contents (cs_ring s') @ t = rest' @ concat (map wire cs) \<and>
           length (contents (cs_ring s')) < length rest')"
      using analyze_redis_request [OF s(1) rest(1) wf(1) rest(2), of "rq_count (cs_ring s)" con "[]"]
        cnt s(2) unfolding an by auto
    show ?thesis
    proof (cases "length rest \<le> length ?b")
      case True
      have "contents (cs_ring s') @ t = concat (map wire cs)"
        using True r rest(2) by (metis append_eq_conv_conj drop_le_append)
      then have aw: "awaiting s' cs t" using s' r True by (intro awaiting_start) auto
      have "length (contents (cs_ring s')) < fuel"
        using True r Suc.prems(3) parsing_nonempty [OF rest(1)] by (cases rest) auto
      then obtain s'' cs1 cs2 where "on_read_loop fuel con s' = Some (s'', - 1, map request cs1)"
          "cs = cs1 @ cs2" "awaiting s'' cs2 t" "t = [] \<longrightarrow> cs2 = []"
        using Suc.IH [OF aw wf(2)] by auto
      with True r Cons show ?thesis
        by (intro exI [of _ s''] exI [of _ "c # cs1"] exI [of _ cs2]) simp
    next
      case False
      with r obtain p' rest' where r': "analyze (rq_count (cs_ring s)) con s = Some (s', - 1, None, lg')"
          "cs_param s' = Some p'" "parsing p' c rest'"
          "contents (cs_ring s') @ t = rest' @ concat (map wire cs)"
          "length (contents (cs_ring s')) < length rest'"
        by auto
      have "awaiting s' cmds t" using r' s' Cons by (auto simp: awaiting_def cs_parser_def)
      moreover have "t \<noteq> []" using r'(4,5) by auto
      ultimately show ?thesis using r'(1)
        by (intro exI [of _ s'] exI [of _ "[]"] exI [of _ cmds]) simp
    qed
  qed
qed simp

lemma recv_pieces_short: "d \<noteq> [] \<Longrightarrow> length d \<le> 4096 \<Longrightarrow> recv_pieces s d = cstream_recv s d"
  by (subst recv_pieces.simps, simp, subst recv_pieces.simps, simp)

lemma awaiting_recv:
  assumes "awaiting s cmds (d @ t) \<or> s = cstream_new \<and> d @ t = concat (map wire cmds)"
    and "d \<noteq> []" and "length d \<le> 3072"
  shows "awaiting (cstream_recv s d) cmds t"
  using assms(1)
proof
  assume "awaiting s cmds (d @ t)"
  then show ?thesis
    using assms(2,3)
    by (cases cmds) (auto simp: awaiting_def cstream_recv_def cs_parser_def ring_ok_append
        ring_ok_contents)
next
  assume a: "s = cstream_new \<and> d @ t = concat (map wire cmds)"
  then obtain c cs where "cmds = c # cs" using assms(2) by (cases cmds) auto
  with a assms(2) have "d ! 0 = CHR ''*''" by (cases d) (auto simp: wire_def)
  with a assms(3) show ?thesis
    by (intro awaiting_start)
      (auto simp: cstream_recv_def cstream_new_def ring_ok_append ring_ok_contents)
qed

lemma on_reads_requests:
  assumes "awaiting s cmds (concat chunks) \<or> s = cstream_new \<and> concat chunks = concat (map wire cmds)"
    and "list_all wf_args cmds" and "list_all (\<lambda>d. d \<noteq> [] \<and> length d \<le> 3072) chunks"
    and "cmds = [] \<or> chunks \<noteq> []"
  shows "\<exists>s'. on_reads con s chunks = Some (s', - 1, map request cmds) \<and>
    (chunks \<noteq> [] \<longrightarrow> contents (cs_ring s') = [])"
  using assms
proof (induction chunks arbitrary: s cmds)
  case (Cons d ds)
  let ?s = "cstream_recv s d"
  have d: "d \<noteq> []" "length d \<le> 3072" using Cons.prems by auto
  have aw: "awaiting ?s cmds (concat ds)" using Cons.prems(1) awaiting_recv [OF _ d] by simp
  then have cnt: "length (contents (cs_ring ?s)) < rq_count (cs_ring ?s) + 1"
    by (auto simp: awaiting_def ring_ok_count)
  obtain s' cs1 cs2 where l: "on_read_loop (rq_count (cs_ring ?s) + 1) con ?s = Some (s', - 1, map request cs1)"
      "cmds = cs1 @ cs2" "awaiting s' cs2 (concat ds)" "concat ds = [] \<longrightarrow> cs2 = []"
    using on_read_loop_requests [OF aw Cons.prems(2) cnt] by blast
  have r: "on_read con s d = Some (s', - 1, map request cs1)"
    using l(1) d by (simp add: on_read_def recv_pieces_short)
  show ?case
  proof (cases "ds = []")
    case True
    with r l show ?thesis by (auto simp: awaiting_def)
  next
    case False
    have "list_all wf_args cs2" using Cons.prems(2) l(2) by simp
    with Cons.IH [of s' cs2] False l(3) Cons.prems(3) obtain s'' where
      "on_reads con s' ds = Some (s'', - 1, map request cs2)" "contents (cs_ring s'') = []"
      by auto
    with r l(2) show ?thesis by simp
  qed
qed auto

section \<open>The command line protocol\<close>

text \<open>
  The reference tokenizer: the complete lines of a byte string, the token and the arguments at its
  end.
\<close>

fun cmd_lines :: "bytes \<Rightarrow> bytes \<Rightarrow> bytes list \<Rightarrow> bytes list list \<times> bytes \<times> bytes list" where
  "cmd_lines [] vp args = ([], vp, args)"
| "cmd_lines (c # cs) vp args =
     (if vp = [] \<and> (is_eol c \<or> is_blank c) then cmd_lines cs [] args
      else if is_blank c then cmd_lines cs [] (args @ [vp])
      else if is_eol c
      then (let (ls, x) = cmd_lines cs [] [] in ((args @ [vp]) # ls, x))
      else cmd_lines cs (vp @ [c]) args)"

lemma cmd_lines_append:
  "cmd_lines (as @ bs) vp args =
     (let (ls, vp', args') = cmd_lines as vp args; (ls', x) = cmd_lines bs vp' args'
      in (ls @ ls', x))"
  by (induction as vp args rule: cmd_lines.induct) (auto simp: Let_def split_beta)

definition line_parser :: "bytes list \<Rightarrow> istream" where
  "line_parser args = istream_new\<lparr>is_vp := map unit_of args\<rparr>"

lemma unit_of_inject [simp]: "unit_of a = unit_of b \<longleftrightarrow> a = b"
  by (auto simp: unit_of_def)

lemma line_parser_inject [simp]: "line_parser a = line_parser b \<longleftrightarrow> a = b"
  by (auto simp: line_parser_def istream_new_def inj_map_eq_map inj_def)

lemma line_parser_push:
  assumes "length vp < 2 ^ 31 - 2"
  shows "istream_push (line_parser args) (vp @ CRLF) = line_parser (args @ [vp])"
proof -
  have len: "nat (int (length vp) + 2) = length vp + 2" by simp
  have "punit_read \<lparr>pu_str = [], pu_len = int (length vp) + 2\<rparr> (vp @ CRLF) =
      (unit_of vp, int (length vp) + 2)"
    unfolding punit_read_def pu_pos_def Let_def
    by (simp add: len unit_of_def list_update_append)
  then have "punit_read (punit_new (int (length vp))) (vp @ CRLF) = (unit_of vp, int (length vp) + 2)"
    using punit_new_id [OF assms] by simp
  then show ?thesis by (simp add: istream_push_def line_parser_def)
qed

lemma cmdline_for_tokens:
  assumes "rq_inv 4096 q" and "contents q = buf @ r"
    and "length vp + length (contents q) < 2 ^ 31 - 2"
  shows "\<exists>q' vp' args' lg' line.
    cmdline_for con buf (q, vp, line_parser args, lg) = ((q', vp', line_parser args', lg'), line) \<and>
    rq_inv 4096 q' \<and> length vp' + length (contents q') \<le> length vp + length (contents q) \<and>
    length (contents q') + (if buf = [] then 0 else 1) \<le> length (contents q) \<and>
    (if line then vp' = [] \<and> cmd_lines (contents q) vp args =
         (let (ls, x) = cmd_lines (contents q') [] [] in (args' # ls, x))
     else cmd_lines (contents q) vp args = cmd_lines (contents q') vp' args')"
  using assms
proof (induction buf arbitrary: q vp)
  case (Cons c cs)
  have adv: "rq_inv 4096 (rq_advance q 1)" "contents (rq_advance q 1) = cs @ r"
    using Cons.prems by (auto simp: rq_advance_spec)
  consider (skip) "vp = []" "is_eol c \<or> is_blank c" | (blank) "vp \<noteq> []" "is_blank c"
    | (eol) "vp \<noteq> []" "\<not> is_blank c" "is_eol c" | (char) "\<not> is_blank c" "\<not> is_eol c" by blast
  then show ?case
  proof cases
    case char
    have "length (vp @ [c]) + length (contents (rq_advance q 1)) < 2 ^ 31 - 2"
      using Cons.prems adv by simp
    from Cons.IH [OF adv this] obtain q' vp' args' lg' line where
      "cmdline_for con cs (rq_advance q 1, vp @ [c], line_parser args, lg) =
        ((q', vp', line_parser args', lg'), line)" "rq_inv 4096 q'"
      "length vp' + length (contents q') \<le> length (vp @ [c]) + length (cs @ r)"
      "length (contents q') + (if cs = [] then 0 else 1) \<le> length (cs @ r)"
      "if line then vp' = [] \<and> cmd_lines (cs @ r) (vp @ [c]) args =
         (let (ls, x) = cmd_lines (contents q') [] [] in (args' # ls, x))
       else cmd_lines (cs @ r) (vp @ [c]) args = cmd_lines (contents q') vp' args'"
      unfolding adv(2) by blast
    with char Cons.prems(2) show ?thesis
      by (intro exI [of _ q'] exI [of _ vp'] exI [of _ args'] exI [of _ lg'] exI [of _ line]) simp
  qed (use Cons.prems adv in \<open>auto simp: line_parser_push Let_def\<close>)
qed auto

text \<open>What one call of \<^const>\<open>analyze_cmdline\<close> does, in terms of the tokenizer.\<close>

definition cmdline_post :: "cstream \<Rightarrow> bytes list \<Rightarrow> cstream \<Rightarrow> int \<Rightarrow> istream option \<Rightarrow> bool" where
  "cmdline_post s args s' r param \<longleftrightarrow>
     rq_inv 4096 (cs_ring s') \<and> cs_commandline s' = cs_commandline s \<and>
     length (cs_vparam s') + length (contents (cs_ring s')) \<le>
       length (cs_vparam s) + length (contents (cs_ring s)) \<and>
     (\<exists>args'. if param = None
      then r = - 1 \<and> cs_param s' = Some (line_parser args') \<and> contents (cs_ring s') = [] \<and>
        cmd_lines (contents (cs_ring s)) (cs_vparam s) args = ([], cs_vparam s', args')
      else param = Some (line_parser args') \<and> cs_param s' = None \<and> cs_vparam s' = [] \<and>
        length (contents (cs_ring s')) < length (contents (cs_ring s)) \<and>
        cmd_lines (contents (cs_ring s)) (cs_vparam s) args =
          (let (ls, x) = cmd_lines (contents (cs_ring s')) [] [] in (args' # ls, x)))"

lemma cmdline_post_trans:
  assumes "cmdline_post s1 args1 s' r param" and "cs_commandline s1 = cs_commandline s"
    and "length (cs_vparam s1) + length (contents (cs_ring s1)) \<le>
      length (cs_vparam s) + length (contents (cs_ring s))"
    and "length (contents (cs_ring s1)) \<le> length (contents (cs_ring s))"
    and "cmd_lines (contents (cs_ring s)) (cs_vparam s) args =
      cmd_lines (contents (cs_ring s1)) (cs_vparam s1) args1"
  shows "cmdline_post s args s' r param"
  using assms unfolding cmdline_post_def by (cases param) auto

lemma analyze_cmdline_tokens:
  assumes "rq_inv 4096 (cs_ring s)" and "length (contents (cs_ring s)) \<le> fuel"
    and "length (cs_vparam s) + length (contents (cs_ring s)) < 2 ^ 31 - 2"
  shows "\<exists>s' r param lg'. analyze_cmdline fuel con s (line_parser args) lg = Some (s', r, param, lg') \<and>
    cmdline_post s args s' r param"
  using assms
proof (induction fuel arbitrary: s args lg)
  case 0
  then have "rq_count (cs_ring s) = 0" by (auto simp: rq_count_contents)
  with 0 show ?case by (simp add: cmdline_post_def)
next
  case (Suc fuel)
  let ?b = "contents (cs_ring s)"
  have cnt: "rq_count (cs_ring s) = length ?b" using Suc.prems(1) by (rule rq_count_contents)
  show ?case
  proof (cases "?b = []")
    case True
    with Suc.prems cnt show ?thesis by (simp add: cmdline_post_def)
  next
    case False
    with rq_attach_block_spec [OF Suc.prems(1)] obtain buf r where
      att: "rq_attach_block (cs_ring s) = Some (cs_ring s, buf)" "buf \<noteq> []" "?b = buf @ r" by blast
    from cmdline_for_tokens [OF Suc.prems(1) att(3) Suc.prems(3), of con args lg]
    obtain q' vp' args' lg' line where
      f: "cmdline_for con buf (cs_ring s, cs_vparam s, line_parser args, lg) =
          ((q', vp', line_parser args', lg'), line)" "rq_inv 4096 q'"
        "length vp' + length (contents q') \<le> length (cs_vparam s) + length ?b"
        "length (contents q') + (if buf = [] then 0 else 1) \<le> length ?b"
        "if line then vp' = [] \<and> cmd_lines ?b (cs_vparam s) args =
           (let (ls, x) = cmd_lines (contents q') [] [] in (args' # ls, x))
         else cmd_lines ?b (cs_vparam s) args = cmd_lines (contents q') vp' args'"
      by blast
    have lt: "length (contents q') < length ?b" using f(4) att(2) by simp
    let ?s = "s\<lparr>cs_ring := q', cs_vparam := vp'\<rparr>"
    show ?thesis
    proof (cases line)
      case True
      then have "analyze_cmdline (Suc fuel) con s (line_parser args) lg =
          Some (?s\<lparr>cs_param := None\<rparr>, 0, Some (line_parser args'), lg')"
        using False cnt att(1) f(1) by simp
      with True f(2,3,5) lt show ?thesis by (simp add: cmdline_post_def)
    next
      case nl: False
      then have eq: "analyze_cmdline (Suc fuel) con s (line_parser args) lg =
          analyze_cmdline fuel con ?s (line_parser args') lg'"
        using False cnt att(1) f(1) by simp
      have "rq_inv 4096 (cs_ring ?s)" "length (contents (cs_ring ?s)) \<le> fuel"
        "length (cs_vparam ?s) + length (contents (cs_ring ?s)) < 2 ^ 31 - 2"
        using f(2,3) lt Suc.prems by simp_all
      from Suc.IH [OF this, of args' lg'] obtain s' r param lg'' where
        "analyze_cmdline fuel con ?s (line_parser args') lg' = Some (s', r, param, lg'')"
        "cmdline_post ?s args' s' r param" by blast
      moreover from this(2) have "cmdline_post s args s' r param"
        by (rule cmdline_post_trans) (use f(3,5) lt nl in simp_all)
      ultimately show ?thesis unfolding eq by blast
    qed
  qed
qed

lemma cs_parser_line: "cs_param s = Some (line_parser a) \<or> cs_param s = None \<and> a = [] \<Longrightarrow>
    cs_parser s = line_parser a"
  by (auto simp: cs_parser_def line_parser_def istream_new_def)

lemma on_read_loop_tokens:
  assumes "rq_inv 4096 (cs_ring s)" and "cs_commandline s = E_commandline"
    and "cs_parser s = line_parser args" and "length (contents (cs_ring s)) < fuel"
    and "length (cs_vparam s) + length (contents (cs_ring s)) < 2 ^ 31 - 2"
  shows "\<exists>s' ls args'. on_read_loop fuel con s = Some (s', - 1, map line_parser ls) \<and>
    cmd_lines (contents (cs_ring s)) (cs_vparam s) args = (ls, cs_vparam s', args') \<and>
    cs_parser s' = line_parser args' \<and> cs_commandline s' = E_commandline \<and>
    rq_inv 4096 (cs_ring s') \<and> contents (cs_ring s') = [] \<and>
    length (cs_vparam s') \<le> length (cs_vparam s) + length (contents (cs_ring s))"
  using assms
proof (induction fuel arbitrary: s args)
  case (Suc fuel)
  have cnt: "rq_count (cs_ring s) = length (contents (cs_ring s))"
    using Suc.prems(1) by (rule rq_count_contents)
  have an: "analyze n con s = analyze_cmdline n con s (line_parser args) []" for n
    using Suc.prems(2,3) by (simp add: analyze_def cs_parser_def)
  obtain s' r param lg' where a: "analyze (rq_count (cs_ring s)) con s = Some (s', r, param, lg')"
      "cmdline_post s args s' r param"
    using analyze_cmdline_tokens [OF Suc.prems(1) _ Suc.prems(5), of "rq_count (cs_ring s)" con args "[]"]
    unfolding an cnt by blast
  show ?case
  proof (cases param)
    case None
    with a Suc.prems(2) show ?thesis by (auto simp: cmdline_post_def cs_parser_line)
  next
    case (Some p)
    then obtain args' where p: "p = line_parser args'" "cs_param s' = None" "cs_vparam s' = []"
        "length (contents (cs_ring s')) < length (contents (cs_ring s))"
        "cmd_lines (contents (cs_ring s)) (cs_vparam s) args =
          (let (ls, x) = cmd_lines (contents (cs_ring s')) [] [] in (args' # ls, x))"
      and s': "rq_inv 4096 (cs_ring s')" "cs_commandline s' = E_commandline"
      using a(2) Suc.prems(2) by (auto simp: cmdline_post_def)
    have "cs_parser s' = line_parser []" using p(2) by (simp add: cs_parser_line)
    moreover have "length (contents (cs_ring s')) < fuel" using p(4) Suc.prems(4) by simp
    moreover have "length (cs_vparam s') + length (contents (cs_ring s')) < 2 ^ 31 - 2"
      using p(3,4) Suc.prems(5) by simp
    ultimately obtain s'' ls args'' where
      "on_read_loop fuel con s' = Some (s'', - 1, map line_parser ls)"
      "cmd_lines (contents (cs_ring s')) (cs_vparam s') [] = (ls, cs_vparam s'', args'')"
      "cs_parser s'' = line_parser args''" "cs_commandline s'' = E_commandline"
      "rq_inv 4096 (cs_ring s'')" "contents (cs_ring s'') = []"
      "length (cs_vparam s'') \<le> length (cs_vparam s') + length (contents (cs_ring s'))"
      using Suc.IH [OF s'] by blast
    with a(1) Some p show ?thesis
      by (intro exI [of _ s''] exI [of _ "args' # ls"] exI [of _ args'']) simp
  qed
qed simp

lemma recv_pieces_spec:
  "rq_inv 4096 (cs_ring s) \<Longrightarrow> rq_inv 4096 (cs_ring (recv_pieces s d)) \<and>
    contents (cs_ring (recv_pieces s d)) = contents (cs_ring s) @ d \<and>
    cs_param (recv_pieces s d) = cs_param s \<and> cs_vparam (recv_pieces s d) = cs_vparam s \<and>
    cs_commandline (recv_pieces s d) =
      (if cs_commandline s = E_defalt \<and> d \<noteq> []
       then if d ! 0 = CHR ''*'' then E_redis else E_commandline else cs_commandline s)"
proof (induction s d rule: recv_pieces.induct)
  case (1 s d)
  show ?case
  proof (cases "d = []")
    case False
    let ?s = "cstream_recv s (take 4096 d)"
    have eq: "recv_pieces s d = recv_pieces ?s (drop 4096 d)" using False by (subst recv_pieces.simps) simp
    have s: "rq_inv 4096 (cs_ring ?s)" "contents (cs_ring ?s) = contents (cs_ring s) @ take 4096 d"
      using "1.prems" by (auto simp: cstream_recv_def rq_append_inv rq_append_contents)
    show ?thesis using "1.IH" [OF False s(1)] s False unfolding eq
      by (auto simp: cstream_recv_def Let_def)
  qed (use 1 in \<open>simp add: recv_pieces.simps\<close>)
qed

lemma on_reads_tokens:
  assumes "rq_inv 4096 (cs_ring s)" and "contents (cs_ring s) = []"
    and "cs_parser s = line_parser args"
    and "cs_commandline s = E_commandline \<or>
      cs_commandline s = E_defalt \<and> (concat chunks = [] \<or> hd (concat chunks) \<noteq> CHR ''*'')"
    and "length (cs_vparam s) + length (concat chunks) < 2 ^ 31 - 2"
  shows "\<exists>s'. on_reads con s chunks =
    Some (s', - 1, map line_parser (fst (cmd_lines (concat chunks) (cs_vparam s) args)))"
  using assms
proof (induction chunks arbitrary: s args)
  case (Cons d ds)
  show ?case
  proof (cases "d = []")
    case True
    with Cons.IH [of s args] Cons.prems show ?thesis by (auto simp: on_read_def)
  next
    case False
    let ?s = "recv_pieces s d"
    have s: "rq_inv 4096 (cs_ring ?s)" "contents (cs_ring ?s) = d" "cs_vparam ?s = cs_vparam s"
        "cs_parser ?s = line_parser args" "cs_commandline ?s = E_commandline"
      using recv_pieces_spec [OF Cons.prems(1), of d] Cons.prems False
      by (auto simp: cs_parser_def hd_conv_nth nth_append)
    have b: "length (contents (cs_ring ?s)) < rq_count (cs_ring ?s) + 1"
        "length (cs_vparam ?s) + length (contents (cs_ring ?s)) < 2 ^ 31 - 2"
      using s Cons.prems(5) by (auto simp: rq_count_contents [OF s(1)])
    obtain s' ls args' where l: "on_read_loop (rq_count (cs_ring ?s) + 1) con ?s = Some (s', - 1, map line_parser ls)"
        "cmd_lines d (cs_vparam s) args = (ls, cs_vparam s', args')"
        "cs_parser s' = line_parser args'" "cs_commandline s' = E_commandline"
        "rq_inv 4096 (cs_ring s')" "contents (cs_ring s') = []"
        "length (cs_vparam s') \<le> length (cs_vparam s) + length d"
      using on_read_loop_tokens [OF s(1,5,4) b, of con] unfolding s(2,3) by blast
    have r: "on_read con s d = Some (s', - 1, map line_parser ls)"
      using l(1) False by (simp add: on_read_def Let_def)
    have "length (cs_vparam s') + length (concat ds) < 2 ^ 31 - 2"
      using l(7) Cons.prems(5) by simp
    with Cons.IH [of s' args'] l obtain s'' where "on_reads con s' ds =
        Some (s'', - 1, map line_parser (fst (cmd_lines (concat ds) (cs_vparam s') args')))"
      by blast
    with r l(2) show ?thesis by (simp add: cmd_lines_append split_beta)
  qed
qed simp

section \<open>A parameter length that wraps around\<close>

lemma advance_loop_0 [simp]: "advance_loop 0 bs = bs"
  by (cases bs) simp_all

lemma rq_advance_0 [simp]: "rq_advance q 0 = q"
  by (simp add: rq_advance_def)

text \<open>The parser after the line \<^verbatim>\<open>$n\<close> of a length whose sum with 2 is negative.\<close>

definition wrapped_parser :: "int \<Rightarrow> istream" where
  "wrapped_parser n = \<lparr>is_vp = [\<lparr>pu_str = [], pu_len = n\<rparr>], is_count = 1, is_index = 1, is_line = False\<rparr>"

lemma analyze_redis_spins:
  assumes "ring_ok (cs_ring s)" and "contents (cs_ring s) \<noteq> []" and "n < 0"
  shows "analyze_redis fuel con s (wrapped_parser n) lg = None"
proof (induction fuel arbitrary: lg)
  case 0
  then show ?case using assms by (simp add: ring_ok_count)
next
  case (Suc fuel)
  have cnt: "rq_count (cs_ring s) \<noteq> 0" using assms by (simp add: ring_ok_count)
  have rd: "istream_read (wrapped_parser n) w = (wrapped_parser n, 0)" for w
    using assms(3) by (simp add: istream_read_def read_data_def wrapped_parser_def punit_read_def
        punit_finish_def pu_pos_def)
  have nf: "\<not> istream_finish (wrapped_parser n)"
    using assms(3) by (simp add: istream_finish_def wrapped_parser_def punit_finish_def pu_pos_def)
  show ?case using Suc cnt nf by (simp add: ring_window [OF assms(1,2)] rd)
qed

lemma analyze_redis_header:
  assumes ok: "ring_ok (cs_ring s)" and line: "is_line p" and n: "n < 2 ^ 31"
    and x: "x \<noteq> CR" "x \<noteq> LF"
    and b: "contents (cs_ring s) = (x # itostr (int n)) @ CRLF @ m"
    and rd: "\<And>r. read_param p ((x # itostr (int n)) @ CRLF @ r) (length (itostr (int n)) + 3) =
      (p', int (length (itostr (int n)) + 3))"
    and nf: "\<not> istream_finish p'"
  shows "\<exists>q lg'. analyze_redis (Suc fuel) con s p lg = analyze_redis fuel con (s\<lparr>cs_ring := q\<rparr>) p' lg' \<and>
    ring_ok q \<and> contents q = m"
proof -
  let ?n = "length (itostr (int n)) + 3" and ?b = "contents (cs_ring s)"
  have len: "?b \<noteq> []" "?n \<le> length ?b" using b by auto
  have cnt: "rq_count (cs_ring s) \<noteq> 0" using len ok by (simp add: ring_ok_count)
  have b': "?b @ [] = (x # itostr (int n)) @ CRLF @ m" using b by simp
  have "istream_read p (take 1024 ?b) = (p', int ?n)"
    using istream_read_line [OF line n x b'] len(2) rd by (auto simp only: not_less [symmetric] if_False)
  then have "analyze_redis (Suc fuel) con s p lg = analyze_redis fuel con
      (s\<lparr>cs_ring := rq_advance (cs_ring s) ?n\<rparr>) p' (lg @ con_broadcast con (take ?n (take 1024 ?b)))"
    using cnt nf by (simp add: ring_window [OF ok len(1)] nat_add_distrib)
  moreover have "ring_ok (rq_advance (cs_ring s) ?n)" "contents (rq_advance (cs_ring s) ?n) = m"
    using ring_ok_advance [OF ok len(2)] ring_ok_contents(2) [OF ok len(2)] b
    by (auto simp: numeral_3_eq_3)
  ultimately show ?thesis by blast
qed

section \<open>Serialization\<close>

lemma rq_puts_spec:
  "rq_inv 4096 q \<Longrightarrow> rq_inv 4096 (rq_puts q s) \<and> contents (rq_puts q s) = contents q @ cstr s"
  by (simp add: rq_puts_def rq_append_inv rq_append_contents)

lemma cstr_header [simp]: "c \<noteq> NUL \<Longrightarrow> cstr (c # itostr (int n) @ CRLF) = c # itostr (int n) @ CRLF"
  by (simp add: cstr_def takeWhile_append2) (metis itostr_no_nul no_nul_def)

definition wire_unit :: "punit \<Rightarrow> bytes" where
  "wire_unit u = ''$'' @ itostr (int (pu_pos u)) @ CRLF @ pu_str u @ CRLF"

lemma serialize_units_spec:
  "rq_inv 4096 q \<Longrightarrow> rq_inv 4096 (serialize_units q us) \<and>
    contents (serialize_units q us) = contents q @ concat (map wire_unit us)"
  by (induction us arbitrary: q)
    (simp_all add: Let_def rq_puts_spec rq_append_inv rq_append_contents wire_unit_def)

fun reply_bytes :: "ostream \<Rightarrow> bytes" where
  "reply_bytes (Os_error r) = ''-'' @ cstr r @ CRLF"
| "reply_bytes (Os_success r) = ''+'' @ cstr r @ CRLF"
| "reply_bytes (Os_data r) = ''$'' @ itostr (int (length r)) @ CRLF @ r @ CRLF"
| "reply_bytes (Os_array us) =
     (if us = [] then [] else ''*'' @ itostr (int (length us)) @ CRLF @ concat (map wire_unit us))"

lemma cstr_status [simp]: "c \<noteq> NUL \<Longrightarrow> cstr (c # cstr r @ CRLF) = c # cstr r @ CRLF"
  by (auto simp: cstr_def takeWhile_append2 dest: set_takeWhileD)

lemma os_serialize_spec:
  "rq_inv 4096 q \<Longrightarrow> rq_inv 4096 (fst (os_serialize os q)) \<and>
    contents (fst (os_serialize os q)) = contents q @ reply_bytes os"
  by (cases os) (simp_all add: rq_puts_spec rq_append_inv rq_append_contents serialize_units_spec)

lemma os_serialize_refused: "snd (os_serialize os q) \<longleftrightarrow> os \<noteq> Os_array []"
  by (cases os) auto

lemma push_args:
  assumes "\<forall>a\<in>set args. length a < 2 ^ 31 - 2"
  shows "foldl os_push_str (Os_array us) args =
    Os_array (us @ map (\<lambda>a. \<lparr>pu_str = a, pu_len = int (length a) + 2\<rparr>) args)"
  using assms
proof (induction args arbitrary: us)
  case (Cons a args)
  have "punit_read (punit_new (int (length a))) a =
      (\<lparr>pu_str = a, pu_len = int (length a) + 2\<rparr>, int (length a))"
    using Cons.prems by (simp add: punit_new_id punit_read_def pu_pos_def Let_def)
  with Cons show ?case by simp
qed simp

text \<open>The bytes of a request as the clients of the server build it.\<close>

definition request_bytes :: "bytes list \<Rightarrow> bytes" where
  "request_bytes args = contents (fst (os_serialize (foldl os_push_str (Os_array []) args) rq_new))"

lemma request_bytes_wire: "wf_args args \<Longrightarrow> request_bytes args = wire args"
proof -
  assume wf: "wf_args args"
  let ?us = "map (\<lambda>a. \<lparr>pu_str = a, pu_len = int (length a) + 2\<rparr>) args"
  have "foldl os_push_str (Os_array []) args = Os_array ?us"
    using wf push_args [of args "[]"] by (simp add: wf_args_def)
  moreover have "reply_bytes (Os_array ?us) = wire args"
    using wf by (simp add: wf_args_def wire_def wire_unit_def [abs_def] wire_arg_def [abs_def]
        pu_pos_def comp_def)
  ultimately show ?thesis
    using os_serialize_spec [of rq_new "Os_array ?us"] by (simp only: request_bytes_def) simp
qed

definition istream_params :: "istream \<Rightarrow> bytes list" where
  "istream_params s = map (\<lambda>i. case istream_get s (i + 1) of
      None \<Rightarrow> [] | Some (ptr, len) \<Rightarrow> take (nat len) ptr) [0..<length (is_vp s)]"

lemma istream_params_units: "is_vp s = map unit_of args \<Longrightarrow> istream_params s = args"
  by (rule nth_equalityI)
    (simp_all add: istream_params_def istream_get_def unit_of_def pu_pos_def Let_def)

lemma istream_params_request [simp]: "istream_params (st_line args n) = args"
  by (rule istream_params_units) (simp add: st_line_def)

lemma istream_params_line [simp]: "istream_params (line_parser args) = args"
  by (rule istream_params_units) (simp add: line_parser_def)

section \<open>Properties\<close>

text \<open>
  C5. Every pipeline of requests that clients serialize is delivered exactly: however the network
  cuts the bytes into chunks of at most 3072 bytes, the connection hands out the same requests,
  with the same parameters, in the same order, returns \<^verbatim>\<open>STREAM_PARTIAL\<close> and keeps no byte.
\<close>

theorem pipeline_delivered:
  assumes "list_all wf_args cmds" and "list_all (\<lambda>d. d \<noteq> [] \<and> length d \<le> 3072) chunks"
    and "concat chunks = concat (map request_bytes cmds)"
  shows "\<exists>s' ps. on_reads con cstream_new chunks = Some (s', - 1, ps) \<and>
    map istream_params ps = cmds \<and> contents (cs_ring s') = []"
proof -
  have "map request_bytes cmds = map wire cmds"
    using assms(1) by (simp add: list_all_iff request_bytes_wire)
  with assms(3) have w: "concat chunks = concat (map wire cmds)" by (simp only:)
  have "cmds = [] \<or> chunks \<noteq> []" using w by (cases cmds) (auto simp: wire_def)
  from on_reads_requests [OF _ assms(1,2) this, of cstream_new con] w obtain s' where
    "on_reads con cstream_new chunks = Some (s', - 1, map request cmds)"
    "chunks \<noteq> [] \<longrightarrow> contents (cs_ring s') = []" by blast
  moreover have "chunks = [] \<longrightarrow> s' = cstream_new" using calculation(1) by auto
  ultimately show ?thesis by (auto simp: comp_def cstream_new_def)
qed

theorem pipeline_delivered_witness:
  "\<exists>s' ps. on_reads None cstream_new [''*1'' @ [CR], LF # ''$4'' @ CRLF @ ''PI'',
       ''NG'' @ CRLF @ ''*2'' @ CRLF @ ''$3'' @ CRLF @ ''GET'' @ CRLF @ ''$1'' @ CRLF, ''k'' @ CRLF] =
     Some (s', - 1, ps) \<and> map istream_params ps = [[''PING''], [''GET'', ''k'']]"
proof -
  let ?cmds = "[[''PING''], [''GET'', ''k'']]"
  let ?chunks = "[''*1'' @ [CR], LF # ''$4'' @ CRLF @ ''PI'',
       ''NG'' @ CRLF @ ''*2'' @ CRLF @ ''$3'' @ CRLF @ ''GET'' @ CRLF @ ''$1'' @ CRLF, ''k'' @ CRLF]"
  have wf: "list_all wf_args ?cmds" by (simp add: wf_args_def)
  then have "map request_bytes ?cmds = map wire ?cmds"
    by (simp add: request_bytes_wire)
  moreover have "concat (map wire ?cmds) = concat ?chunks" by code_simp
  ultimately have "concat ?chunks = concat (map request_bytes ?cmds)" by simp
  from pipeline_delivered [OF wf _ this, of None] show ?thesis by auto
qed

text \<open>
  C7. The command line protocol splits its input into lines and blanks-separated arguments in a
  way that depends on the bytes only and not on the chunks they come in.
\<close>

theorem command_lines_delivered:
  assumes "hd (concat chunks) \<noteq> CHR ''*''" and "length (concat chunks) < 2 ^ 31 - 2"
  shows "\<exists>s' ps. on_reads con cstream_new chunks = Some (s', - 1, ps) \<and>
    map istream_params ps = fst (cmd_lines (concat chunks) [] [])"
proof -
  have "cs_parser cstream_new = line_parser []"
    by (simp add: cs_parser_line cstream_new_def)
  from on_reads_tokens [OF _ _ this, of chunks con] assms show ?thesis
    by (auto simp: cstream_new_def comp_def)
qed

theorem command_lines_delivered_witness:
  "\<exists>s' ps. on_reads None cstream_new [''GET '', ''k'' @ CRLF @ ''TI'', ''ME'' @ [LF]] =
     Some (s', - 1, ps) \<and> map istream_params ps = [[''GET'', ''k''], [''TIME'']]"
  using command_lines_delivered [of "[''GET '', ''k'' @ CRLF @ ''TI'', ''ME'' @ [LF]]" None]
  by (simp add: is_eol_def is_blank_def)

text \<open>
  A command line that ends with a blank before its line end is not delivered: it waits, and
  the next line is appended to it.
\<close>

theorem trailing_blank_swallows_line:
  assumes "w \<noteq> []" and "\<forall>c\<in>set w. \<not> is_blank c \<and> \<not> is_eol c" and "hd w \<noteq> CHR ''*''"
    and "v \<noteq> []" and "\<forall>c\<in>set v. \<not> is_blank c \<and> \<not> is_eol c"
    and "length w + length v < 2 ^ 31 - 8"
  shows "\<exists>s' ps. on_reads con cstream_new [w @ '' '' @ CRLF] = Some (s', - 1, []) \<and>
    on_reads con cstream_new [w @ '' '' @ CRLF, v @ CRLF] = Some (snd ps, - 1, fst ps) \<and>
    map istream_params (fst ps) = [[w, v]]"
proof -
  have tok: "cmd_lines (u @ r) vp args = cmd_lines r (vp @ u) args"
    if "\<forall>c\<in>set u. \<not> is_blank c \<and> \<not> is_eol c" for u r vp args
    using that by (induction u arbitrary: vp) auto
  have w: "cmd_lines (w @ '' '' @ CRLF) [] [] = ([], [], [w])"
    using assms(1,2) tok [of w "'' '' @ CRLF"] by (simp add: is_eol_def is_blank_def)
  have v: "cmd_lines (v @ CRLF) [] [w] = ([[w, v]], [], [])"
    using assms(4,5) tok [of v CRLF] by (simp add: is_eol_def is_blank_def)
  have wv: "cmd_lines (concat [w @ '' '' @ CRLF, v @ CRLF]) [] [] = ([[w, v]], [], [])"
    using cmd_lines_append [of "w @ '' '' @ CRLF" "v @ CRLF" "[]" "[]"] w v by simp
  have p: "cs_parser cstream_new = line_parser []"
    by (simp add: cs_parser_line cstream_new_def)
  obtain s1 where "on_reads con cstream_new [w @ '' '' @ CRLF] = Some (s1, - 1, [])"
    using on_reads_tokens [OF _ _ p, of "[w @ '' '' @ CRLF]" con] assms w
    by (auto simp: cstream_new_def)
  moreover obtain s2 where "on_reads con cstream_new [w @ '' '' @ CRLF, v @ CRLF] =
      Some (s2, - 1, [line_parser [w, v]])"
    using on_reads_tokens [OF _ _ p, of "[w @ '' '' @ CRLF, v @ CRLF]" con] assms wv
    by (auto simp: cstream_new_def)
  ultimately show ?thesis
    by (intro exI [of _ s1] exI [of _ "([line_parser [w, v]], s2)"]) simp
qed

theorem trailing_blank_swallows_line_witness:
  "\<exists>s' ps. on_reads None cstream_new [''PING '' @ CRLF] = Some (s', - 1, []) \<and>
     on_reads None cstream_new [''PING '' @ CRLF, ''TIME'' @ CRLF] = Some (snd ps, - 1, fst ps) \<and>
     map istream_params (fst ps) = [[''PING'', ''TIME'']]"
  using trailing_blank_swallows_line [of "''PING''" "''TIME''" None]
  by (simp add: is_eol_def is_blank_def)

text \<open>
  C8. A request whose parameter length is 2147483646 or 2147483647 makes the length with its line
  end wrap to a negative number; as soon as one byte follows, the analysis loop never ends.
\<close>

theorem wrapped_length_spins:
  assumes ok: "ring_ok (cs_ring s)" and mode: "cs_commandline s = E_redis" and new: "cs_param s = None"
    and n: "n = 2 ^ 31 - 2 \<or> n = 2 ^ 31 - 1" and m: "m \<noteq> []"
    and b: "contents (cs_ring s) = (''*1'' @ CRLF) @ (CHR ''$'' # itostr (int n)) @ CRLF @ m"
  shows "analyze fuel con s = None"
proof -
  let ?p1 = "istream_new\<lparr>is_count := 1\<rparr>" and ?p2 = "wrapped_parser (s32 (int n + 2))"
  have one: "itostr (int 1) = ''1''" by code_simp
  have cnt: "rq_count (cs_ring s) \<noteq> 0" using b ok by (simp add: ring_ok_count)
  have neg: "s32 (int n + 2) < 0" using n by (auto simp: s32_def)
  have an: "analyze k con s = analyze_redis k con s istream_new []" for k
    using mode new by (simp add: analyze_def)
  have b1: "contents (cs_ring s) = (CHR ''*'' # itostr (int 1)) @ CRLF @
      ((CHR ''$'' # itostr (int n)) @ CRLF @ m)" using b one by simp
  have r1: "read_param istream_new ((CHR ''*'' # itostr (int 1)) @ CRLF @ r) (length (itostr (int 1)) + 3) =
      (?p1, int (length (itostr (int 1)) + 3))" for r
    using atoi_header [of 1 "CHR ''*''" r] by (simp add: read_param_def istream_new_def Let_def)
  have r2: "read_param ?p1 ((CHR ''$'' # itostr (int n)) @ CRLF @ r) (length (itostr (int n)) + 3) =
      (?p2, int (length (itostr (int n)) + 3))" for r
    using atoi_header [of n "CHR ''$''" r] n
    by (auto simp: read_param_def istream_new_def Let_def wrapped_parser_def punit_new_def)
  have f1: "\<not> istream_finish ?p1" "\<not> istream_finish ?p2"
    using neg by (simp_all add: istream_finish_def istream_new_def wrapped_parser_def
        punit_finish_def pu_pos_def)
  have lt: "n < 2 ^ 31" using n by auto
  show ?thesis
  proof (cases fuel)
    case (Suc k)
    obtain q lg where 1: "analyze_redis (Suc k) con s istream_new [] =
        analyze_redis k con (s\<lparr>cs_ring := q\<rparr>) ?p1 lg" "ring_ok q"
        "contents q = (CHR ''$'' # itostr (int n)) @ CRLF @ m"
      using analyze_redis_header [OF ok _ _ _ _ b1 r1 f1(1), of k con "[]"]
      by (auto simp: istream_new_def)
    show ?thesis
    proof (cases k)
      case (Suc k')
      have "ring_ok (cs_ring (s\<lparr>cs_ring := q\<rparr>))" using 1 by simp
      then obtain q' lg' where 2: "analyze_redis (Suc k') con (s\<lparr>cs_ring := q\<rparr>) ?p1 lg =
          analyze_redis k' con (s\<lparr>cs_ring := q'\<rparr>) ?p2 lg'" "ring_ok q'" "contents q' = m"
        using analyze_redis_header [OF _ _ lt _ _ _ r2 f1(2), of "s\<lparr>cs_ring := q\<rparr>" m k' con lg] 1(3)
        by (auto simp: istream_new_def)
      have "analyze_redis k' con (s\<lparr>cs_ring := q'\<rparr>) ?p2 lg' = None"
        using 2 m neg by (intro analyze_redis_spins) auto
      then show ?thesis using 1 2 \<open>fuel = Suc k\<close> Suc by (simp only: an)
    qed (use 1 an \<open>fuel = Suc k\<close> in \<open>simp add: ring_ok_count\<close>)
  qed (use cnt an in simp)
qed

theorem wrapped_length_spins_witness:
  "\<forall>fuel. analyze fuel None (cstream_recv cstream_new
     (''*1'' @ CRLF @ ''$2147483647'' @ CRLF @ ''x'')) = None"
proof -
  let ?d = "''*1'' @ CRLF @ ''$2147483647'' @ CRLF @ ''x''" and ?n = "2147483647 :: nat"
  let ?s = "cstream_recv cstream_new ?d"
  have "ring_ok (cs_ring ?s)" "contents (cs_ring ?s) = ?d"
    by (simp_all add: cstream_recv_def cstream_new_def ring_ok_append ring_ok_contents)
  moreover have "itostr (int ?n) = ''2147483647''"
    by (simp add: itostr_def zltoa_def zltoa_rec_step ltoa_str_def)
  moreover have "cs_commandline ?s = E_redis" "cs_param ?s = None"
    by (simp_all add: cstream_recv_def cstream_new_def)
  ultimately show ?thesis
    using wrapped_length_spins [of ?s ?n "''x''" _ None] by simp
qed



end
