(* ===== verification/OrdMap.thy ===== *)
theory OrdMap
  imports Prelude "HOL-Library.List_Lexorder" "HOL-Library.Char_ord"
begin

text \<open>
  Ordered maps.  \<^verbatim>\<open>std::map<string, T>\<close>, which the object caches and the timeout queues use, and the
  key space of the leveldb database are both iterated in the lexicographic order of the unsigned
  bytes of their keys; maps with numbers or addresses as keys in the order of those.  They are
  association lists kept sorted by key.  The
  locale \<open>kv_store\<close> is the interface the database component relies on; its client lemma says what
  a batch of writes leaves behind.
\<close>

section \<open>Operations\<close>

type_synonym ('k, 'v) kvmap = "('k \<times> 'v) list"

type_synonym 'v omap = "(string, 'v) kvmap"

definition om_inv :: "('k :: linorder, 'v) kvmap \<Rightarrow> bool" where
  "om_inv m \<longleftrightarrow> sorted_wrt (<) (map fst m)"

definition om_find :: "('k, 'v) kvmap \<Rightarrow> 'k \<Rightarrow> 'v option" where
  "om_find m k = map_of m k"

text \<open>Writing through \<^verbatim>\<open>operator[]\<close>, or putting a record: an old value is replaced.\<close>

fun om_put :: "'k :: linorder \<Rightarrow> 'v \<Rightarrow> ('k, 'v) kvmap \<Rightarrow> ('k, 'v) kvmap" where
  "om_put k v [] = [(k, v)]"
| "om_put k v ((k', v') # m) =
     (if k = k' then (k, v) # m
      else if k < k' then (k, v) # (k', v') # m
      else (k', v') # om_put k v m)"

text \<open>\<^verbatim>\<open>insert(make_pair(k, v))\<close>: an old value is kept.\<close>

definition om_insert :: "'k :: linorder \<Rightarrow> 'v \<Rightarrow> ('k, 'v) kvmap \<Rightarrow> ('k, 'v) kvmap" where
  "om_insert k v m = (if om_find m k = None then om_put k v m else m)"

fun om_erase :: "'k \<Rightarrow> ('k, 'v) kvmap \<Rightarrow> ('k, 'v) kvmap" where
  "om_erase k [] = []"
| "om_erase k ((k', v') # m) = (if k = k' then m else (k', v') # om_erase k m)"

section \<open>Laws\<close>

lemma om_inv_Nil [simp, inv_intros]: "om_inv []"
  by (simp add: om_inv_def)

lemma om_inv_Cons: "om_inv ((k, v) # m) \<longleftrightarrow> (\<forall>k'\<in>set (map fst m). k < k') \<and> om_inv m"
  by (auto simp: om_inv_def)

lemma om_find_simps [simp]:
  "om_find [] k = None"
  "om_find ((k', v) # m) k = (if k = k' then Some v else om_find m k)"
  by (simp_all add: om_find_def)

lemma om_find_None: "om_find m k = None \<longleftrightarrow> k \<notin> fst ` set m"
  by (simp add: om_find_def map_of_eq_None_iff)

lemma om_find_SomeD: "om_find m k = Some v \<Longrightarrow> (k, v) \<in> set m"
  by (simp add: om_find_def map_of_SomeD)

lemma om_find_iff: "om_inv m \<Longrightarrow> om_find m k = Some v \<longleftrightarrow> (k, v) \<in> set m"
proof -
  assume "om_inv m"
  then have "distinct (map fst m)" by (simp add: om_inv_def strict_sorted_iff)
  then show ?thesis by (simp add: om_find_def)
qed

lemma keys_om_put: "fst ` set (om_put k v m) = insert k (fst ` set m)"
  by (induction k v m rule: om_put.induct) auto

lemma set_om_erase: "x \<in> set (om_erase k m) \<Longrightarrow> x \<in> set m"
  by (induction k m rule: om_erase.induct) (auto split: if_splits)

lemma om_find_below: "\<forall>x\<in>set m. (k :: 'k :: linorder) < fst x \<Longrightarrow> om_find m k = None"
  by (auto simp: om_find_None)

lemma om_inv_put [simp, inv_intros]: "om_inv m \<Longrightarrow> om_inv (om_put k v m)"
proof (induction k v m rule: om_put.induct)
  case (2 k v k' v' m)
  then show ?case using keys_om_put [of k v m] by (auto simp: om_inv_Cons)
qed (simp add: om_inv_def)

lemma om_inv_erase [simp, inv_intros]: "om_inv m \<Longrightarrow> om_inv (om_erase k m)"
  by (induction k m rule: om_erase.induct) (auto simp: om_inv_Cons dest: set_om_erase)

lemma om_inv_insert [simp, inv_intros]: "om_inv m \<Longrightarrow> om_inv (om_insert k v m)"
  by (simp add: om_insert_def)

lemma om_inv_filter [simp, inv_intros]: "om_inv m \<Longrightarrow> om_inv (filter P m)"
  by (simp add: om_inv_def sorted_wrt_map sorted_wrt_filter)

lemma om_find_put [simp]: "om_find (om_put k v m) k' = (if k' = k then Some v else om_find m k')"
  by (induction k v m rule: om_put.induct) auto

lemma om_find_erase [simp]:
  "om_inv m \<Longrightarrow> om_find (om_erase k m) k' = (if k' = k then None else om_find m k')"
  by (induction k m rule: om_erase.induct) (auto simp: om_inv_Cons om_find_below)

lemma om_find_insert [simp]:
  "om_find (om_insert k v m) k' =
     (if k' = k then (case om_find m k of None \<Rightarrow> Some v | Some w \<Rightarrow> Some w) else om_find m k')"
  by (auto simp: om_insert_def split: option.splits)

lemma om_find_filter: "om_inv m \<Longrightarrow>
    om_find (filter (\<lambda>(k, v). P k v) m) k' =
      (case om_find m k' of None \<Rightarrow> None | Some v \<Rightarrow> if P k' v then Some v else None)"
proof (induction m)
  case (Cons x m)
  obtain k v where x: "x = (k, v)" by force
  have inv: "\<forall>y\<in>set m. k < fst y" "om_inv m" using Cons.prems by (auto simp: x om_inv_Cons)
  show ?case
  proof (cases "k' = k")
    case True
    have "\<forall>y\<in>set (filter (\<lambda>(k, v). P k v) m). k < fst y" using inv by auto
    with True show ?thesis using x by (simp add: om_find_below)
  qed (use Cons.IH [OF inv(2)] x in simp)
qed simp

section \<open>Batches of writes\<close>

datatype batch_op = Batch_Put string string | Batch_Delete string

text \<open>What the last operation of a batch on a key writes: nothing, a deletion or a value.\<close>

fun last_write :: "batch_op list \<Rightarrow> string \<Rightarrow> string option option" where
  "last_write [] k = None"
| "last_write (Batch_Put k' v # ops) k =
     (case last_write ops k of Some w \<Rightarrow> Some w | None \<Rightarrow> if k = k' then Some (Some v) else None)"
| "last_write (Batch_Delete k' # ops) k =
     (case last_write ops k of Some w \<Rightarrow> Some w | None \<Rightarrow> if k = k' then Some None else None)"

text \<open>A batch applied with given operations, in order.\<close>

fun apply_batch :: "(string \<Rightarrow> string \<Rightarrow> 'm \<Rightarrow> 'm) \<Rightarrow> (string \<Rightarrow> 'm \<Rightarrow> 'm) \<Rightarrow> batch_op list \<Rightarrow> 'm \<Rightarrow> 'm" where
  "apply_batch pt dl [] m = m"
| "apply_batch pt dl (Batch_Put k v # ops) m = apply_batch pt dl ops (pt k v m)"
| "apply_batch pt dl (Batch_Delete k # ops) m = apply_batch pt dl ops (dl k m)"

lemma last_write_append:
  "last_write (a @ b) k = (case last_write b k of None \<Rightarrow> last_write a k | Some w \<Rightarrow> Some w)"
  by (induction a k rule: last_write.induct) (auto split: option.splits)

locale kv_store =
  fixes kv_inv :: "'m \<Rightarrow> bool"
    and kv_get :: "'m \<Rightarrow> string \<Rightarrow> string option"
    and kv_put :: "string \<Rightarrow> string \<Rightarrow> 'm \<Rightarrow> 'm"
    and kv_del :: "string \<Rightarrow> 'm \<Rightarrow> 'm"
  assumes kv_inv_put: "kv_inv m \<Longrightarrow> kv_inv (kv_put k v m)"
    and kv_inv_del: "kv_inv m \<Longrightarrow> kv_inv (kv_del k m)"
    and kv_get_put: "kv_inv m \<Longrightarrow> kv_get (kv_put k v m) k' = (if k' = k then Some v else kv_get m k')"
    and kv_get_del: "kv_inv m \<Longrightarrow> kv_get (kv_del k m) k' = (if k' = k then None else kv_get m k')"
begin

lemma apply_batch_inv: "kv_inv m \<Longrightarrow> kv_inv (apply_batch kv_put kv_del ops m)"
proof (induction ops arbitrary: m)
  case (Cons x ops)
  then show ?case by (cases x) (simp_all add: kv_inv_put kv_inv_del)
qed simp

lemma apply_batch_get:
  "kv_inv m \<Longrightarrow> kv_get (apply_batch kv_put kv_del ops m) k =
     (case last_write ops k of None \<Rightarrow> kv_get m k | Some w \<Rightarrow> w)"
proof (induction ops arbitrary: m)
  case (Cons x ops)
  then show ?case
    by (cases x) (simp_all add: kv_inv_put kv_inv_del kv_get_put kv_get_del split: option.splits)
qed simp

end

interpretation om: kv_store om_inv om_find om_put om_erase
  by unfold_locales simp_all

end
