(* ===== verification/ZBase.thy ===== *)
theory ZBase
  imports OrdMap Crc16 Resolver
begin

text \<open>
  The storage layer under src/zcloud/zstorage/zstorage: the packed record header (zbase.h), the
  database wrapper \<^verbatim>\<open>c_leavedb\<close>, and \<^verbatim>\<open>c_base\<close>, which every container and command derives from.
  The leveldb database itself is its contract: a finite map from keys to values, iterated in key
  order, on which a batch of writes takes effect completely or not at all.  Whether the \<open>i\<close>-th write
  succeeds is a parameter of the state, so that every failure path can be followed.  The clock is
  the number \<open>now\<close> of seconds that \<^verbatim>\<open>time(0)\<close> returns during a command.
\<close>

section \<open>Constants\<close>

definition PERMANENT_BASE :: u32 where "PERMANENT_BASE = 0xFFFFFFFF"

definition MAX_VALUE_LEN :: nat where "MAX_VALUE_LEN = 1024 * 1024 * 64"

datatype zerror = Zerror_not_extsis | Zerror_data_bad | Zerror_crc_bad | Zerror_type_bad
  | Zerror_illegal_access | Zerror_not_find_data | Zerror_seq_bad

fun zerror_str :: "zerror \<Rightarrow> string" where
  "zerror_str Zerror_not_extsis = ''not extsis.''"
| "zerror_str Zerror_data_bad = ''data bad.''"
| "zerror_str Zerror_crc_bad = ''crc bad.''"
| "zerror_str Zerror_type_bad = ''type bad.''"
| "zerror_str Zerror_illegal_access = ''illegal access.''"
| "zerror_str Zerror_not_find_data = ''not find data.''"
| "zerror_str Zerror_seq_bad = ''seq bad.''"

text \<open>The enumeration \<^verbatim>\<open>_type\<close>.\<close>

abbreviation T_GET_SET :: u8 where "T_GET_SET \<equiv> 1"
abbreviation T_HASH :: u8 where "T_HASH \<equiv> 2"
abbreviation T_LIST :: u8 where "T_LIST \<equiv> 3"
abbreviation T_MLIST :: u8 where "T_MLIST \<equiv> 4"
abbreviation T_MAP :: u8 where "T_MAP \<equiv> 5"
abbreviation T_SEQ :: u8 where "T_SEQ \<equiv> 6"
abbreviation T_SEQ_VALUE :: u8 where "T_SEQ_VALUE \<equiv> 7"

section \<open>The record header\<close>

text \<open>\<^verbatim>\<open>_zmsg_head\<close>: packed, 12 bytes; the fields hold the values in network order.\<close>

record zmsg_head =
  h_version :: u8
  h_type :: u8
  h_effective :: u32
  h_crc :: u16
  h_reserve :: u32

definition s_effective :: "u32 \<Rightarrow> zmsg_head \<Rightarrow> zmsg_head" where
  "s_effective e h = h\<lparr>h_effective := ntohl e\<rparr>"

definition s_crc :: "u16 \<Rightarrow> zmsg_head \<Rightarrow> zmsg_head" where
  "s_crc c h = h\<lparr>h_crc := ntohs c\<rparr>"

definition g_effective :: "zmsg_head \<Rightarrow> u32" where
  "g_effective h = htonl (h_effective h)"

definition g_crc :: "zmsg_head \<Rightarrow> u16" where
  "g_crc h = htons (h_crc h)"

definition check_type :: "zmsg_head \<Rightarrow> bool" where
  "check_type h \<longleftrightarrow> h_type h \<in>
     {T_GET_SET, T_HASH, T_LIST, T_MLIST, T_MAP, T_SEQ, T_SEQ_VALUE}"

text \<open>
  The constructor leaves \<^verbatim>\<open>type\<close>, \<^verbatim>\<open>m_crc\<close> and \<^verbatim>\<open>m_reserve\<close> as they are in memory; the callers set the
  first two, the last one is the argument \<open>junk\<close>.
\<close>

definition head_new :: "u32 \<Rightarrow> u8 \<Rightarrow> zmsg_head" where
  "head_new junk type = s_effective PERMANENT_BASE
     \<lparr>h_version = 1, h_type = type, h_effective = 0, h_crc = 0, h_reserve = junk\<rparr>"

text \<open>The header of a \<^verbatim>\<open>c_base\<close> object is cleared by its constructor, and then gets its type.\<close>

definition base_head :: "u8 \<Rightarrow> zmsg_head" where
  "base_head type = \<lparr>h_version = 0, h_type = type, h_effective = 0, h_crc = 0, h_reserve = 0\<rparr>"

definition head_mem :: "zmsg_head \<Rightarrow> bytes" where
  "head_mem h = u8_mem (h_version h) @ u8_mem (h_type h) @ u32_mem (h_effective h) @
     u16_mem (h_crc h) @ u32_mem (h_reserve h)"

definition mem_head :: "bytes \<Rightarrow> zmsg_head" where
  "mem_head bs = \<lparr>h_version = mem_u8 bs, h_type = mem_u8 (drop 1 bs),
     h_effective = mem_u32 (drop 2 bs), h_crc = mem_u16 (drop 6 bs), h_reserve = mem_u32 (drop 8 bs)\<rparr>"

abbreviation HEAD_LEN :: nat where "HEAD_LEN \<equiv> 12"

section \<open>The database\<close>

record dbase =
  db_map :: "string omap"
  db_ok :: "nat \<Rightarrow> bool"
  db_tick :: nat

definition db_get :: "dbase \<Rightarrow> string \<Rightarrow> string option" where
  "db_get db key = om_find (db_map db) key"

text \<open>\<^verbatim>\<open>c_leavedb::write\<close>.\<close>

definition db_write :: "dbase \<Rightarrow> batch_op list \<Rightarrow> dbase \<times> bool" where
  "db_write db bh =
     (let db' = db\<lparr>db_tick := db_tick db + 1\<rparr>
      in if db_ok db (db_tick db)
         then (db'\<lparr>db_map := apply_batch om_put om_erase bh (db_map db)\<rparr>, True)
         else (db', False))"

definition db_put :: "dbase \<Rightarrow> string \<Rightarrow> string \<Rightarrow> dbase \<times> bool" where
  "db_put db key value = db_write db [Batch_Put key value]"

definition db_inv :: "dbase \<Rightarrow> bool" where
  "db_inv db \<longleftrightarrow> om_inv (db_map db)"

section \<open>The server's settings\<close>

text \<open>The fields of \<^verbatim>\<open>c_server\<close> the containers read, with the defaults of its constructor.\<close>

record server_cfg =
  m_list_max_count :: u32
  m_mlist_max_count :: u32
  m_seq_valid_time :: u32
  m_object_effective :: u32
  m_seq_clear_time :: u32

definition server_default :: server_cfg where
  "server_default = \<lparr>m_list_max_count = 1024, m_mlist_max_count = 99, m_seq_valid_time = 720,
     m_object_effective = 15, m_seq_clear_time = 30\<rparr>"

definition list_max_count :: "server_cfg \<Rightarrow> u16" where
  "list_max_count c = ucast (m_list_max_count c)"

definition mlist_max_count :: "server_cfg \<Rightarrow> u16" where
  "mlist_max_count c = ucast (m_mlist_max_count c)"

definition seq_valid_time :: "server_cfg \<Rightarrow> u32" where
  "seq_valid_time c = m_seq_valid_time c * 60"

definition object_effective :: "server_cfg \<Rightarrow> u32" where
  "object_effective c = m_object_effective c * 60"

definition seq_clear_time :: "server_cfg \<Rightarrow> u32" where
  "seq_clear_time c = m_seq_clear_time c * 60"

text \<open>What a command reads of its surroundings: clock, settings, uninitialised memory.\<close>

record zenv =
  now :: nat
  cfg :: server_cfg
  junk :: u32

definition time32 :: "zenv \<Rightarrow> u32" where
  "time32 e = of_nat (now e)"

section \<open>The base class\<close>

definition get_Slice :: "zmsg_head \<Rightarrow> bytes \<Rightarrow> u32 \<Rightarrow> zmsg_head \<times> bytes" where
  "get_Slice head value effective =
     (let h = s_crc (crc16 0 value) (s_effective effective head) in (h, head_mem h @ value))"

definition base_put :: "zenv \<Rightarrow> dbase \<Rightarrow> zmsg_head \<Rightarrow> string \<Rightarrow> bytes \<Rightarrow> u32 \<Rightarrow> dbase \<times> zmsg_head \<times> bool" where
  "base_put e db head key value effective =
     (let effective' = (if effective = 0 then PERMANENT_BASE else time32 e + effective)
      in if length value + HEAD_LEN > MAX_VALUE_LEN then (db, head, False)
         else let (head', val) = get_Slice head value effective';
                  (db', ok) = db_put db key val
              in (db', head', ok))"

definition base_get :: "dbase \<Rightarrow> string \<Rightarrow> string option" where
  "base_get db key = db_get db key"

definition get_value :: "dbase \<Rightarrow> string \<Rightarrow> zerror + bytes \<times> zmsg_head" where
  "get_value db key =
     (case base_get db key of
        None \<Rightarrow> Inl Zerror_not_extsis
      | Some value \<Rightarrow>
          if length value \<le> HEAD_LEN then Inl Zerror_data_bad
          else let head = mem_head value
               in if \<not> check_type head then Inl Zerror_type_bad
                  else if g_crc head \<noteq> crc16 0 (drop HEAD_LEN value) then Inl Zerror_crc_bad
                  else Inr (value, head))"

section \<open>Replies\<close>

definition io_OK :: "ostream \<Rightarrow> ostream" where
  "io_OK io = os_push_cstr io ''OK''"

text \<open>The macros \<^verbatim>\<open>ZERROR_RESULT\<close> and \<^verbatim>\<open>ZCODE_RESULT\<close>.\<close>

definition zerror_result :: "ostream \<Rightarrow> string \<Rightarrow> ostream" where
  "zerror_result io c = os_push_cstr (os_push_cstr io ''ERROR'') c"

definition zcode_result :: "ostream \<Rightarrow> zerror \<Rightarrow> ostream" where
  "zcode_result io c = zerror_result io (zerror_str c)"

section \<open>Laws of the header\<close>

text \<open>Fixed-length encodings: reading back gives the value, whatever follows.\<close>

locale fixed_codec =
  fixes enc :: "'a \<Rightarrow> bytes" and dec :: "bytes \<Rightarrow> 'a" and size_of :: nat
  assumes enc_length: "length (enc x) = size_of"
    and dec_enc: "dec (enc x @ r) = x"
begin

lemma enc_inject: "enc x @ r = enc y @ s \<longleftrightarrow> x = y \<and> r = s"
  by (metis append_eq_append_conv dec_enc enc_length)

lemma enc_drop: "drop size_of (enc x @ r) = r"
  by (simp add: enc_length)

end

lemma itostr_uint_inject: "itostr (uint i) = itostr (uint j) \<longleftrightarrow> i = j"
proof -
  have "uint i = int (unat i)" "uint j = int (unat j)" by simp_all
  then show ?thesis by (metis itostr_inject word_unat_eq_iff)
qed

interpretation head: fixed_codec head_mem mem_head HEAD_LEN
  by unfold_locales (simp_all add: head_mem_def mem_head_def)

interpretation u16: fixed_codec u16_mem mem_u16 2
  by unfold_locales simp_all

interpretation u32: fixed_codec u32_mem mem_u32 4
  by unfold_locales simp_all

lemmas head_codec [simp, codec_simps] = head.enc_length head.dec_enc head.enc_drop

lemma head_fields [simp]:
  "g_effective (s_effective e h) = e" "g_effective (s_crc c h) = g_effective h"
  "g_crc (s_crc c h) = c" "g_crc (s_effective e h) = g_crc h"
  "h_type (s_effective e h) = h_type h" "h_type (s_crc c h) = h_type h"
  by (simp_all add: g_effective_def s_effective_def g_crc_def s_crc_def)

lemma type_distinct [simp]:
  "h_type h = T_GET_SET \<Longrightarrow> check_type h" "h_type h = T_LIST \<Longrightarrow> check_type h"
  "h_type h = T_MLIST \<Longrightarrow> check_type h" "h_type h = T_SEQ \<Longrightarrow> check_type h"
  "h_type h = T_SEQ_VALUE \<Longrightarrow> check_type h"
  by (simp_all add: check_type_def)

lemma base_head_simps [simp]: "h_type (base_head t) = t" "g_effective (base_head t) = 0"
proof -
  show "h_type (base_head t) = t" by (simp add: base_head_def)
  have "htonl 0 = (0 :: u32)" by code_simp
  then show "g_effective (base_head t) = 0" by (simp add: base_head_def g_effective_def)
qed

section \<open>Laws of the database\<close>

lemma db_write_cases:
  assumes "db_inv db"
  obtains (ok) db' where "db_write db bh = (db', True)" "db_ok db (db_tick db)" "db_inv db'"
      "\<And>k. db_get db' k = (case last_write bh k of None \<Rightarrow> db_get db k | Some w \<Rightarrow> w)"
      "db_ok db' = db_ok db" "db_tick db' = db_tick db + 1"
  | (fail) db' where "db_write db bh = (db', False)" "\<not> db_ok db (db_tick db)" "db_inv db'"
      "\<And>k. db_get db' k = db_get db k" "db_ok db' = db_ok db" "db_tick db' = db_tick db + 1"
proof (cases "db_ok db (db_tick db)")
  case True
  have inv: "om_inv (db_map db)" using assms by (simp add: db_inv_def)
  show ?thesis
    by (rule ok [of "db\<lparr>db_tick := db_tick db + 1,
        db_map := apply_batch om_put om_erase bh (db_map db)\<rparr>"])
      (use True inv in \<open>simp_all add: db_write_def db_inv_def db_get_def om.apply_batch_inv
        om.apply_batch_get split: option.split\<close>)
next
  case False
  show ?thesis
    by (rule fail [of "db\<lparr>db_tick := db_tick db + 1\<rparr>"])
      (use False assms in \<open>simp_all add: db_write_def db_inv_def db_get_def\<close>)
qed

lemma db_write_inv [inv_intros]: "db_inv db \<Longrightarrow> db_inv (fst (db_write db bh))"
  by (cases rule: db_write_cases [of db bh]) auto

text \<open>A database whose writes all succeed.\<close>

definition db_reliable :: "dbase \<Rightarrow> bool" where
  "db_reliable db \<longleftrightarrow> db_inv db \<and> (\<forall>i. db_ok db i)"

lemma db_write_reliable:
  assumes "db_reliable db"
  shows "snd (db_write db bh)" and "db_reliable (fst (db_write db bh))"
    and "db_get (fst (db_write db bh)) k =
      (case last_write bh k of None \<Rightarrow> db_get db k | Some w \<Rightarrow> w)"
proof -
  have inv: "db_inv db" using assms by (simp add: db_reliable_def)
  show "snd (db_write db bh)" "db_reliable (fst (db_write db bh))"
    "db_get (fst (db_write db bh)) k = (case last_write bh k of None \<Rightarrow> db_get db k | Some w \<Rightarrow> w)"
    using assms by (cases rule: db_write_cases [OF inv, of bh], auto simp: db_reliable_def)+
qed

text \<open>What a record that passes the checks of \<^const>\<open>get_value\<close> looks like.\<close>

lemma get_value_stored:
  assumes "db_get db key = Some (head_mem h @ body)" and "body \<noteq> []" and "check_type h"
    and "g_crc h = crc16 0 body"
  shows "get_value db key = Inr (head_mem h @ body, h)"
  using assms by (cases body) (simp_all add: get_value_def base_get_def)

lemma get_value_empty:
  "db_get db key = Some (head_mem h) \<Longrightarrow> get_value db key = Inl Zerror_data_bad"
  using head.enc_length [of h] by (simp add: get_value_def base_get_def)

lemma get_value_missing [simp]: "db_get db key = None \<Longrightarrow> get_value db key = Inl Zerror_not_extsis"
  by (simp add: get_value_def base_get_def)

lemma get_value_cong: "db_get db key = db_get db' key \<Longrightarrow> get_value db key = get_value db' key"
  by (simp add: get_value_def base_get_def)

end
