(* ===== verification/Timeout.thy ===== *)
theory Timeout
  imports ZBase
begin

text \<open>
  The expiry queue \<^verbatim>\<open>c_timeout\<close> (src/zcloud/zstorage/zstorage/c_timeout.h): commands push a key with
  its time to live, the refresh thread sorts the pushed objects into those that expire within 300
  seconds and the others, looks at the others every 120 seconds, and deletes the keys of the
  expired ones.  The deletion is a parameter; the command component instantiates it.
\<close>

section \<open>State and operations\<close>

record timeout_object =
  t_type :: u8
  t_key :: string
  t_effective :: u32

record timeout =
  m_temp :: "timeout_object list"
  m_immediately :: "timeout_object omap"
  m_long :: "timeout_object omap"
  m_check_long :: u32

definition timeout_new :: "zenv \<Rightarrow> timeout" where
  "timeout_new e = \<lparr>m_temp = [], m_immediately = [], m_long = [], m_check_long = time32 e\<rparr>"

definition timeout_push :: "zenv \<Rightarrow> u8 \<Rightarrow> string \<Rightarrow> u32 \<Rightarrow> timeout \<Rightarrow> timeout" where
  "timeout_push e type key effective tm =
     (if effective > 3600 * 72 then tm
      else tm\<lparr>m_temp := m_temp tm @
        [\<lparr>t_type = type, t_key = key, t_effective = time32 e + effective\<rparr>]\<rparr>)"

text \<open>Replacing the entry of a key: the \<^verbatim>\<open>find\<close>, \<^verbatim>\<open>erase\<close>, \<^verbatim>\<open>insert\<close> of the code.\<close>

definition set_object :: "timeout_object \<Rightarrow> timeout_object omap \<Rightarrow> timeout_object omap" where
  "set_object ob m =
     om_insert (t_key ob) ob (case om_find m (t_key ob) of None \<Rightarrow> m | Some _ \<Rightarrow> om_erase (t_key ob) m)"

definition is_immediate :: "zenv \<Rightarrow> timeout_object \<Rightarrow> bool" where
  "is_immediate e ob \<longleftrightarrow> unat (t_effective ob) < now e + 300"

definition immediately_set :: "zenv \<Rightarrow> timeout_object \<Rightarrow> timeout \<Rightarrow> timeout \<times> bool" where
  "immediately_set e ob tm =
     (if is_immediate e ob
      then (tm\<lparr>m_immediately := set_object ob (m_immediately tm)\<rparr>, True)
      else (tm, False))"

definition long_set :: "timeout_object \<Rightarrow> timeout \<Rightarrow> timeout" where
  "long_set ob tm = tm\<lparr>m_long := set_object ob (m_long tm)\<rparr>"

fun exec_temp_loop :: "zenv \<Rightarrow> timeout_object list \<Rightarrow> timeout \<Rightarrow> timeout" where
  "exec_temp_loop e [] tm = tm\<lparr>m_temp := []\<rparr>"
| "exec_temp_loop e (ob # q) tm =
     (let (tm', imm) = immediately_set e ob tm
      in exec_temp_loop e q (if imm then tm' else long_set ob tm'))"

definition exec_temp :: "zenv \<Rightarrow> timeout \<Rightarrow> timeout" where
  "exec_temp e tm = exec_temp_loop e (m_temp tm) tm"

text \<open>The loop of \<^verbatim>\<open>check_long\<close> over \<^verbatim>\<open>m_long\<close>: what stays in it, and the other fields.\<close>

fun check_long_loop :: "zenv \<Rightarrow> timeout_object omap \<Rightarrow> timeout \<Rightarrow> timeout_object omap \<times> timeout" where
  "check_long_loop e [] tm = ([], tm)"
| "check_long_loop e ((k, ob) # m) tm =
     (let (tm', imm) = immediately_set e ob tm; (m', tm'') = check_long_loop e m tm'
      in (if imm then m' else (k, ob) # m', tm''))"

definition check_long :: "zenv \<Rightarrow> timeout \<Rightarrow> timeout" where
  "check_long e tm = (let (m, tm') = check_long_loop e (m_long tm) tm in tm'\<lparr>m_long := m\<rparr>)"

fun timeout_loop :: "(string \<Rightarrow> 'w \<Rightarrow> 'w) \<Rightarrow> zenv \<Rightarrow> timeout_object omap \<Rightarrow> 'w \<Rightarrow> timeout_object omap \<times> 'w" where
  "timeout_loop del e [] w = ([], w)"
| "timeout_loop del e ((k, ob) # m) w =
     (if unat (t_effective ob) < now e
      then timeout_loop del e m (del (t_key ob) w)
      else let (m', w') = timeout_loop del e m w in ((k, ob) # m', w'))"

definition timeout_run :: "(string \<Rightarrow> 'w \<Rightarrow> 'w) \<Rightarrow> zenv \<Rightarrow> timeout \<Rightarrow> 'w \<Rightarrow> timeout \<times> 'w" where
  "timeout_run del e tm w =
     (let tm1 = exec_temp e tm;
          tm2 = (if now e > unat (m_check_long tm1)
                 then (check_long e tm1)\<lparr>m_check_long := time32 e + 120\<rparr> else tm1);
          (m, w') = timeout_loop del e (m_immediately tm2) w
      in (tm2\<lparr>m_immediately := m\<rparr>, w'))"

section \<open>What the commands share\<close>

record zworld =
  w_db :: dbase
  w_tmo :: timeout

section \<open>Invariant\<close>

text \<open>
  Both maps are sorted and file every object under its own key.  The second part is about time:
  what is in \<open>m_long\<close> expires at least 180 seconds after the next check is due.
\<close>

definition keyed :: "timeout_object omap \<Rightarrow> bool" where
  "keyed m \<longleftrightarrow> om_inv m \<and> (\<forall>x\<in>set m. t_key (snd x) = fst x)"

definition timeout_inv :: "timeout \<Rightarrow> bool" where
  "timeout_inv tm \<longleftrightarrow> keyed (m_immediately tm) \<and> keyed (m_long tm)"

definition long_late :: "timeout \<Rightarrow> bool" where
  "long_late tm \<longleftrightarrow>
     (\<forall>x\<in>set (m_long tm). unat (m_check_long tm) + 180 \<le> unat (t_effective (snd x)))"

lemma set_object_put:
  assumes "keyed m"
  shows "keyed (set_object ob m)" and
    "om_find (set_object ob m) k = (if k = t_key ob then Some ob else om_find m k)"
proof -
  have inv: "om_inv m" using assms by (simp add: keyed_def)
  show f: "om_find (set_object ob m) k = (if k = t_key ob then Some ob else om_find m k)" for k
    using inv by (auto simp: set_object_def split: option.splits)
  have i: "om_inv (set_object ob m)"
    using inv by (auto simp: set_object_def split: option.splits)
  have "t_key ob' = k'" if "(k', ob') \<in> set (set_object ob m)" for k' ob'
    using om_find_iff [OF i, of k' ob'] f [of k'] om_find_iff [OF inv, of k' ob'] that assms
    by (auto simp: keyed_def split: if_splits)
  then show "keyed (set_object ob m)" using i by (auto simp: keyed_def)
qed

lemma set_object_set:
  "keyed m \<Longrightarrow> x \<in> set (set_object ob m) \<Longrightarrow> x = (t_key ob, ob) \<or> x \<in> set m"
  using set_object_put(1) [of m ob] set_object_put(2) [of m ob "fst x"] om_find_iff [of "set_object ob m" "fst x" "snd x"]
    om_find_iff [of m "fst x" "snd x"]
  by (cases x) (auto simp: keyed_def split: if_splits)

lemma immediately_set_simps:
  "snd (immediately_set e ob tm) = is_immediate e ob"
  "fst (immediately_set e ob tm) =
     (if is_immediate e ob then tm\<lparr>m_immediately := set_object ob (m_immediately tm)\<rparr> else tm)"
  by (simp_all add: immediately_set_def)

text \<open>\<^const>\<open>exec_temp\<close> empties the queue; what goes to \<open>m_long\<close> is far from its expiry.\<close>

lemma exec_temp_loop_spec:
  assumes "timeout_inv tm"
  shows "timeout_inv (exec_temp_loop e q tm) \<and> m_temp (exec_temp_loop e q tm) = [] \<and>
    m_check_long (exec_temp_loop e q tm) = m_check_long tm \<and>
    (\<forall>x\<in>set (m_long (exec_temp_loop e q tm)). x \<in> set (m_long tm) \<or> \<not> is_immediate e (snd x))"
  using assms
proof (induction q arbitrary: tm)
  case (Cons ob q)
  let ?tm = "if is_immediate e ob then tm\<lparr>m_immediately := set_object ob (m_immediately tm)\<rparr>
    else long_set ob tm"
  have eq: "exec_temp_loop e (ob # q) tm = exec_temp_loop e q ?tm"
    by (simp add: immediately_set_def)
  have inv: "timeout_inv ?tm"
    using Cons.prems by (simp add: timeout_inv_def long_set_def set_object_put)
  have lng: "x \<in> set (m_long tm) \<or> \<not> is_immediate e (snd x)" if "x \<in> set (m_long ?tm)" for x
    using that set_object_set [of "m_long tm" x ob] Cons.prems
    by (auto simp: timeout_inv_def long_set_def split: if_splits)
  have ih: "timeout_inv (exec_temp_loop e q ?tm) \<and> m_temp (exec_temp_loop e q ?tm) = [] \<and>
      m_check_long (exec_temp_loop e q ?tm) = m_check_long ?tm \<and>
      (\<forall>x\<in>set (m_long (exec_temp_loop e q ?tm)). x \<in> set (m_long ?tm) \<or> \<not> is_immediate e (snd x))"
    by (rule Cons.IH [OF inv])
  have "m_check_long ?tm = m_check_long tm" by (simp add: long_set_def)
  with ih lng show ?case unfolding eq by metis
qed (simp add: timeout_inv_def)

lemma check_long_loop_spec:
  assumes "keyed (m_immediately tm)" and "keyed m"
  shows "fst (check_long_loop e m tm) = filter (\<lambda>x. \<not> is_immediate e (snd x)) m \<and>
    keyed (m_immediately (snd (check_long_loop e m tm))) \<and>
    m_temp (snd (check_long_loop e m tm)) = m_temp tm"
  using assms
proof (induction m arbitrary: tm)
  case (Cons x m)
  obtain k ob where x: "x = (k, ob)" by force
  let ?tm = "fst (immediately_set e ob tm)"
  have k: "keyed m" using Cons.prems(2) by (auto simp: keyed_def om_inv_Cons x)
  have i: "keyed (m_immediately ?tm)" "m_temp ?tm = m_temp tm"
    using Cons.prems(1) by (auto simp: immediately_set_simps set_object_put)
  from Cons.IH [OF i(1) k] i(2)
  have "fst (check_long_loop e m ?tm) = filter (\<lambda>x. \<not> is_immediate e (snd x)) m"
    "keyed (m_immediately (snd (check_long_loop e m ?tm)))"
    "m_temp (snd (check_long_loop e m ?tm)) = m_temp tm" by auto
  then show ?case by (simp add: x Let_def split_beta immediately_set_simps(1))
qed simp

lemma timeout_loop_spec:
  "fst (timeout_loop del e m w) = filter (\<lambda>x. \<not> unat (t_effective (snd x)) < now e) m"
  "snd (timeout_loop del e m w) =
     fold del (map (t_key \<circ> snd) (filter (\<lambda>x. unat (t_effective (snd x)) < now e) m)) w"
  by (induction del e m w rule: timeout_loop.induct) (simp_all add: Let_def split_beta)

lemma keyed_filter [simp]: "keyed m \<Longrightarrow> keyed (filter P m)"
  by (auto simp: keyed_def)

lemma exec_temp_spec:
  assumes "timeout_inv tm"
  shows "timeout_inv (exec_temp e tm)" and "m_temp (exec_temp e tm) = []"
    and "m_check_long (exec_temp e tm) = m_check_long tm"
    and "x \<in> set (m_long (exec_temp e tm)) \<Longrightarrow> x \<in> set (m_long tm) \<or> \<not> is_immediate e (snd x)"
  using exec_temp_loop_spec [OF assms, of e "m_temp tm"] by (auto simp: exec_temp_def)

lemma check_long_spec:
  assumes "timeout_inv tm"
  shows "timeout_inv (check_long e tm)" and "m_temp (check_long e tm) = m_temp tm"
    and "m_long (check_long e tm) = filter (\<lambda>x. \<not> is_immediate e (snd x)) (m_long tm)"
  using check_long_loop_spec [of tm "m_long tm" e] assms
  by (auto simp: timeout_inv_def check_long_def split_beta)

text \<open>The clock: the next check is at most 120 seconds ahead, and no value overflows.\<close>

definition clock_ok :: "zenv \<Rightarrow> timeout \<Rightarrow> bool" where
  "clock_ok e tm \<longleftrightarrow> unat (m_check_long tm) \<le> now e + 120 \<and> now e + 120 < 2 ^ 32"

lemma long_after_temp:
  assumes "timeout_inv tm" and "long_late tm" and "clock_ok e tm"
  shows "long_late (exec_temp e tm)"
  using assms exec_temp_spec(3) [OF assms(1), of e] exec_temp_spec(4) [OF assms(1), of _ e]
  by (fastforce simp: long_late_def clock_ok_def is_immediate_def)

lemma unat_check_time: "now e + 120 < 2 ^ 32 \<Longrightarrow> unat (time32 e + 120) = now e + 120"
  by (simp add: time32_def unat_word_ariths unat_of_nat take_bit_eq_mod)

lemma long_after_check:
  assumes "timeout_inv tm" and "now e + 120 < 2 ^ 32"
  shows "long_late ((check_long e tm)\<lparr>m_check_long := time32 e + 120\<rparr>)"
  using assms by (auto simp: long_late_def check_long_spec(3) unat_check_time is_immediate_def)

section \<open>Properties\<close>



text \<open>
  Setting a key again with a longer time to live does not take the old expiry back: while the
  old object is in \<open>m_immediately\<close> and the new one is filed in \<open>m_long\<close>, the run after the old
  expiry deletes the key.
\<close>

theorem renewed_key_still_expires:
  assumes inv: "timeout_inv tm" and old: "om_find (m_immediately tm) k = Some ob"
    and exp: "unat (t_effective ob) < now e" and temp: "m_temp tm = [new]"
    and new: "t_key new = k" "\<not> is_immediate e new" and chk: "now e \<le> unat (m_check_long tm)"
  shows "om_find (m_long (fst (timeout_run (#) e tm w))) k = Some new \<and>
    k \<in> set (snd (timeout_run (#) e tm []))"
proof -
  let ?t = "exec_temp e tm"
  have t: "?t = (long_set new tm)\<lparr>m_temp := []\<rparr>"
    using temp new by (simp add: exec_temp_def immediately_set_def)
  have k: "keyed (m_long tm)" "om_inv (m_immediately tm)" "t_key ob = k"
    using inv old om_find_SomeD [OF old] by (auto simp: timeout_inv_def keyed_def)
  have run: "timeout_run (#) e tm w = (?t\<lparr>m_immediately := fst (timeout_loop (#) e (m_immediately tm) w)\<rparr>,
      snd (timeout_loop (#) e (m_immediately tm) w))" for w :: "string list"
    using chk by (simp add: timeout_run_def t long_set_def Let_def split_beta)
  have "(k, ob) \<in> set (m_immediately tm)" using old by (rule om_find_SomeD)
  then have "k \<in> set (map (t_key \<circ> snd) (filter (\<lambda>x. unat (t_effective (snd x)) < now e) (m_immediately tm)))"
    using exp k(3) by force
  moreover have "set (fold (#) xs []) = set xs" for xs :: "string list"
    by (simp add: fold_Cons_rev)
  ultimately have "k \<in> set (snd (timeout_loop (#) e (m_immediately tm) []))"
    by (simp add: timeout_loop_spec(2))
  moreover have "om_find (m_long ?t) k = Some new"
    using set_object_put(2) [OF k(1), of new k] new(1) by (simp add: t long_set_def)
  ultimately show ?thesis by (simp add: run)
qed

theorem renewed_key_still_expires_witness:
  "\<exists>e tm. timeout_run (#) e tm [] = (fst (timeout_run (#) e tm []), [''a'']) \<and>
     om_find (m_long (fst (timeout_run (#) e tm []))) ''a'' \<noteq> None"
proof -
  let ?ob = "\<lparr>t_type = 1, t_key = ''a'', t_effective = 999\<rparr>"
    and ?new = "\<lparr>t_type = 1, t_key = ''a'', t_effective = 9000\<rparr>"
  define e where "e = \<lparr>now = 1000, cfg = server_default, junk = 0\<rparr>"
  define tm where "tm = \<lparr>m_temp = [?new], m_immediately = [(''a'', ?ob)], m_long = [], m_check_long = 1000\<rparr>"
  have "om_find (m_long (fst (timeout_run (#) e tm []))) ''a'' = Some ?new"
    using renewed_key_still_expires [of tm "''a''" ?ob e ?new "[]"]
    by (simp add: tm_def e_def timeout_inv_def keyed_def om_inv_def is_immediate_def)
  moreover have "snd (timeout_run (#) e tm []) = [''a'']"
    by (simp add: tm_def e_def timeout_run_def exec_temp_def immediately_set_def is_immediate_def
        long_set_def set_object_def)
  ultimately show ?thesis by (intro exI [of _ e] exI [of _ tm]) (simp add: prod_eq_iff)
qed

end
