(* ===== verification/CList.thy ===== *)
theory CList
  imports Timeout
begin

text \<open>
  The LIST container (src/zcloud/zstorage/zstorage/c_list.h, c_list.cpp): a bounded queue whose
  elements are records \<open>key@id\<close> of the database, with 16-bit identifiers that wrap around, and whose
  identifier sequence is the record \<open>key\<close>.  The object caches the identifiers.  The development
  shows that it refines a bounded queue of values, that what it stores is what a fresh object
  loads, and what a failed write does to it.
\<close>

section \<open>State\<close>

record clist =
  l_init :: bool
  l_key :: string
  l_list :: "u16 list"
  l_effective :: u32
  l_max_list :: u16
  l_head :: zmsg_head

definition clist_new :: "zenv \<Rightarrow> string \<Rightarrow> clist" where
  "clist_new e key = \<lparr>l_init = False, l_key = key, l_list = [],
     l_effective = time32 e + object_effective (cfg e),
     l_max_list = list_max_count (cfg e), l_head = base_head T_LIST\<rparr>"

section \<open>Records\<close>

text \<open>\<^verbatim>\<open>__tos(m_key << "@" << keyId)\<close>.\<close>

definition item_key :: "string \<Rightarrow> u16 \<Rightarrow> string" where
  "item_key key keyId = key @ ''@'' @ itostr (int (unat keyId))"

definition list_del_key :: "clist \<Rightarrow> batch_op list \<Rightarrow> u16 \<Rightarrow> batch_op list" where
  "list_del_key l bh keyId = bh @ [Batch_Delete (item_key (l_key l) keyId)]"

definition list_body :: "u16 list \<Rightarrow> bytes" where
  "list_body ids = concat (map (\<lambda>i. u16_mem (ntohs i)) ids)"

definition list_update_bh :: "clist \<Rightarrow> batch_op list \<Rightarrow> batch_op list" where
  "list_update_bh l bh =
     (let body = list_body (l_list l); head = s_crc (crc16 0 body) (l_head l)
      in bh @ [Batch_Put (l_key l) (head_mem head @ body)])"

definition list_get_keyId :: "clist \<Rightarrow> u16" where
  "list_get_keyId l = (if l_list l = [] then 1 else last (l_list l) + 1)"

definition list_push :: "clist \<Rightarrow> batch_op list \<Rightarrow> bytes \<Rightarrow> clist \<times> batch_op list" where
  "list_push l bh value =
     (let keyId = list_get_keyId l
      in (l\<lparr>l_list := l_list l @ [keyId]\<rparr>, bh @ [Batch_Put (item_key (l_key l) keyId) value]))"

definition list_get :: "dbase \<Rightarrow> clist \<Rightarrow> u16 \<Rightarrow> string option" where
  "list_get db l keyId = base_get db (item_key (l_key l) keyId)"

definition list_delete :: "clist \<Rightarrow> batch_op list \<Rightarrow> batch_op list" where
  "list_delete l bh = bh @ [Batch_Delete (l_key l)]"

fun read_ids :: "bytes \<Rightarrow> u16 list" where
  "read_ids (a # b # r) = htons (mem_u16 [a, b]) # read_ids r"
| "read_ids _ = []"

definition list_load_value :: "clist \<Rightarrow> bytes \<Rightarrow> zmsg_head \<Rightarrow> clist option" where
  "list_load_value l value head =
     (if length value mod 2 \<noteq> 0 then None
      else if h_type head \<noteq> T_LIST then None
      else Some (l\<lparr>l_head := head, l_list := l_list l @ read_ids (drop HEAD_LEN value)\<rparr>))"

definition list_init :: "zenv \<Rightarrow> dbase \<Rightarrow> clist \<Rightarrow> clist \<times> bool" where
  "list_init e db l =
     (let l1 = l\<lparr>l_effective := time32 e + object_effective (cfg e)\<rparr>
      in if l_init l1 then (l1, True)
         else case get_value db (l_key l1) of
             Inl _ \<Rightarrow> (l1\<lparr>l_init := True\<rparr>, True)
           | Inr (value, head) \<Rightarrow>
               (case list_load_value l1 value head of
                  None \<Rightarrow> (l1, False)
                | Some l2 \<Rightarrow> (l2\<lparr>l_init := True\<rparr>, True)))"

section \<open>Commands\<close>

text \<open>The macro \<^verbatim>\<open>LIST_INIT\<close> around the rest of a command.\<close>

definition with_init :: "zenv \<Rightarrow> clist \<Rightarrow> zworld \<Rightarrow> ostream \<Rightarrow>
    (clist \<Rightarrow> clist \<times> zworld \<times> ostream) \<Rightarrow> clist \<times> zworld \<times> ostream" where
  "with_init e l w io rest =
     (case list_init e (w_db w) l of
        (l', False) \<Rightarrow> (l', w, zerror_result io ''list init error.'')
      | (l', True) \<Rightarrow> rest l')"

text \<open>
  \<^verbatim>\<open>push\<close>.  On an empty list with a limit of 0 the code takes \<^verbatim>\<open>front()\<close> of an empty list, which is
  undefined, as \<open>hd []\<close> is here.
\<close>

definition clist_push :: "zenv \<Rightarrow> bytes \<Rightarrow> clist \<Rightarrow> zworld \<Rightarrow> ostream \<Rightarrow> clist \<times> zworld \<times> ostream" where
  "clist_push e data l0 w io = with_init e l0 w io (\<lambda>l.
     let (l1, bh1) =
           (if unat (l_max_list l) \<le> length (l_list l)
            then (l\<lparr>l_list := tl (l_list l)\<rparr>, list_del_key l [] (hd (l_list l)))
            else (l, []));
         (l2, bh2) = list_push l1 bh1 data;
         (db, ok) = db_write (w_db w) (list_update_bh l2 bh2)
     in (l2, w\<lparr>w_db := db\<rparr>, if ok then io_OK io else zerror_result io ''write error.''))"

definition clist_pop :: "zenv \<Rightarrow> clist \<Rightarrow> zworld \<Rightarrow> ostream \<Rightarrow> clist \<times> zworld \<times> ostream" where
  "clist_pop e l0 w io = with_init e l0 w io (\<lambda>l.
     case l_list l of
       [] \<Rightarrow> (l, w, zerror_result io ''empty.'')
     | keyId # ids \<Rightarrow>
         (let l1 = l\<lparr>l_list := ids\<rparr>
          in case list_get (w_db w) l1 keyId of
               None \<Rightarrow> (l1, w, zerror_result io ''list get error.'')
             | Some value \<Rightarrow>
                 (let (db, ok) = db_write (w_db w) (list_update_bh l1 (list_del_key l1 [] keyId))
                  in (l1, w\<lparr>w_db := db\<rparr>,
                      if ok then os_push_buf (io_OK io) value
                      else zerror_result io ''list write error.''))))"

definition push_found :: "dbase \<Rightarrow> clist \<Rightarrow> u16 \<Rightarrow> ostream \<Rightarrow> ostream" where
  "push_found db l keyId io =
     (case list_get db l keyId of None \<Rightarrow> io | Some value \<Rightarrow> os_push_buf io value)"

definition clist_limit :: "zenv \<Rightarrow> u32 \<Rightarrow> clist \<Rightarrow> zworld \<Rightarrow> ostream \<Rightarrow> clist \<times> zworld \<times> ostream" where
  "clist_limit e count l0 w io = with_init e l0 w io (\<lambda>l.
     (l, w, fold (push_found (w_db w) l) (take (unat count) (l_list l)) (io_OK io)))"

definition clist_size :: "zenv \<Rightarrow> clist \<Rightarrow> zworld \<Rightarrow> ostream \<Rightarrow> clist \<times> zworld \<times> ostream" where
  "clist_size e l0 w io = with_init e l0 w io (\<lambda>l.
     (l, w, os_push_str (io_OK io) (itostr (int (length (l_list l))))))"

text \<open>\<^verbatim>\<open>time_\<close>: the difference is taken in 64-bit arithmetic.\<close>

definition rest_time :: "zenv \<Rightarrow> zmsg_head \<Rightarrow> u32" where
  "rest_time e h = (if int (unat (g_effective h)) - int (now e) > 0
     then word_of_int (int (unat (g_effective h)) - int (now e)) else 0)"

definition clist_time :: "zenv \<Rightarrow> clist \<Rightarrow> zworld \<Rightarrow> ostream \<Rightarrow> clist \<times> zworld \<times> ostream" where
  "clist_time e l0 w io = with_init e l0 w io (\<lambda>l.
     (l, w, os_push_str (io_OK io) (itostr (int (unat (rest_time e (l_head l)))))))"

text \<open>The loop of \<^verbatim>\<open>update\<close> over the parameters from \<open>index + 1\<close> on, up to a missing or empty one.\<close>

function update_loop :: "istream \<Rightarrow> nat \<Rightarrow> clist \<Rightarrow> batch_op list \<Rightarrow> clist \<times> batch_op list" where
  "update_loop p index l bh =
     (case istream_get p (index + 1) of
        None \<Rightarrow> (l, bh)
      | Some (ptr, len) \<Rightarrow>
          if len \<le> 0 then (l, bh)
          else let (l', bh') = list_push l bh (take (nat len) ptr)
               in update_loop p (index + 1) l' bh')"
  by pat_completeness auto
termination
  by (relation "measure (\<lambda>(p, index, l, bh). length (is_vp p) - index)")
    (auto simp: istream_get_def split: if_splits)

declare update_loop.simps [simp del]

definition clist_update :: "zenv \<Rightarrow> istream \<Rightarrow> nat \<Rightarrow> clist \<Rightarrow> zworld \<Rightarrow> ostream \<Rightarrow> clist \<times> zworld \<times> ostream" where
  "clist_update e p index l0 w io = with_init e l0 w io (\<lambda>l.
     let bh = fold (\<lambda>i bh. list_del_key l bh i) (l_list l) [];
         (l1, bh1) = update_loop p index (l\<lparr>l_list := []\<rparr>) bh;
         (db, ok) = db_write (w_db w) (list_update_bh l1 bh1)
     in (l1, w\<lparr>w_db := db\<rparr>, if ok then io_OK io else zerror_result io ''list write error.''))"

fun seek_loop :: "dbase \<Rightarrow> clist \<Rightarrow> int \<Rightarrow> u32 \<Rightarrow> u16 list \<Rightarrow> ostream \<Rightarrow> ostream" where
  "seek_loop db l iseek ilimit [] io = io"
| "seek_loop db l iseek ilimit (i # ids) io =
     (if ilimit = 0 then io
      else if iseek > 0 then seek_loop db l (iseek - 1) ilimit ids io
      else case list_get db l i of
          None \<Rightarrow> seek_loop db l (iseek - 1) ilimit ids io
        | Some value \<Rightarrow> seek_loop db l (iseek - 1) (ilimit - 1) ids (os_push_buf io value))"

text \<open>\<^verbatim>\<open>seek\<close>: a negative position is converted to an unsigned number above every size.\<close>

definition clist_seek :: "zenv \<Rightarrow> int \<Rightarrow> u32 \<Rightarrow> clist \<Rightarrow> zworld \<Rightarrow> ostream \<Rightarrow> clist \<times> zworld \<times> ostream" where
  "clist_seek e iseek ilimit l0 w io = with_init e l0 w io (\<lambda>l.
     (l, w, if iseek < 0 \<or> int (length (l_list l)) \<le> iseek then io_OK io
            else seek_loop (w_db w) l iseek ilimit (l_list l) (io_OK io)))"

definition clist_expire :: "zenv \<Rightarrow> u32 \<Rightarrow> clist \<Rightarrow> zworld \<Rightarrow> ostream \<Rightarrow> clist \<times> zworld \<times> ostream" where
  "clist_expire e ms l0 w io = with_init e l0 w io (\<lambda>l.
     let l1 = l\<lparr>l_head := s_effective (time32 e + ms) (l_head l)\<rparr>;
         (db, ok) = db_write (w_db w) (list_update_bh l1 [])
     in if ok
        then (l1, w\<lparr>w_db := db, w_tmo := timeout_push e (h_type (l_head l1)) (l_key l1) ms (w_tmo w)\<rparr>,
              io_OK io)
        else (l1, w\<lparr>w_db := db\<rparr>, zerror_result io ''list write error.''))"

definition clist_remove :: "zenv \<Rightarrow> clist \<Rightarrow> zworld \<Rightarrow> ostream \<Rightarrow> clist \<times> zworld \<times> ostream" where
  "clist_remove e l0 w io = with_init e l0 w io (\<lambda>l.
     let bh = fold (\<lambda>i bh. list_del_key l bh i) (l_list l) [];
         l1 = l\<lparr>l_list := []\<rparr>;
         (db, ok) = db_write (w_db w) (list_delete l1 bh)
     in (l1, w\<lparr>w_db := db\<rparr>, if ok then io_OK io else zerror_result io ''list write error.''))"

definition clist_is_release :: "zenv \<Rightarrow> clist \<Rightarrow> bool" where
  "clist_is_release e l \<longleftrightarrow> now e > unat (l_effective l)"

section \<open>Keys and identifiers\<close>

lemma item_key_inject [simp]: "item_key k i = item_key k j \<longleftrightarrow> i = j"
  by (simp add: item_key_def itostr_uint_inject)

lemma item_key_neq [simp]: "item_key k i \<noteq> k" "k \<noteq> item_key k i"
  by (auto simp: item_key_def append_eq_append_conv2 dest: arg_cong [of _ _ length])

text \<open>Identifiers that count up by one, modulo \<open>2 ^ 16\<close>.\<close>

fun consec :: "u16 list \<Rightarrow> bool" where
  "consec (a # b # r) \<longleftrightarrow> b = a + 1 \<and> consec (b # r)"
| "consec _ \<longleftrightarrow> True"

lemma consec_tl [simp]: "consec ids \<Longrightarrow> consec (tl ids)"
  by (induction ids rule: consec.induct) auto

lemma consec_snoc: "consec ids \<Longrightarrow> ids \<noteq> [] \<Longrightarrow> consec (ids @ [last ids + 1])"
  by (induction ids rule: consec.induct) auto

lemma consec_nth: "consec ids \<Longrightarrow> i < length ids \<Longrightarrow> ids ! i = hd ids + of_nat i"
proof (induction ids arbitrary: i rule: consec.induct)
  case (1 a b r)
  then show ?case by (cases i) (auto simp: add.assoc)
qed auto

lemma consec_distinct:
  assumes "consec ids" and "length ids \<le> 65536"
  shows "distinct ids"
proof (clarsimp simp: distinct_conv_nth)
  fix i j assume *: "i < length ids" "j < length ids" "i \<noteq> j" "ids ! i = ids ! j"
  then have "of_nat i = (of_nat j :: u16)" using assms(1) by (simp add: consec_nth)
  then have "unat (of_nat i :: u16) = unat (of_nat j :: u16)" by simp
  moreover have "i < 65536" "j < 65536" using * assms(2) by auto
  ultimately have "i = j" by (simp add: unat_of_nat take_bit_eq_mod)
  with * show False by simp
qed

section \<open>Loading what was stored\<close>

lemma length_list_body [simp]: "length (list_body ids) = 2 * length ids"
  by (induction ids) (simp_all add: list_body_def)

lemma list_body_empty [simp]: "list_body ids = [] \<longleftrightarrow> ids = []"
  using length_list_body [of ids] by (metis length_0_conv mult_is_0 zero_neq_numeral)

lemma read_ids_body [simp]: "read_ids (list_body ids) = ids"
proof (induction ids)
  case (Cons i ids)
  obtain a b where ab: "u16_mem (ntohs i) = [a, b]"
    using length_mem(2) [of "ntohs i"] by (metis (no_types) One_nat_def Suc_1 length_0_conv length_Suc_conv)
  then have "mem_u16 [a, b] = ntohs i" using u16.dec_enc [of "ntohs i" "[]"] by simp
  with Cons ab show ?case by (simp add: list_body_def)
qed (simp add: list_body_def)

definition list_record :: "clist \<Rightarrow> bytes" where
  "list_record l = head_mem (s_crc (crc16 0 (list_body (l_list l))) (l_head l)) @ list_body (l_list l)"

lemma list_update_record: "list_update_bh l bh = bh @ [Batch_Put (l_key l) (list_record l)]"
  by (simp add: list_update_bh_def list_record_def Let_def)

text \<open>A fresh object loads the identifiers and the header of the object that stored the record.\<close>

lemma list_init_reload:
  assumes "db_get db (l_key l) = Some (list_record l)" and "l_list l \<noteq> []"
    and "h_type (l_head l) = T_LIST" and "\<not> l_init l0" and "l_key l0 = l_key l" and "l_list l0 = []"
  shows "list_init e db l0 = (l0\<lparr>l_init := True, l_list := l_list l,
      l_head := s_crc (crc16 0 (list_body (l_list l))) (l_head l),
      l_effective := time32 e + object_effective (cfg e)\<rparr>, True)"
proof -
  have "get_value db (l_key l) = Inr (list_record l, s_crc (crc16 0 (list_body (l_list l))) (l_head l))"
    using assms(1-3) by (simp add: list_record_def get_value_stored)
  moreover have "length (list_record l) mod 2 = 0" "drop HEAD_LEN (list_record l) = list_body (l_list l)"
    by (simp_all add: list_record_def)
  ultimately show ?thesis
    using assms(3-6) by (simp add: list_init_def list_load_value_def Let_def)
qed

section \<open>The bounded queue\<close>

text \<open>\<open>list_rep db l vs\<close>: the object \<open>l\<close> holds the values \<open>vs\<close>, oldest first.\<close>

definition list_rep :: "dbase \<Rightarrow> clist \<Rightarrow> bytes list \<Rightarrow> bool" where
  "list_rep db l vs \<longleftrightarrow> l_init l \<and> h_type (l_head l) = T_LIST \<and> consec (l_list l) \<and>
     length (l_list l) \<le> 65535 \<and>
     list_all2 (\<lambda>i v. db_get db (item_key (l_key l) i) = Some v) (l_list l) vs"

definition list_stored :: "dbase \<Rightarrow> clist \<Rightarrow> bool" where
  "list_stored db l \<longleftrightarrow> db_get db (l_key l) = Some (list_record l) \<or>
     l_list l = [] \<and> (db_get db (l_key l) = None \<or> (\<exists>h. db_get db (l_key l) = Some (head_mem h)))"

datatype list_op = L_Push bytes | L_Pop | L_Size | L_Limit u32 | L_Seek int u32 | L_Remove
  | L_Expire u32 | L_Update istream nat

fun clist_step :: "zenv \<Rightarrow> list_op \<Rightarrow> clist \<Rightarrow> zworld \<Rightarrow> ostream \<Rightarrow> clist \<times> zworld \<times> ostream" where
  "clist_step e (L_Push v) l w io = clist_push e v l w io"
| "clist_step e L_Pop l w io = clist_pop e l w io"
| "clist_step e L_Size l w io = clist_size e l w io"
| "clist_step e (L_Limit n) l w io = clist_limit e n l w io"
| "clist_step e (L_Seek s n) l w io = clist_seek e s n l w io"
| "clist_step e L_Remove l w io = clist_remove e l w io"
| "clist_step e (L_Expire ms) l w io = clist_expire e ms l w io"
| "clist_step e (L_Update p index) l w io = clist_update e p index l w io"

definition push_all :: "bytes list \<Rightarrow> ostream \<Rightarrow> ostream" where
  "push_all vs io = fold (\<lambda>v io. os_push_buf io v) vs io"

text \<open>The values \<^verbatim>\<open>update\<close> takes from its parameters.\<close>

function update_values :: "istream \<Rightarrow> nat \<Rightarrow> bytes list" where
  "update_values p index =
     (case istream_get p (index + 1) of
        None \<Rightarrow> []
      | Some (ptr, len) \<Rightarrow> if len \<le> 0 then [] else take (nat len) ptr # update_values p (index + 1))"
  by pat_completeness auto
termination
  by (relation "measure (\<lambda>(p, index). length (is_vp p) - index)")
    (auto simp: istream_get_def split: if_splits)

declare update_values.simps [simp del]

text \<open>The specification: a queue of at most \<open>max\<close> values that drops its oldest value when full.\<close>

fun queue_step :: "nat \<Rightarrow> list_op \<Rightarrow> bytes list \<Rightarrow> ostream \<Rightarrow> bytes list \<times> ostream" where
  "queue_step mx (L_Push v) vs io = ((if mx \<le> length vs then tl vs else vs) @ [v], io_OK io)"
| "queue_step mx L_Pop vs io =
     (case vs of [] \<Rightarrow> ([], zerror_result io ''empty.'') | v # r \<Rightarrow> (r, os_push_buf (io_OK io) v))"
| "queue_step mx L_Size vs io = (vs, os_push_str (io_OK io) (itostr (int (length vs))))"
| "queue_step mx (L_Limit n) vs io = (vs, push_all (take (unat n) vs) (io_OK io))"
| "queue_step mx (L_Seek s n) vs io =
     (vs, if s < 0 \<or> int (length vs) \<le> s then io_OK io
          else push_all (take (unat n) (drop (nat s) vs)) (io_OK io))"
| "queue_step mx L_Remove vs io = ([], io_OK io)"
| "queue_step mx (L_Expire ms) vs io = (vs, io_OK io)"
| "queue_step mx (L_Update p index) vs io = (update_values p index, io_OK io)"

lemma list_rep_init:
  "list_rep db l vs \<Longrightarrow>
     list_init e db l = (l\<lparr>l_effective := time32 e + object_effective (cfg e)\<rparr>, True)"
  by (simp add: list_rep_def list_init_def)

lemma with_init_rep:
  "list_rep (w_db w) l vs \<Longrightarrow>
     with_init e l w io f = f (l\<lparr>l_effective := time32 e + object_effective (cfg e)\<rparr>)"
  by (simp add: with_init_def list_rep_init)

lemma list_rep_effective [simp]: "list_rep db (l\<lparr>l_effective := t\<rparr>) vs = list_rep db l vs"
  by (simp add: list_rep_def)

lemma list_rep_length: "list_rep db l vs \<Longrightarrow> length (l_list l) = length vs"
  by (auto simp: list_rep_def list_all2_lengthD)

lemma list_all2_get:
  "list_all2 (\<lambda>i v. db_get db (item_key k i) = Some v) ids vs \<Longrightarrow> l_key l = k \<Longrightarrow>
     fold (push_found db l) ids io = push_all vs io"
  by (induction ids vs arbitrary: io rule: list_all2_induct)
    (auto simp: push_found_def list_get_def base_get_def push_all_def)

text \<open>The effect of deleting a list of identifiers.\<close>

lemma fold_del_keys: "fold (\<lambda>i bh. list_del_key l bh i) ids bh =
    bh @ map (\<lambda>i. Batch_Delete (item_key (l_key l) i)) ids"
  by (induction ids arbitrary: bh) (simp_all add: list_del_key_def)

lemma last_write_deletes:
  "last_write (map (\<lambda>i. Batch_Delete (f i)) ids) k = (if k \<in> f ` set ids then Some None else None)"
  by (induction ids) (auto split: option.splits)

subsection \<open>Push\<close>

lemma push_rep:
  fixes v :: bytes
  assumes rep: "list_rep db l vs" and rel: "db_reliable db" and mx: "0 < unat (l_max_list l)"
  defines "l1 \<equiv> if unat (l_max_list l) \<le> length (l_list l) then l\<lparr>l_list := tl (l_list l)\<rparr> else l"
    and "bh1 \<equiv> if unat (l_max_list l) \<le> length (l_list l) then list_del_key l [] (hd (l_list l)) else []"
  defines "l2 \<equiv> fst (list_push l1 bh1 v)" and "bh2 \<equiv> snd (list_push l1 bh1 v)"
  shows "list_rep (fst (db_write db (list_update_bh l2 bh2))) l2
      ((if unat (l_max_list l) \<le> length vs then tl vs else vs) @ [v])"
    and "db_get (fst (db_write db (list_update_bh l2 bh2))) (l_key l) = Some (list_record l2)"
proof -
  let ?n = "list_get_keyId l1" and ?db = "fst (db_write db (list_update_bh l2 bh2))"
    and ?vs = "if unat (l_max_list l) \<le> length vs then tl vs else vs"
  have len: "length (l_list l) = length vs" using rep by (rule list_rep_length)
  have c: "consec (l_list l)" "length (l_list l) \<le> 65535"
    "list_all2 (\<lambda>i v. db_get db (item_key (l_key l) i) = Some v) (l_list l) vs"
    using rep by (auto simp: list_rep_def)
  have l2: "l2 = l1\<lparr>l_list := l_list l1 @ [?n]\<rparr>" "bh2 = bh1 @ [Batch_Put (item_key (l_key l1) ?n) v]"
    by (simp_all add: l2_def bh2_def list_push_def Let_def)
  have key: "l_key l1 = l_key l" "l_key l2 = l_key l" by (auto simp: l2 l1_def)
  have ids1: "l_list l1 = (if unat (l_max_list l) \<le> length vs then tl (l_list l) else l_list l)"
    by (simp add: l1_def len)
  have cs: "consec (l_list l2)"
    using c(1) consec_snoc [of "l_list l1"] by (auto simp: l2 ids1 list_get_keyId_def)
  have mxl: "unat (l_max_list l) \<le> 65535" using unat_bounds(2) [of "l_max_list l"] by simp
  have ln: "length (l_list l2) \<le> 65535"
    using mx mxl c(2) by (auto simp: l2 ids1 len)
  have dist: "distinct (l_list l2)" using cs ln by (intro consec_distinct) auto
  have all2: "list_all2 (\<lambda>i v. db_get db (item_key (l_key l) i) = Some v) (l_list l1) ?vs"
    using c(3) by (cases vs; cases "l_list l") (auto simp: ids1)
  have keep: "db_get ?db (item_key (l_key l) i) = db_get db (item_key (l_key l) i)"
    if i: "i \<in> set (l_list l1)" for i
  proof -
    have "i \<noteq> ?n" using dist i by (auto simp: l2)
    moreover have "unat (l_max_list l) \<le> length (l_list l) \<Longrightarrow> i \<noteq> hd (l_list l)"
      using i consec_distinct [OF c(1)] c(2) len by (cases "l_list l") (auto simp: ids1)
    ultimately show ?thesis
      by (simp add: db_write_reliable [OF rel] list_update_record l2 key bh1_def list_del_key_def)
  qed
  have new: "db_get ?db (item_key (l_key l) ?n) = Some v"
    by (simp add: db_write_reliable [OF rel] list_update_record l2 key last_write_append)
  have "list_all2 (\<lambda>i v. db_get ?db (item_key (l_key l) i) = Some v) (l_list l1) ?vs"
    using all2 keep by (auto simp: list_all2_conv_all_nth)
  then have "list_all2 (\<lambda>i v. db_get ?db (item_key (l_key l) i) = Some v) (l_list l2) (?vs @ [v])"
    using new by (simp add: l2 list_all2_appendI)
  then show "list_rep ?db l2 (?vs @ [v])"
    using rep cs ln key by (auto simp: list_rep_def l2 l1_def)
  show "db_get ?db (l_key l) = Some (list_record l2)"
    by (simp add: db_write_reliable [OF rel] list_update_record key last_write_append)
qed

subsection \<open>Update\<close>

lemma update_loop_spec:
  "update_loop p index l bh = fold (\<lambda>v s. list_push (fst s) (snd s) v) (update_values p index) (l, bh)"
proof (induction p index l bh rule: update_loop.induct)
  case (1 p index l bh)
  show ?case
    by (subst update_loop.simps, subst update_values.simps)
      (use "1.IH" in \<open>auto simp: Let_def split_beta split: option.splits\<close>)
qed

text \<open>Pushing values one after the other onto a list with consecutive identifiers.\<close>

lemma fold_list_push:
  assumes "consec (l_list l)" and "length (l_list l) + length vs \<le> 65535"
    and "fold (\<lambda>v s. list_push (fst s) (snd s) v) vs (l, bh) = (l', bh')"
  shows "\<exists>new. l' = l\<lparr>l_list := l_list l @ new\<rparr> \<and> length new = length vs \<and> consec (l_list l') \<and>
    bh' = bh @ map2 (\<lambda>i v. Batch_Put (item_key (l_key l) i) v) new vs"
  using assms
proof (induction vs arbitrary: l bh)
  case (Cons v vs)
  let ?n = "list_get_keyId l" and ?l = "fst (list_push l bh v)" and ?bh = "snd (list_push l bh v)"
  have l: "?l = l\<lparr>l_list := l_list l @ [?n]\<rparr>" "?bh = bh @ [Batch_Put (item_key (l_key l) ?n) v]"
    by (simp_all add: list_push_def Let_def)
  have c: "consec (l_list ?l)"
    using Cons.prems(1) consec_snoc [of "l_list l"] by (auto simp: l list_get_keyId_def)
  have ln: "length (l_list ?l) + length vs \<le> 65535" using Cons.prems(2) by (simp add: l)
  have "fold (\<lambda>v s. list_push (fst s) (snd s) v) vs (?l, ?bh) = (l', bh')" using Cons.prems(3) by simp
  from Cons.IH [OF c ln this] obtain new where "l' = ?l\<lparr>l_list := l_list ?l @ new\<rparr>"
    "length new = length vs" "consec (l_list l')"
    "bh' = ?bh @ map2 (\<lambda>i v. Batch_Put (item_key (l_key ?l) i) v) new vs" by blast
  then show ?case by (intro exI [of _ "?n # new"]) (simp add: l)
qed simp

lemma last_write_puts:
  "distinct ids \<Longrightarrow> length ids = length vs \<Longrightarrow> i < length ids \<Longrightarrow>
     last_write (map2 (\<lambda>i v. Batch_Put (item_key k i) v) ids vs) (item_key k (ids ! i)) = Some (Some (vs ! i))"
proof (induction ids arbitrary: vs i)
  case (Cons j ids)
  obtain v vs' where vs: "vs = v # vs'" using Cons.prems(2) by (cases vs) auto
  show ?case
  proof (cases i)
    case 0
    have "last_write (map2 (\<lambda>i v. Batch_Put (item_key k i) v) ids vs') (item_key k j) = None"
      if "j \<notin> set ids" for vs'
      using that by (induction ids arbitrary: vs') (auto simp: zip_Cons1 split: list.splits)
    with 0 Cons.prems(1) vs show ?thesis by simp
  qed (use Cons vs in \<open>auto split: option.splits\<close>)
qed simp

lemma update_rep:
  assumes rep: "list_rep db l vs0" and rel: "db_reliable db" and len: "length vs \<le> 65535"
    and l1: "fold (\<lambda>v s. list_push (fst s) (snd s) v) vs (l\<lparr>l_list := []\<rparr>,
      map (\<lambda>i. Batch_Delete (item_key (l_key l) i)) (l_list l)) = (l1, bh1)"
  shows "list_rep (fst (db_write db (list_update_bh l1 bh1))) l1 vs"
    and "db_get (fst (db_write db (list_update_bh l1 bh1))) (l_key l1) = Some (list_record l1)"
    and "l_key l1 = l_key l"
proof -
  let ?db = "fst (db_write db (list_update_bh l1 bh1))"
  obtain new where n: "l1 = l\<lparr>l_list := new\<rparr>" "length new = length vs" "consec new"
      "bh1 = map (\<lambda>i. Batch_Delete (item_key (l_key l) i)) (l_list l) @
        map2 (\<lambda>i v. Batch_Put (item_key (l_key l) i) v) new vs"
    using fold_list_push [OF _ _ l1] len by auto
  have d: "distinct new" using consec_distinct [OF n(3)] n(2) len by simp
  have "db_get ?db (item_key (l_key l) (new ! i)) = Some (vs ! i)" if "i < length new" for i
    using last_write_puts [OF d n(2) that, of "l_key l"]
    by (simp add: db_write_reliable [OF rel] list_update_record last_write_append n(1,4))
  then have "list_all2 (\<lambda>i v. db_get ?db (item_key (l_key l) i) = Some v) new vs"
    using n(2) by (simp add: list_all2_conv_all_nth)
  then show "list_rep ?db l1 vs" using rep n len by (simp add: list_rep_def)
  show "db_get ?db (l_key l1) = Some (list_record l1)" "l_key l1 = l_key l"
    by (simp_all add: db_write_reliable [OF rel] list_update_record last_write_append n(1))
qed

subsection \<open>The simulation\<close>

lemma seek_loop_spec:
  assumes "list_all2 (\<lambda>i v. db_get db (item_key (l_key l) i) = Some v) ids vs"
  shows "seek_loop db l s n ids io = push_all (take (unat n) (drop (nat s) vs)) io"
  using assms
proof (induction ids vs arbitrary: s n io rule: list_all2_induct)
  case (Cons i ids v vs)
  have get: "list_get db l i = Some v" using Cons by (simp add: list_get_def base_get_def)
  consider "n = 0" | "n \<noteq> 0" "s > 0" | "n \<noteq> 0" "\<not> s > 0" by blast
  then show ?case
  proof cases
    case 2
    then have "nat s = Suc (nat (s - 1))" by simp
    with 2 Cons.IH show ?thesis by simp
  next
    case 3
    have "unat n \<noteq> 0" using 3(1) by (simp add: unat_eq_zero)
    then have "unat n = Suc (unat (n - 1))" using unat_minus_one [OF 3(1)] by linarith
    with 3 get Cons.IH [of "s - 1" "n - 1"] show ?thesis by (simp add: push_all_def)
  qed (simp add: push_all_def)
qed (simp add: push_all_def)

lemma list_rep_cong:
  assumes "list_rep db l vs" and "\<And>i. db_get db' (item_key (l_key l) i) = db_get db (item_key (l_key l) i)"
  shows "list_rep db' l vs"
  using assms by (simp add: list_rep_def)

definition op_ok :: "list_op \<Rightarrow> bool" where
  "op_ok op \<longleftrightarrow> (case op of L_Update p index \<Rightarrow> length (update_values p index) \<le> 65535 | _ \<Rightarrow> True)"

definition list_sim :: "zworld \<Rightarrow> clist \<Rightarrow> bytes list \<Rightarrow> bool" where
  "list_sim w l vs \<longleftrightarrow> list_rep (w_db w) l vs \<and> list_stored (w_db w) l \<and> db_reliable (w_db w) \<and>
     0 < unat (l_max_list l)"

lemma list_record_effective [simp]: "list_record (l\<lparr>l_effective := t\<rparr>) = list_record l"
  by (simp add: list_record_def)

lemma list_stored_effective [simp]: "list_stored db (l\<lparr>l_effective := t\<rparr>) = list_stored db l"
  by (simp add: list_stored_def)

lemma list_sim_effective [simp]: "list_sim w (l\<lparr>l_effective := t\<rparr>) vs = list_sim w l vs"
  by (simp add: list_sim_def)

lemma with_init_sim:
  "list_sim w l vs \<Longrightarrow> with_init e l w io f = f (l\<lparr>l_effective := time32 e + object_effective (cfg e)\<rparr>)"
  by (auto simp: list_sim_def intro: with_init_rep)

lemma step_push:
  assumes "list_sim w l vs"
  shows "\<exists>l' w'. clist_push e v l w io = (l', w', io_OK io) \<and> l_key l' = l_key l \<and>
    l_max_list l' = l_max_list l \<and>
    list_sim w' l' ((if unat (l_max_list l) \<le> length vs then tl vs else vs) @ [v])"
proof -
  define l0 where "l0 = l\<lparr>l_effective := time32 e + object_effective (cfg e)\<rparr>"
  define l1 where "l1 = (if unat (l_max_list l0) \<le> length (l_list l0) then l0\<lparr>l_list := tl (l_list l0)\<rparr> else l0)"
  define bh1 where "bh1 = (if unat (l_max_list l0) \<le> length (l_list l0)
    then list_del_key l0 [] (hd (l_list l0)) else [])"
  define l2 where "l2 = fst (list_push l1 bh1 v)"
  define bh2 where "bh2 = snd (list_push l1 bh1 v)"
  let ?db = "fst (db_write (w_db w) (list_update_bh l2 bh2))"
  have s: "list_rep (w_db w) l0 vs" "db_reliable (w_db w)" "0 < unat (l_max_list l0)"
    using assms by (auto simp: list_sim_def l0_def)
  note p = push_rep [OF s, where v = v, folded l1_def bh1_def, folded l2_def bh2_def]
  have k: "l_key l2 = l_key l" "l_max_list l2 = l_max_list l"
    by (auto simp: l2_def list_push_def l1_def l0_def Let_def)
  have "clist_push e v l w io = (l2, w\<lparr>w_db := ?db\<rparr>, io_OK io)"
    unfolding clist_push_def with_init_sim [OF assms] l0_def [symmetric] Let_def
    using db_write_reliable(1) [OF s(2), of "list_update_bh l2 bh2"]
    by (auto simp: l2_def bh2_def l1_def bh1_def split_beta)
  moreover have "list_sim (w\<lparr>w_db := ?db\<rparr>) l2 ((if unat (l_max_list l) \<le> length vs then tl vs else vs) @ [v])"
    using p s(3) k db_write_reliable(2) [OF s(2)]
    by (auto simp: list_sim_def list_stored_def l0_def)
  ultimately show ?thesis using k by blast
qed

lemma step_pop:
  assumes "list_sim w l vs"
  shows "\<exists>l' w'. clist_pop e l w io = (l', w', snd (queue_step mx L_Pop vs io)) \<and>
    l_key l' = l_key l \<and> l_max_list l' = l_max_list l \<and> list_sim w' l' (tl vs)"
proof -
  define l0 where "l0 = l\<lparr>l_effective := time32 e + object_effective (cfg e)\<rparr>"
  have s: "list_rep (w_db w) l0 vs" "list_sim w l0 vs" "db_reliable (w_db w)"
    using assms by (auto simp: list_sim_def l0_def)
  have k0: "l_key l0 = l_key l" "l_max_list l0 = l_max_list l" by (simp_all add: l0_def)
  show ?thesis
  proof (cases vs)
    case Nil
    then have "l_list l0 = []" using list_rep_length [OF s(1)] by simp
    then have "clist_pop e l w io = (l0, w, zerror_result io ''empty.'')"
      unfolding clist_pop_def with_init_sim [OF assms] l0_def [symmetric] by simp
    then show ?thesis using Nil s(2) k0 by auto
  next
    case (Cons v r)
    then obtain i ids where ids: "l_list l0 = i # ids"
      using list_rep_length [OF s(1)] by (cases "l_list l0") auto
    let ?l = "l0\<lparr>l_list := ids\<rparr>"
    let ?bh = "list_update_bh ?l (list_del_key ?l [] i)" let ?db = "fst (db_write (w_db w) ?bh)"
    have c: "consec (i # ids)" "length (i # ids) \<le> 65535" "db_get (w_db w) (item_key (l_key l0) i) = Some v"
      "list_all2 (\<lambda>i v. db_get (w_db w) (item_key (l_key l0) i) = Some v) ids r"
      using s(1) by (auto simp: list_rep_def ids Cons)
    have "db_get ?db (item_key (l_key l0) j) = db_get (w_db w) (item_key (l_key l0) j)" if "j \<in> set ids" for j
      using that consec_distinct [OF c(1)] c(2)
      by (auto simp: db_write_reliable [OF s(3)] list_update_record list_del_key_def)
    then have "list_all2 (\<lambda>i v. db_get ?db (item_key (l_key l0) i) = Some v) ids r"
      using c(4) by (auto simp: list_all2_conv_all_nth)
    then have rep: "list_rep ?db ?l r"
      using s(1) c consec_tl [OF c(1)] by (simp add: list_rep_def ids)
    have st: "db_get ?db (l_key ?l) = Some (list_record ?l)"
      by (simp add: db_write_reliable [OF s(3)] list_update_record last_write_append)
    have "clist_pop e l w io = (?l, w\<lparr>w_db := ?db\<rparr>, os_push_buf (io_OK io) v)"
      unfolding clist_pop_def with_init_sim [OF assms] l0_def [symmetric]
      using db_write_reliable(1) [OF s(3), of ?bh] c(3) by (simp add: ids list_get_def base_get_def Let_def split_beta)
    moreover have "list_sim (w\<lparr>w_db := ?db\<rparr>) ?l r"
      using rep st s(2) db_write_reliable(2) [OF s(3)] by (auto simp: list_sim_def list_stored_def)
    ultimately show ?thesis using k0 Cons by auto
  qed
qed

lemma step_update:
  assumes "list_sim w l vs" and len: "length (update_values p index) \<le> 65535"
  shows "\<exists>l' w'. clist_update e p index l w io = (l', w', io_OK io) \<and> l_key l' = l_key l \<and>
    l_max_list l' = l_max_list l \<and> list_sim w' l' (update_values p index)"
proof -
  define l0 where "l0 = l\<lparr>l_effective := time32 e + object_effective (cfg e)\<rparr>"
  obtain l1 bh1 where l1: "fold (\<lambda>v s. list_push (fst s) (snd s) v) (update_values p index)
      (l0\<lparr>l_list := []\<rparr>, map (\<lambda>i. Batch_Delete (item_key (l_key l0) i)) (l_list l0)) = (l1, bh1)"
    by force
  have s: "list_rep (w_db w) l0 vs" "db_reliable (w_db w)" "0 < unat (l_max_list l0)"
    using assms by (auto simp: list_sim_def l0_def)
  let ?db = "fst (db_write (w_db w) (list_update_bh l1 bh1))"
  note u = update_rep [OF s(1,2) len l1]
  have "\<exists>new. l1 = l0\<lparr>l_list := new\<rparr>" using fold_list_push [OF _ _ l1] len by auto
  then have k: "l_max_list l1 = l_max_list l" by (auto simp: l0_def)
  have "clist_update e p index l w io = (l1, w\<lparr>w_db := ?db\<rparr>, io_OK io)"
    unfolding clist_update_def with_init_sim [OF assms(1)] l0_def [symmetric]
    using l1 db_write_reliable(1) [OF s(2), of "list_update_bh l1 bh1"]
    by (simp add: fold_del_keys update_loop_spec Let_def split_beta)
  moreover have "list_sim (w\<lparr>w_db := ?db\<rparr>) l1 (update_values p index)"
    using u s(3) k db_write_reliable(2) [OF s(2)] by (simp add: list_sim_def list_stored_def l0_def)
  ultimately show ?thesis using k u(3) by (auto simp: l0_def)
qed

lemma step_remove:
  assumes "list_sim w l vs"
  shows "\<exists>l' w'. clist_remove e l w io = (l', w', io_OK io) \<and> l_key l' = l_key l \<and>
    l_max_list l' = l_max_list l \<and> list_sim w' l' []"
proof -
  define l0 where "l0 = l\<lparr>l_effective := time32 e + object_effective (cfg e)\<rparr>"
  let ?l = "l0\<lparr>l_list := []\<rparr>"
  let ?bh = "list_delete ?l (map (\<lambda>i. Batch_Delete (item_key (l_key l0) i)) (l_list l0))"
  let ?db = "fst (db_write (w_db w) ?bh)"
  have s: "db_reliable (w_db w)" "0 < unat (l_max_list l0)" "list_rep (w_db w) l0 vs"
    using assms by (auto simp: list_sim_def l0_def)
  have "db_get ?db (l_key ?l) = None"
    by (simp add: db_write_reliable [OF s(1)] list_delete_def last_write_append)
  moreover have "clist_remove e l w io = (?l, w\<lparr>w_db := ?db\<rparr>, io_OK io)"
    unfolding clist_remove_def with_init_sim [OF assms] l0_def [symmetric]
    using db_write_reliable(1) [OF s(1), of ?bh] by (simp add: fold_del_keys Let_def split_beta)
  ultimately show ?thesis
    using s db_write_reliable(2) [OF s(1)]
    by (auto simp: list_sim_def list_stored_def list_rep_def l0_def)
qed

lemma step_expire:
  assumes "list_sim w l vs"
  shows "\<exists>l' w'. clist_expire e ms l w io = (l', w', io_OK io) \<and> l_key l' = l_key l \<and>
    l_max_list l' = l_max_list l \<and> list_sim w' l' vs"
proof -
  define l1 where "l1 = l\<lparr>l_effective := time32 e + object_effective (cfg e),
    l_head := s_effective (time32 e + ms) (l_head l)\<rparr>"
  let ?bh = "list_update_bh l1 []" let ?db = "fst (db_write (w_db w) ?bh)"
  have s: "db_reliable (w_db w)" "0 < unat (l_max_list l1)" "list_rep (w_db w) l1 vs"
    using assms by (auto simp: list_sim_def l1_def list_rep_def)
  have "clist_expire e ms l w io = (l1, w\<lparr>w_db := ?db,
      w_tmo := timeout_push e (h_type (l_head l1)) (l_key l1) ms (w_tmo w)\<rparr>, io_OK io)"
    unfolding clist_expire_def with_init_sim [OF assms]
    using db_write_reliable(1) [OF s(1), of ?bh] by (simp add: l1_def Let_def split_beta)
  moreover have "db_get ?db (l_key l1) = Some (list_record l1)"
    by (simp add: db_write_reliable [OF s(1)] list_update_record)
  moreover have "list_rep ?db l1 vs"
    by (rule list_rep_cong [OF s(3)]) (simp add: db_write_reliable [OF s(1)] list_update_record)
  ultimately show ?thesis
    using s db_write_reliable(2) [OF s(1)] by (auto simp: list_sim_def list_stored_def l1_def)
qed

lemma step_read:
  fixes e :: zenv
  assumes "list_sim w l vs"
  defines "l0 \<equiv> l\<lparr>l_effective := time32 e + object_effective (cfg e)\<rparr>"
  shows "clist_size e l w io = (l0, w, snd (queue_step mx L_Size vs io))"
    and "clist_limit e n l w io = (l0, w, snd (queue_step mx (L_Limit n) vs io))"
    and "clist_seek e s n l w io = (l0, w, snd (queue_step mx (L_Seek s n) vs io))"
    and "list_sim w l0 vs"
proof -
  show "list_sim w l0 vs" using assms by simp
  then have r: "list_all2 (\<lambda>i v. db_get (w_db w) (item_key (l_key l0) i) = Some v) (l_list l0) vs"
      "length (l_list l0) = length vs"
    by (auto simp: list_sim_def list_rep_def list_all2_lengthD)
  show "clist_size e l w io = (l0, w, snd (queue_step mx L_Size vs io))"
    unfolding clist_size_def with_init_sim [OF assms(1)] l0_def [symmetric] by (simp add: r(2))
  show "clist_limit e n l w io = (l0, w, snd (queue_step mx (L_Limit n) vs io))"
    unfolding clist_limit_def with_init_sim [OF assms(1)] l0_def [symmetric]
    using list_all2_takeI [OF r(1), of "unat n"] by (simp add: list_all2_get)
  show "clist_seek e s n l w io = (l0, w, snd (queue_step mx (L_Seek s n) vs io))"
    unfolding clist_seek_def with_init_sim [OF assms(1)] l0_def [symmetric]
    using seek_loop_spec [OF r(1)] by (simp add: r(2))
qed

lemma clist_step_refines:
  assumes "list_sim w l vs" and "op_ok op"
  shows "\<exists>l' w'. clist_step e op l w io = (l', w', snd (queue_step (unat (l_max_list l)) op vs io)) \<and>
    l_key l' = l_key l \<and> l_max_list l' = l_max_list l \<and>
    list_sim w' l' (fst (queue_step (unat (l_max_list l)) op vs io))"
proof (cases op)
  case (L_Push v)
  then show ?thesis using step_push [OF assms(1), of e v io] by simp
next
  case L_Pop
  have "fst (queue_step (unat (l_max_list l)) L_Pop vs io) = tl vs" by (cases vs) auto
  with L_Pop show ?thesis using step_pop [OF assms(1), of e io "unat (l_max_list l)"] by simp
next
  case L_Remove
  then show ?thesis using step_remove [OF assms(1), of e io] by simp
next
  case (L_Expire ms)
  then show ?thesis using step_expire [OF assms(1), of e ms io] by simp
next
  case (L_Update p index)
  then show ?thesis
    using step_update [OF assms(1), of p index e io] assms(2) by (simp add: op_ok_def)
next
  case L_Size
  then show ?thesis using step_read(1,4) [OF assms(1)] by simp
next
  case (L_Limit n)
  then show ?thesis using step_read(2,4) [OF assms(1)] by simp
next
  case (L_Seek s n)
  then show ?thesis using step_read(3,4) [OF assms(1)] by simp
qed

text \<open>A sequence of commands, each with its own clock and its own reply.\<close>

fun clist_run :: "(zenv \<times> list_op) list \<Rightarrow> clist \<Rightarrow> zworld \<Rightarrow> clist \<times> zworld \<times> ostream list" where
  "clist_run [] l w = (l, w, [])"
| "clist_run ((e, op) # ops) l w =
     (let (l', w', io) = clist_step e op l w (Os_array []); (l'', w'', ios) = clist_run ops l' w'
      in (l'', w'', io # ios))"

fun queue_run :: "nat \<Rightarrow> list_op list \<Rightarrow> bytes list \<Rightarrow> bytes list \<times> ostream list" where
  "queue_run mx [] vs = (vs, [])"
| "queue_run mx (op # ops) vs =
     (let (vs', io) = queue_step mx op vs (Os_array []); (vs'', ios) = queue_run mx ops vs'
      in (vs'', io # ios))"

lemma clist_run_refines:
  assumes "list_sim w l vs" and "list_all op_ok (map snd ops)"
  shows "\<exists>l' w'. clist_run ops l w = (l', w', snd (queue_run (unat (l_max_list l)) (map snd ops) vs)) \<and>
    l_key l' = l_key l \<and> list_sim w' l' (fst (queue_run (unat (l_max_list l)) (map snd ops) vs))"
  using assms
proof (induction ops arbitrary: l w vs)
  case (Cons x ops)
  obtain e op where x: "x = (e, op)" by force
  have "op_ok op" "list_all op_ok (map snd ops)" using Cons.prems(2) by (simp_all add: x)
  with clist_step_refines [OF Cons.prems(1), of op e "Os_array []"] Cons.IH show ?case
    by (fastforce simp: x Let_def split_beta)
qed simp

text \<open>An object that has not read its record yet behaves as one that has.\<close>

lemma step_fresh:
  assumes "\<not> l_init l" and "l_list l = []" and "db_get (w_db w) (l_key l) = None"
  shows "clist_step e op l w io = clist_step e op (l\<lparr>l_init := True\<rparr>) w io"
proof -
  have "list_init e (w_db w) l = list_init e (w_db w) (l\<lparr>l_init := True\<rparr>)"
    using assms by (simp add: list_init_def)
  then have "with_init e l w io f = with_init e (l\<lparr>l_init := True\<rparr>) w io f" for f
    by (simp add: with_init_def)
  then show ?thesis
    by (cases op) (simp_all add: clist_push_def clist_pop_def clist_size_def clist_limit_def
        clist_seek_def clist_remove_def clist_expire_def clist_update_def)
qed

lemma list_sim_new:
  assumes "db_reliable (w_db w)" and "db_get (w_db w) key = None" and "0 < unat (list_max_count (cfg e))"
  shows "list_sim w ((clist_new e key)\<lparr>l_init := True\<rparr>) []"
  using assms by (simp add: list_sim_def list_rep_def list_stored_def clist_new_def)

lemma clist_run_fresh:
  assumes "db_get (w_db w) key = None"
  shows "clist_run ops (clist_new e key) w =
    (if ops = [] then (clist_new e key, w, []) else clist_run ops ((clist_new e key)\<lparr>l_init := True\<rparr>) w)"
proof (cases ops)
  case (Cons x r)
  then show ?thesis
    using step_fresh [of "clist_new e key" w] assms by (cases x) (simp add: clist_new_def)
qed simp

section \<open>Properties\<close>

text \<open>
  C15. On a database that accepts its writes, a LIST is a bounded queue: every sequence of PUSH,
  POP, SIZE, LIMIT, SEEK, EXPIRE, UPDATE and DEL answers what the same sequence on a plain queue of
  at most \<^verbatim>\<open>list_max_count\<close> values answers, although the 16-bit identifiers wrap around.
\<close>

theorem clist_is_bounded_queue:
  assumes "db_reliable (w_db w)" and "db_get (w_db w) key = None"
    and "0 < unat (list_max_count (cfg e))" and "list_all op_ok (map snd ops)"
  shows "snd (snd (clist_run ops (clist_new e key) w)) =
    snd (queue_run (unat (list_max_count (cfg e))) (map snd ops) [])"
proof (cases "ops = []")
  case False
  have mx: "l_max_list (clist_new e key) = list_max_count (cfg e)" by (simp add: clist_new_def)
  from clist_run_refines [OF list_sim_new [OF assms(1-3)] assms(4)] obtain l' w' where
    "clist_run ops ((clist_new e key)\<lparr>l_init := True\<rparr>) w =
      (l', w', snd (queue_run (unat (list_max_count (cfg e))) (map snd ops) []))"
    using mx by auto
  with False show ?thesis by (simp add: clist_run_fresh [OF assms(2)])
qed simp

theorem clist_is_bounded_queue_witness:
  "\<exists>e w. snd (snd (clist_run [(e, L_Push ''a''), (e, L_Push ''b''), (e, L_Push ''c''), (e, L_Pop)]
       (clist_new e ''k'') w)) =
     [io_OK (Os_array []), io_OK (Os_array []), io_OK (Os_array []), os_push_buf (io_OK (Os_array [])) ''b'']"
proof -
  define e where "e = \<lparr>now = 1000, cfg = server_default\<lparr>m_list_max_count := 2\<rparr>, junk = 0\<rparr>"
  define w where "w = \<lparr>w_db = \<lparr>db_map = [], db_ok = (\<lambda>_. True), db_tick = 0\<rparr>, w_tmo = timeout_new e\<rparr>"
  have "db_reliable (w_db w)" "db_get (w_db w) ''k'' = None"
    by (simp_all add: w_def db_reliable_def db_inv_def db_get_def)
  moreover have mx: "unat (list_max_count (cfg e)) = 2"
    by (simp add: e_def list_max_count_def server_default_def)
  ultimately show ?thesis
    using clist_is_bounded_queue [of w "''k''" e "[(e, L_Push ''a''), (e, L_Push ''b''), (e, L_Push ''c''), (e, L_Pop)]"]
    by (intro exI [of _ e] exI [of _ w]) (simp add: op_ok_def mx)
qed

text \<open>
  C16. Dropping the cached object and creating a new one, as the refresh thread and a restart do,
  changes nothing: what the new object loads represents the same values.
\<close>

theorem clist_reload_same:
  assumes "list_sim w l vs" and "0 < unat (list_max_count (cfg e))"
  shows "snd (list_init e (w_db w) (clist_new e (l_key l))) \<and>
    list_sim w (fst (list_init e (w_db w) (clist_new e (l_key l)))) vs"
proof (cases "l_list l = []")
  case False
  then have st: "db_get (w_db w) (l_key l) = Some (list_record l)"
    using assms(1) by (auto simp: list_sim_def list_stored_def)
  have ty: "h_type (l_head l) = T_LIST" using assms(1) by (simp add: list_sim_def list_rep_def)
  have cr: "s_crc c (s_crc c h) = s_crc c h" for c h by (simp add: s_crc_def)
  note init = list_init_reload [OF st False ty, of "clist_new e (l_key l)" e, simplified clist_new_def, simplified]
  show ?thesis
    using assms st by (simp add: clist_new_def init list_sim_def list_rep_def list_stored_def
        list_record_def cr)
next
  case True
  have "get_value (w_db w) (l_key l) \<in> {Inl Zerror_not_extsis, Inl Zerror_data_bad}"
    using assms(1) True get_value_empty
    by (auto simp: list_sim_def list_stored_def list_record_def list_body_def)
  then have init: "list_init e (w_db w) (clist_new e (l_key l)) = ((clist_new e (l_key l))\<lparr>l_init := True\<rparr>, True)"
    by (auto simp: list_init_def clist_new_def)
  have "db_get (w_db w) (l_key l) = None \<or> (\<exists>h. db_get (w_db w) (l_key l) = Some (head_mem h))"
    using assms(1) True by (auto simp: list_sim_def list_stored_def list_record_def list_body_def)
  moreover have "vs = []" using list_rep_length [of "w_db w" l vs] True assms(1) by (simp add: list_sim_def)
  ultimately show ?thesis
    using assms init by (auto simp: list_sim_def list_rep_def list_stored_def clist_new_def)
qed

theorem clist_reload_same_witness:
  "\<exists>e w (l :: clist). l_list l \<noteq> [] \<and> list_sim w (fst (list_init e (w_db w) (clist_new e (l_key l)))) [''a'']"
proof -
  define e where "e = \<lparr>now = 1000, cfg = server_default, junk = 0\<rparr>"
  define w where "w = \<lparr>w_db = \<lparr>db_map = [], db_ok = (\<lambda>_. True), db_tick = 0\<rparr>, w_tmo = timeout_new e\<rparr>"
  have mx: "unat (list_max_count (cfg e)) = 1024"
    by (simp add: e_def list_max_count_def server_default_def)
  then have "list_sim w ((clist_new e ''k'')\<lparr>l_init := True\<rparr>) []"
    by (intro list_sim_new) (simp_all add: w_def db_reliable_def db_inv_def db_get_def)
  from step_push [OF this, of e "''a''" "Os_array []"] obtain l w' where
    l: "list_sim w' l [''a'']" by (auto split: if_splits)
  then have "l_list l \<noteq> []" using list_rep_length [of "w_db w'" l "[''a'']"] by (auto simp: list_sim_def)
  then show ?thesis
    using clist_reload_same [OF l, of e] mx by (intro exI [of _ e] exI [of _ w'] exI [of _ l]) simp
qed

text \<open>
  A PUSH whose write fails answers an error but keeps the new identifier in the cached
  object: SIZE then counts an element that exists nowhere in the database, while the database still
  holds the old list.
\<close>

theorem failed_push_is_counted:
  assumes "list_rep (w_db w) l vs" and "db_inv (w_db w)" and "\<not> db_ok (w_db w) (db_tick (w_db w))"
    and "length vs < unat (l_max_list l)"
  shows "\<exists>l' w'. clist_push e v l w io = (l', w', zerror_result io ''write error.'') \<and>
    snd (snd (clist_size e l' w' io)) = os_push_str (io_OK io) (itostr (int (length vs + 1))) \<and>
    (\<forall>k. db_get (w_db w') k = db_get (w_db w) k)"
proof -
  let ?l = "l\<lparr>l_effective := time32 e + object_effective (cfg e)\<rparr>"
  let ?l2 = "fst (list_push ?l [] v)" and ?bh = "snd (list_push ?l [] v)"
  have len: "length (l_list l) = length vs" using assms(1) by (rule list_rep_length)
  obtain db' where db': "db_write (w_db w) (list_update_bh ?l2 ?bh) = (db', False)"
      "\<And>k. db_get db' k = db_get (w_db w) k"
    using db_write_cases [OF assms(2), of "list_update_bh ?l2 ?bh"] assms(3) by metis
  have "clist_push e v l w io = (?l2, w\<lparr>w_db := db'\<rparr>, zerror_result io ''write error.'')"
    unfolding clist_push_def with_init_rep [OF assms(1)]
    using assms(4) len db'(1) by (simp add: Let_def split_beta)
  moreover have "length (l_list ?l2) = length vs + 1" "l_init ?l2"
    using len assms(1) by (simp_all add: list_push_def Let_def list_rep_def)
  moreover from this have "snd (snd (clist_size e ?l2 w' io)) = os_push_str (io_OK io) (itostr (int (length vs + 1)))"
    for w' by (simp add: clist_size_def with_init_def list_init_def Let_def)
  ultimately show ?thesis using db'(2) by fastforce
qed

theorem failed_push_is_counted_witness:
  "\<exists>e l w l' w'. clist_push e ''a'' l w (Os_array []) = (l', w', zerror_result (Os_array []) ''write error.'') \<and>
     snd (snd (clist_size e l' w' (Os_array []))) = os_push_str (io_OK (Os_array [])) (itostr (int 1)) \<and>
     db_get (w_db w') ''k'' = None"
proof -
  define e where "e = \<lparr>now = 1000, cfg = server_default, junk = 0\<rparr>"
  define w where "w = \<lparr>w_db = \<lparr>db_map = [], db_ok = (\<lambda>_. False), db_tick = 0\<rparr>, w_tmo = timeout_new e\<rparr>"
  define l where "l = (clist_new e ''k'')\<lparr>l_init := True\<rparr>"
  have "list_rep (w_db w) l []" "db_inv (w_db w)" "\<not> db_ok (w_db w) (db_tick (w_db w))"
    "length [] < unat (l_max_list l)" "db_get (w_db w) ''k'' = None"
    by (simp_all add: list_rep_def w_def l_def clist_new_def db_inv_def e_def list_max_count_def
        server_default_def db_get_def)
  with failed_push_is_counted [of w l "[]" e "''a''" "Os_array []"] show ?thesis by fastforce
qed

end
