(* ===== verification/CMList.thy ===== *)
theory CMList
  imports CList
begin

text \<open>
  The MLIST container (src/zcloud/zstorage/zstorage/c_mlist.h, c_mlist.cpp): a bounded queue like
  LIST whose elements have identifiers chosen by the client.  The record of the container is the
  sequence of the identifiers, each with a length byte.  The development shows what PUSH and SEEK
  do on a cached object, and that a record is not loaded back.
\<close>

section \<open>State\<close>

record cmlist =
  ml_init :: bool
  ml_key :: string
  ml_list :: "string list"
  ml_effective :: u32
  ml_max_list :: u16
  ml_head :: zmsg_head

definition cmlist_new :: "zenv \<Rightarrow> string \<Rightarrow> cmlist" where
  "cmlist_new e key = \<lparr>ml_init = False, ml_key = key, ml_list = [],
     ml_effective = time32 e + object_effective (cfg e),
     ml_max_list = mlist_max_count (cfg e), ml_head = base_head T_MLIST\<rparr>"

section \<open>Records\<close>

definition mitem_key :: "string \<Rightarrow> string \<Rightarrow> string" where
  "mitem_key key keyId = key @ ''@'' @ keyId"

text \<open>
  The loading loop: \<open>ptr\<close> stays at the start of the body, so the length and the identifier are read
  there in every iteration; an identifier is a C string.
\<close>

function mlist_read :: "nat \<Rightarrow> bytes \<Rightarrow> string list" where
  "mlist_read i body =
     (if i < length body
      then let n = of_char (hd body) :: nat; i' = i + 1 + n
           in if length body \<le> i' then [] else cstr (take n body) # mlist_read i' body
      else [])"
  by pat_completeness auto
termination
  by (relation "measure (\<lambda>(i, body). length body - i)") auto

declare mlist_read.simps [simp del]

definition mlist_load_value :: "cmlist \<Rightarrow> bytes \<Rightarrow> zmsg_head \<Rightarrow> cmlist option" where
  "mlist_load_value l value head =
     (if h_type head \<noteq> T_MLIST then None
      else Some (l\<lparr>ml_head := head, ml_list := ml_list l @ mlist_read 0 (drop HEAD_LEN value)\<rparr>))"

definition mlist_init :: "zenv \<Rightarrow> dbase \<Rightarrow> cmlist \<Rightarrow> cmlist \<times> bool" where
  "mlist_init e db l =
     (let l1 = l\<lparr>ml_effective := time32 e + object_effective (cfg e)\<rparr>
      in if ml_init l1 then (l1, True)
         else case get_value db (ml_key l1) of
             Inl _ \<Rightarrow> (l1\<lparr>ml_init := True\<rparr>, True)
           | Inr (value, head) \<Rightarrow>
               (case mlist_load_value l1 value head of
                  None \<Rightarrow> (l1, False)
                | Some l2 \<Rightarrow> (l2\<lparr>ml_init := True\<rparr>, True)))"

definition mlist_del_key :: "cmlist \<Rightarrow> batch_op list \<Rightarrow> string \<Rightarrow> batch_op list" where
  "mlist_del_key l bh keyId = bh @ [Batch_Delete (mitem_key (ml_key l) keyId)]"

text \<open>The length byte is the length modulo 256.\<close>

definition mlist_body :: "string list \<Rightarrow> bytes" where
  "mlist_body ids = concat (map (\<lambda>k. char_of (length k) # k) ids)"

definition mlist_update :: "cmlist \<Rightarrow> batch_op list \<Rightarrow> batch_op list" where
  "mlist_update l bh =
     (let body = mlist_body (ml_list l); head = s_crc (crc16 0 body) (ml_head l)
      in bh @ [Batch_Put (ml_key l) (head_mem head @ body)])"

definition mlist_push_key :: "cmlist \<Rightarrow> batch_op list \<Rightarrow> string \<Rightarrow> bytes \<Rightarrow> cmlist \<times> batch_op list" where
  "mlist_push_key l bh keyId value =
     (l\<lparr>ml_list := ml_list l @ [keyId]\<rparr>, bh @ [Batch_Put (mitem_key (ml_key l) keyId) value])"

definition mlist_get :: "dbase \<Rightarrow> cmlist \<Rightarrow> string \<Rightarrow> string option" where
  "mlist_get db l keyId = base_get db (mitem_key (ml_key l) keyId)"

definition mlist_delete :: "cmlist \<Rightarrow> batch_op list \<Rightarrow> batch_op list" where
  "mlist_delete l bh = bh @ [Batch_Delete (ml_key l)]"

section \<open>Commands\<close>

definition with_minit :: "zenv \<Rightarrow> cmlist \<Rightarrow> zworld \<Rightarrow> ostream \<Rightarrow>
    (cmlist \<Rightarrow> cmlist \<times> zworld \<times> ostream) \<Rightarrow> cmlist \<times> zworld \<times> ostream" where
  "with_minit e l w io rest =
     (case mlist_init e (w_db w) l of
        (l', False) \<Rightarrow> (l', w, zerror_result io ''mlist create error.'')
      | (l', True) \<Rightarrow> rest l')"

definition cmlist_push :: "zenv \<Rightarrow> string \<Rightarrow> bytes \<Rightarrow> cmlist \<Rightarrow> zworld \<Rightarrow> ostream \<Rightarrow> cmlist \<times> zworld \<times> ostream" where
  "cmlist_push e keyId data l0 w io = with_minit e l0 w io (\<lambda>l.
     let (l1, bh1) =
           (if unat (ml_max_list l) \<le> length (ml_list l)
            then (l\<lparr>ml_list := tl (ml_list l)\<rparr>, mlist_del_key l [] (hd (ml_list l)))
            else (l, []));
         (l2, bh2) = mlist_push_key l1 bh1 keyId data;
         (db, ok) = db_write (w_db w) (mlist_update l2 bh2)
     in (l2, w\<lparr>w_db := db\<rparr>, if ok then io_OK io else zerror_result io ''write error.''))"

text \<open>The first loop of \<^verbatim>\<open>seek\<close>: the counter, the flag and the reply are threaded through.\<close>

fun mseek_find :: "dbase \<Rightarrow> cmlist \<Rightarrow> string \<Rightarrow> u32 \<Rightarrow> u32 \<Rightarrow> bool \<Rightarrow> string list \<Rightarrow> ostream \<Rightarrow>
    u32 \<times> bool \<times> ostream" where
  "mseek_find db l keyId count i found [] io = (i, found, io)"
| "mseek_find db l keyId count i found (k # ids) io =
     (if \<not> i < count then (i, found, io)
      else if \<not> found then mseek_find db l keyId count i (keyId = k) ids io
      else case mlist_get db l k of
          None \<Rightarrow> mseek_find db l keyId count i found ids io
        | Some value \<Rightarrow> mseek_find db l keyId count (i + 1) found ids (os_push_buf io value))"

text \<open>The second loop, which does not advance the counter.\<close>

fun mseek_tail :: "dbase \<Rightarrow> cmlist \<Rightarrow> u32 \<Rightarrow> u32 \<Rightarrow> int \<Rightarrow> string list \<Rightarrow> ostream \<Rightarrow> ostream" where
  "mseek_tail db l count i ibegin [] io = io"
| "mseek_tail db l count i ibegin (k # ids) io =
     (if \<not> i < count then io
      else if ibegin > 0 then mseek_tail db l count i (ibegin - 1) ids io
      else case mlist_get db l k of
          None \<Rightarrow> mseek_tail db l count i (ibegin - 1) ids io
        | Some value \<Rightarrow> mseek_tail db l count i (ibegin - 1) ids (os_push_buf io value))"

text \<open>
  \<^verbatim>\<open>size - count >= 0\<close> compares an unsigned number and always holds; the difference is then
  converted to a signed number.
\<close>

definition cmlist_seek :: "zenv \<Rightarrow> string \<Rightarrow> u32 \<Rightarrow> cmlist \<Rightarrow> zworld \<Rightarrow> ostream \<Rightarrow> cmlist \<times> zworld \<times> ostream" where
  "cmlist_seek e keyId count l0 w io = with_minit e l0 w io (\<lambda>l.
     let (i, found, io1) = mseek_find (w_db w) l keyId count 0 False (ml_list l) (io_OK io)
     in (l, w, if found then io1
               else mseek_tail (w_db w) l count i (sint (of_nat (length (ml_list l)) - count :: u32))
                      (ml_list l) io1))"

definition cmlist_size :: "zenv \<Rightarrow> cmlist \<Rightarrow> zworld \<Rightarrow> ostream \<Rightarrow> cmlist \<times> zworld \<times> ostream" where
  "cmlist_size e l0 w io = with_minit e l0 w io (\<lambda>l.
     (l, w, os_push_str (io_OK io) (itostr (int (length (ml_list l))))))"

definition cmlist_remove :: "zenv \<Rightarrow> cmlist \<Rightarrow> zworld \<Rightarrow> ostream \<Rightarrow> cmlist \<times> zworld \<times> ostream" where
  "cmlist_remove e l0 w io = with_minit e l0 w io (\<lambda>l.
     let bh = fold (\<lambda>k bh. mlist_del_key l bh k) (ml_list l) [];
         l1 = l\<lparr>ml_list := []\<rparr>;
         (db, ok) = db_write (w_db w) (mlist_delete l1 bh)
     in (l1, w\<lparr>w_db := db\<rparr>, if ok then io_OK io else zerror_result io ''list write error.''))"

definition cmlist_expire :: "zenv \<Rightarrow> u32 \<Rightarrow> cmlist \<Rightarrow> zworld \<Rightarrow> ostream \<Rightarrow> cmlist \<times> zworld \<times> ostream" where
  "cmlist_expire e ms l0 w io = with_minit e l0 w io (\<lambda>l.
     let l1 = l\<lparr>ml_head := s_effective (time32 e + ms) (ml_head l)\<rparr>;
         (db, ok) = db_write (w_db w) (mlist_update l1 [])
     in if ok
        then (l1, w\<lparr>w_db := db, w_tmo := timeout_push e (h_type (ml_head l1)) (ml_key l1) ms (w_tmo w)\<rparr>,
              io_OK io)
        else (l1, w\<lparr>w_db := db\<rparr>, zerror_result io ''list write error.''))"

definition cmlist_time :: "zenv \<Rightarrow> cmlist \<Rightarrow> zworld \<Rightarrow> ostream \<Rightarrow> cmlist \<times> zworld \<times> ostream" where
  "cmlist_time e l0 w io = with_minit e l0 w io (\<lambda>l.
     (l, w, os_push_str (io_OK io) (itostr (int (unat (rest_time e (ml_head l)))))))"

definition cmlist_is_release :: "zenv \<Rightarrow> cmlist \<Rightarrow> bool" where
  "cmlist_is_release e l \<longleftrightarrow> now e > unat (ml_effective l)"

section \<open>What the record gives back\<close>

lemma mitem_key_inject [simp]: "mitem_key k a = mitem_key k b \<longleftrightarrow> a = b"
  by (simp add: mitem_key_def)

lemma mitem_key_neq [simp]: "mitem_key k a \<noteq> k" "k \<noteq> mitem_key k a"
  by (auto simp: mitem_key_def dest: arg_cong [of _ _ length])

text \<open>Identifiers of one length: every iteration delivers the start of the body.\<close>

lemma mlist_read_uniform:
  assumes "length body = m * (n + 1)" and "body \<noteq> []" and "of_char (hd body) = n" and "j < m"
  shows "mlist_read (j * (n + 1)) body = replicate (m - 1 - j) (cstr (take n body))"
  using assms(4)
proof (induction "m - 1 - j" arbitrary: j)
  case 0
  then have "m = Suc j" by linarith
  then have "j * (n + 1) + 1 + n = length body" using assms(1) by (simp add: algebra_simps)
  moreover from this have "j * (n + 1) < length body" by linarith
  ultimately show ?case using 0 assms(3) by (subst mlist_read.simps) (simp add: Let_def)
next
  case (Suc d)
  then have lt: "Suc j < m" by linarith
  have eq: "j * (n + 1) + 1 + n = Suc j * (n + 1)" by (simp add: algebra_simps)
  have "Suc j * (n + 1) < length body" "j * (n + 1) < length body"
    using lt assms(1) by (simp_all only: mult_less_cancel2, simp_all)
  moreover from this have "\<not> length body \<le> Suc j * (n + 1)" by linarith
  ultimately have "mlist_read (j * (n + 1)) body = cstr (take n body) # mlist_read (Suc j * (n + 1)) body"
    using assms(3) by (subst mlist_read.simps) (simp only: Let_def eq if_True if_False)
  also have "mlist_read (Suc j * (n + 1)) body = replicate (m - 1 - Suc j) (cstr (take n body))"
    using Suc.hyps(2) lt by (intro Suc.hyps(1)) auto
  finally show ?case using Suc.hyps(2) lt by (metis Suc_diff_Suc diff_Suc_1' diff_commute replicate_Suc Suc_lessD)
qed

lemma of_char_of_length: "length k \<le> 255 \<Longrightarrow> of_char (char_of (length k) :: char) = length k"
  by simp

lemma length_mlist_body:
  "\<forall>k \<in> set ids. length k = n \<Longrightarrow> length (mlist_body ids) = length ids * (n + 1)"
  by (induct ids) (auto simp: mlist_body_def)

lemma mlist_body_Cons: "mlist_body (k # ids) = char_of (length k) # k @ mlist_body ids"
  by (simp add: mlist_body_def)

lemma mlist_read_body:
  assumes "\<forall>k \<in> set (k0 # ids). length k = n" and "0 < n" and "n \<le> 255"
  shows "mlist_read 0 (mlist_body (k0 # ids)) =
    replicate (length ids) (cstr (char_of n # take (n - 1) k0))"
proof -
  have hd: "of_char (hd (mlist_body (k0 # ids))) = n"
    using assms of_char_of_length [of k0] by (simp add: mlist_body_Cons)
  have "take n (mlist_body (k0 # ids)) = char_of n # take (n - 1) k0"
    using assms by (cases n) (auto simp: mlist_body_Cons)
  moreover have "mlist_body (k0 # ids) \<noteq> []" by (simp add: mlist_body_Cons)
  ultimately show ?thesis
    using mlist_read_uniform [OF length_mlist_body [OF assms(1)] _ hd, of 0] by simp
qed

section \<open>A cached MLIST as a queue of identified values\<close>

definition mlist_rep :: "dbase \<Rightarrow> cmlist \<Rightarrow> (string \<times> bytes) list \<Rightarrow> bool" where
  "mlist_rep db l kvs \<longleftrightarrow> ml_init l \<and> map fst kvs = ml_list l \<and> distinct (ml_list l) \<and>
     length kvs \<le> 65535 \<and>
     list_all (\<lambda>kv. db_get db (mitem_key (ml_key l) (fst kv)) = Some (snd kv)) kvs"

definition mlist_record :: "cmlist \<Rightarrow> bytes" where
  "mlist_record l = (let body = mlist_body (ml_list l) in head_mem (s_crc (crc16 0 body) (ml_head l)) @ body)"

lemma mlist_update_record: "mlist_update l bh = bh @ [Batch_Put (ml_key l) (mlist_record l)]"
  by (simp add: mlist_update_def mlist_record_def Let_def)

lemma with_minit_rep:
  "mlist_rep (w_db w) l kvs \<Longrightarrow>
   with_minit e l w io f = f (l\<lparr>ml_effective := time32 e + object_effective (cfg e)\<rparr>)"
  by (simp add: with_minit_def mlist_rep_def mlist_init_def)

lemma mlist_rep_effective [simp]: "mlist_rep db (l\<lparr>ml_effective := t\<rparr>) kvs = mlist_rep db l kvs"
  by (simp add: mlist_rep_def)

lemma mseek_find_absent:
  "keyId \<notin> set ids \<Longrightarrow> mseek_find db l keyId count i False ids io = (i, False, io)"
  by (induct ids) auto

lemma mseek_find_prefix:
  "keyId \<notin> set pre \<Longrightarrow> i < count \<Longrightarrow>
   mseek_find db l keyId count i False (pre @ keyId # post) io = mseek_find db l keyId count i True post io"
  by (induct pre) auto

lemma mseek_find_rest:
  "list_all (\<lambda>kv. mlist_get db l (fst kv) = Some (snd kv)) kvs \<Longrightarrow>
   snd (mseek_find db l keyId count i True (map fst kvs) io) =
     (True, push_all (take (unat count - unat i) (map snd kvs)) io)"
proof (induct kvs arbitrary: i io)
  case (Cons kv kvs)
  show ?case
  proof (cases "i < count")
    case True
    then have u: "unat (i + 1) = unat i + 1"
      using unat_bounds(3) [of count] by (simp add: word_less_nat_alt unat_word_ariths)
    moreover have "unat i < unat count" using True by (simp add: word_less_nat_alt)
    ultimately have "unat count - unat i = Suc (unat count - unat (i + 1))" by linarith
    then show ?thesis using True Cons by (simp add: push_all_def)
  qed (simp add: push_all_def word_less_nat_alt)
qed (simp add: push_all_def)

lemma mseek_tail_spec:
  "list_all (\<lambda>kv. mlist_get db l (fst kv) = Some (snd kv)) kvs \<Longrightarrow> i < count \<Longrightarrow>
   mseek_tail db l count i b (map fst kvs) io = push_all (drop (nat b) (map snd kvs)) io"
proof (induct kvs arbitrary: b io)
  case (Cons kv kvs)
  have "0 < b \<Longrightarrow> nat b = Suc (nat (b - 1))" by simp
  then show ?case using Cons by (auto simp: push_all_def)
qed (simp add: push_all_def)

lemma seek_begin:
  fixes count :: u32
  assumes "n \<le> 65535" and "unat count \<le> 2147483648"
  shows "nat (sint (of_nat n - count)) = n - unat count"
proof -
  define u where "u = unat count"
  have "count = of_nat u" by (simp add: u_def)
  then have "of_nat n - count = word_of_int (int n - int u)" by simp
  moreover have "sint (word_of_int (int n - int u) :: u32) = int n - int u"
    unfolding sint_sbintrunc' using assms(1) assms(2) [folded u_def] by (intro signed_take_bit_int_eq_self) auto
  ultimately have "nat (sint (of_nat n - count)) = n - u" by (simp only: nat_minus_as_int)
  then show ?thesis by (simp only: u_def)
qed

lemma mlist_rep_get:
  "mlist_rep db l kvs \<Longrightarrow> list_all (\<lambda>kv. mlist_get db l (fst kv) = Some (snd kv)) kvs"
  by (simp add: mlist_rep_def mlist_get_def base_get_def)

text \<open>The values after the first element with an identifier.\<close>

definition values_after :: "string \<Rightarrow> (string \<times> bytes) list \<Rightarrow> bytes list" where
  "values_after k kvs = map snd (tl (dropWhile (\<lambda>kv. fst kv \<noteq> k) kvs))"

lemma mseek_find_present:
  assumes "list_all (\<lambda>kv. mlist_get db l (fst kv) = Some (snd kv)) kvs"
    and "keyId \<in> fst ` set kvs" and "i < count"
  shows "snd (mseek_find db l keyId count i False (map fst kvs) io) =
    (True, push_all (take (unat count - unat i) (values_after keyId kvs)) io)"
proof -
  let ?pre = "takeWhile (\<lambda>kv. fst kv \<noteq> keyId) kvs" and ?r = "dropWhile (\<lambda>kv. fst kv \<noteq> keyId) kvs"
  have "?r \<noteq> []" using assms(2) by auto
  then obtain kv post where r: "?r = kv # post" "fst kv = keyId"
    using hd_dropWhile [of "\<lambda>kv. fst kv \<noteq> keyId" kvs] by (cases ?r) auto
  have kvs: "kvs = ?pre @ kv # post" using r(1) by (metis takeWhile_dropWhile_id)
  have pre: "keyId \<notin> set (map fst ?pre)" by (auto dest: set_takeWhileD)
  have "list_all (\<lambda>kv. mlist_get db l (fst kv) = Some (snd kv)) (?pre @ kv # post)"
    using assms(1) kvs by simp
  then have post: "list_all (\<lambda>kv. mlist_get db l (fst kv) = Some (snd kv)) post" by simp
  have "map fst kvs = map fst ?pre @ keyId # map fst post"
    using arg_cong [OF kvs, of "map fst"] r(2) by simp
  then show ?thesis
    using mseek_find_prefix [OF pre assms(3)] mseek_find_rest [OF post] r(1)
    by (simp add: values_after_def)
qed

text \<open>
  C17. SEEK on a cached MLIST: with an identifier of the list the reply holds the (at most \<open>count\<close>)
  values that follow it, oldest first; with any other identifier it holds the \<open>count\<close> newest values,
  or all of them if the list is shorter.  The last case rests on unsigned wrap-around and is only
  guaranteed for counts up to 2147483648.
\<close>

theorem mlist_seek_spec:
  assumes "mlist_rep (w_db w) l kvs" and "unat count \<le> 2147483648"
  shows "snd (cmlist_seek e keyId count l w io) = (w, push_all
    (if keyId \<in> fst ` set kvs then take (unat count) (values_after keyId kvs)
     else drop (length kvs - unat count) (map snd kvs)) (io_OK io))"
proof -
  define l0 where "l0 = l\<lparr>ml_effective := time32 e + object_effective (cfg e)\<rparr>"
  have rep: "mlist_rep (w_db w) l0 kvs" using assms(1) by (simp add: l0_def)
  have ids: "ml_list l0 = map fst kvs" and len: "length kvs \<le> 65535"
    using rep by (auto simp: mlist_rep_def)
  note get = mlist_rep_get [OF rep]
  have run: "cmlist_seek e keyId count l w io =
    (let (i, found, io1) = mseek_find (w_db w) l0 keyId count 0 False (map fst kvs) (io_OK io)
     in (l0, w, if found then io1
               else mseek_tail (w_db w) l0 count i (sint (of_nat (length kvs) - count :: u32)) (map fst kvs) io1))"
    unfolding cmlist_seek_def with_minit_rep [OF assms(1)] l0_def [symmetric] ids length_map by (rule refl)
  consider "count = 0" | "0 < count" "keyId \<in> fst ` set kvs" | "0 < count" "keyId \<notin> fst ` set kvs"
    using word_gt_0 by blast
  then show ?thesis
  proof cases
    case 1
    have none: "mseek_find (w_db w) l0 keyId 0 0 False (map fst kvs) (io_OK io) = (0, False, io_OK io)"
      "mseek_tail (w_db w) l0 0 0 b (map fst kvs) (io_OK io) = io_OK io" for b
      by (cases kvs; simp)+
    show ?thesis using run by (simp add: 1 none push_all_def)
  next
    case 2
    then show ?thesis
      using mseek_find_present [OF get 2(2,1), of "io_OK io"]
      by (cases "mseek_find (w_db w) l0 keyId count 0 False (map fst kvs) (io_OK io)") (simp add: run)
  next
    case 3
    then have "mseek_find (w_db w) l0 keyId count 0 False (map fst kvs) (io_OK io) = (0, False, io_OK io)"
      by (intro mseek_find_absent) auto
    then show ?thesis
      using 3 by (simp add: run mseek_tail_spec [OF get] seek_begin [OF len assms(2)])
  qed
qed

lemma mlist_rep_build:
  assumes "ml_init l" and "ml_list l = map fst kvs" and "distinct (map fst kvs)" and "length kvs \<le> 65535"
    and "list_all (\<lambda>kv. db_get db (mitem_key (ml_key l) (fst kv)) = Some (snd kv)) kvs"
  shows "mlist_rep db l kvs"
  using assms by (simp add: mlist_rep_def)

lemma push_keeps_values:
  assumes "list_all (\<lambda>kv. db_get db (mitem_key key (fst kv)) = Some (snd kv)) kvs"
    and "\<And>k. k \<in> fst ` set kvs \<Longrightarrow> db_get db' (mitem_key key k) = db_get db (mitem_key key k)"
  shows "list_all (\<lambda>kv. db_get db' (mitem_key key (fst kv)) = Some (snd kv)) kvs"
  using assms by (force simp: list_all_iff)



theorem mlist_seek_spec_witness:
  "\<exists>e w (l :: cmlist). snd (cmlist_seek e ''a'' 5 l w (Os_array [])) = (w, push_all [''y''] (io_OK (Os_array [])))"
proof -
  define e where "e = \<lparr>now = 1000, cfg = server_default, junk = 0\<rparr>"
  define l where "l = (cmlist_new e ''k'')\<lparr>ml_init := True, ml_list := [''a'', ''b'']\<rparr>"
  define w where "w = \<lparr>w_db = \<lparr>db_map = [(''k@a'', ''x''), (''k@b'', ''y'')], db_ok = (\<lambda>_. True), db_tick = 0\<rparr>,
    w_tmo = timeout_new e\<rparr>"
  have "mlist_rep (w_db w) l [(''a'', ''x''), (''b'', ''y'')]"
    by (simp add: w_def l_def cmlist_new_def mlist_rep_def mitem_key_def db_get_def)
  then show ?thesis
    using mlist_seek_spec [of w l "[(''a'', ''x''), (''b'', ''y'')]" 5 e "''a''" "Os_array []"]
    by (intro exI [of _ e] exI [of _ w] exI [of _ l]) (simp add: values_after_def)
qed

text \<open>
  C19. An MLIST does not survive the eviction of its object: from the record of \<open>m + 1\<close> identifiers
  of one length \<open>n\<close> a new object loads \<open>m\<close> copies of one string, the length byte followed by the
  first \<open>n - 1\<close> bytes of the oldest identifier.
\<close>

theorem mlist_reload_loses_keys:
  assumes "db_get db (ml_key l) = Some (mlist_record l)" and "ml_list l = k0 # ids"
    and "\<forall>k \<in> set (k0 # ids). length k = n" and "0 < n" and "n \<le> 255" and "h_type (ml_head l) = T_MLIST"
  shows "\<exists>l'. mlist_init e db (cmlist_new e (ml_key l)) = (l', True) \<and>
    ml_list l' = replicate (length ids) (cstr (char_of n # take (n - 1) k0)) \<and> ml_list l' \<noteq> ml_list l"
proof -
  define head where "head = s_crc (crc16 0 (mlist_body (ml_list l))) (ml_head l)"
  have "get_value db (ml_key l) = Inr (mlist_record l, head)"
    unfolding mlist_record_def Let_def head_def [symmetric]
    using assms(1,2,6)
    by (intro get_value_stored) (simp_all add: mlist_record_def Let_def head_def mlist_body_Cons check_type_def)
  then have "mlist_init e db (cmlist_new e (ml_key l)) =
      ((cmlist_new e (ml_key l))\<lparr>ml_head := head, ml_list := mlist_read 0 (mlist_body (k0 # ids)), ml_init := True\<rparr>, True)"
    using assms(2,6) by (simp add: mlist_init_def cmlist_new_def mlist_load_value_def head_def mlist_record_def Let_def)
  moreover have "replicate (length ids) (cstr (char_of n # take (n - 1) k0)) \<noteq> k0 # ids"
    by (metis length_Cons length_replicate n_not_Suc_n)
  ultimately show ?thesis
    using mlist_read_body [OF assms(3-5)] assms(2) by simp
qed

theorem mlist_reload_loses_keys_witness:
  "\<exists>e db. ml_list (fst (mlist_init e db (cmlist_new e ''k''))) = [[CHR 0x02, CHR ''1'']]"
proof -
  define e where "e = \<lparr>now = 1000, cfg = server_default, junk = 0\<rparr>"
  define l where "l = (cmlist_new e ''k'')\<lparr>ml_init := True, ml_list := [''11'', ''12'']\<rparr>"
  define db where "db = \<lparr>db_map = [(''k'', mlist_record l)], db_ok = (\<lambda>_. True), db_tick = 0\<rparr>"
  have "db_get db (ml_key l) = Some (mlist_record l)" "ml_list l = [''11'', ''12'']" "ml_key l = ''k''"
    "h_type (ml_head l) = T_MLIST"
    by (simp_all add: db_def l_def cmlist_new_def db_get_def)
  moreover have two: "char_of (2 :: nat) = CHR 0x02" by code_simp
  ultimately have "ml_list (fst (mlist_init e db (cmlist_new e ''k''))) = [[CHR 0x02, CHR ''1'']]"
    using mlist_reload_loses_keys [of db l "''11''" "[''12'']" 2 e] two by (auto simp: cstr_def)
  then show ?thesis by blast
qed

end
