(* ===== verification/CSeq.thy ===== *)
theory CSeq
  imports CList
begin

text \<open>
  The SEQ container (src/zcloud/zstorage/zstorage/c_seq.h, c_seq.cpp): an append-only log of time
  stamped values with consecutive numbers.  Its header record holds the count, the last number and
  three times; the values are separate records.  The lemmas show PUSH, SEEK and the cleaning of
  expired values as operations on a list of (time, value) pairs, and what the search by time does.
\<close>

section \<open>The header record\<close>

text \<open>The fields hold network byte order, as \<^verbatim>\<open>_SEQ_HEAD\<close> does.\<close>

record seq_head =
  sq_head :: zmsg_head
  sq_count :: u32
  sq_index :: u32
  sq_uptime :: u32
  sq_cleantime :: u32
  sq_delay :: u32

definition s_count :: "u32 \<Rightarrow> seq_head \<Rightarrow> seq_head" where
  "s_count n h = h\<lparr>sq_count := ntohl n\<rparr>"

definition s_index :: "u32 \<Rightarrow> seq_head \<Rightarrow> seq_head" where
  "s_index n h = h\<lparr>sq_index := ntohl n\<rparr>"

definition s_uptime :: "u32 \<Rightarrow> seq_head \<Rightarrow> seq_head" where
  "s_uptime n h = h\<lparr>sq_uptime := ntohl n\<rparr>"

definition s_delay :: "u32 \<Rightarrow> seq_head \<Rightarrow> seq_head" where
  "s_delay n h = h\<lparr>sq_delay := ntohl n\<rparr>"

definition s_cleantime :: "u32 \<Rightarrow> seq_head \<Rightarrow> seq_head" where
  "s_cleantime n h = h\<lparr>sq_cleantime := ntohl n\<rparr>"

definition g_count :: "seq_head \<Rightarrow> u32" where "g_count h = htonl (sq_count h)"

definition g_index :: "seq_head \<Rightarrow> u32" where "g_index h = htonl (sq_index h)"

definition g_uptime :: "seq_head \<Rightarrow> u32" where "g_uptime h = htonl (sq_uptime h)"

definition g_cleantime :: "seq_head \<Rightarrow> u32" where "g_cleantime h = htonl (sq_cleantime h)"

definition g_delay :: "seq_head \<Rightarrow> u32" where "g_delay h = htonl (sq_delay h)"

text \<open>The image of the packed struct; the part after the message header is what the CRC covers.\<close>

definition seq_body :: "seq_head \<Rightarrow> bytes" where
  "seq_body h = u32_mem (sq_count h) @ u32_mem (sq_index h) @ u32_mem (sq_uptime h) @
     u32_mem (sq_cleantime h) @ u32_mem (sq_delay h)"

definition seq_mem :: "seq_head \<Rightarrow> bytes" where
  "seq_mem h = head_mem (sq_head h) @ seq_body h"

definition mem_seq :: "bytes \<Rightarrow> seq_head" where
  "mem_seq m = \<lparr>sq_head = mem_head m, sq_count = mem_u32 (drop 12 m), sq_index = mem_u32 (drop 16 m),
     sq_uptime = mem_u32 (drop 20 m), sq_cleantime = mem_u32 (drop 24 m), sq_delay = mem_u32 (drop 28 m)\<rparr>"

abbreviation SEQ_HEAD_LEN :: nat where "SEQ_HEAD_LEN \<equiv> 32"

section \<open>The object\<close>

record cseq =
  s_init :: bool
  s_key :: string
  s_head :: seq_head
  s_effect :: u32

definition cseq_new :: "zenv \<Rightarrow> string \<Rightarrow> cseq" where
  "cseq_new e key = \<lparr>s_init = False, s_key = key,
     s_head = s_cleantime (time32 e) (s_delay 0
       \<lparr>sq_head = s_effective PERMANENT_BASE (base_head T_SEQ),
         sq_count = 0, sq_index = 0, sq_uptime = 0, sq_cleantime = 0, sq_delay = 0\<rparr>),
     s_effect = time32 e + object_effective (cfg e)\<rparr>"

definition seq_load_value :: "cseq \<Rightarrow> bytes \<Rightarrow> zmsg_head \<Rightarrow> cseq option" where
  "seq_load_value s value head =
     (if length value \<noteq> SEQ_HEAD_LEN then None
      else if h_type head \<noteq> T_SEQ then None
      else Some (s\<lparr>s_head := mem_seq value\<rparr>))"

definition seq_init :: "zenv \<Rightarrow> dbase \<Rightarrow> cseq \<Rightarrow> cseq \<times> bool" where
  "seq_init e db s =
     (let s1 = s\<lparr>s_effect := time32 e + object_effective (cfg e)\<rparr>
      in if s_init s1 then (s1, True)
         else case get_value db (s_key s1) of
             Inl _ \<Rightarrow> (s1\<lparr>s_init := True\<rparr>, True)
           | Inr (value, head) \<Rightarrow>
               (case seq_load_value s1 value head of
                  None \<Rightarrow> (s1, False)
                | Some s2 \<Rightarrow> (s2\<lparr>s_init := True\<rparr>, True)))"

definition seq_key :: "string \<Rightarrow> u32 \<Rightarrow> string" where
  "seq_key key keyId = key @ ''@'' @ itostr (int (unat keyId))"

definition seq_update :: "zenv \<Rightarrow> cseq \<Rightarrow> batch_op list \<Rightarrow> cseq \<times> batch_op list" where
  "seq_update e s bh =
     (let h1 = s_uptime (time32 e) (s_head s);
          h2 = h1\<lparr>sq_head := s_crc (crc16 0 (seq_body h1)) (sq_head h1)\<rparr>
      in (s\<lparr>s_head := h2\<rparr>, bh @ [Batch_Put (s_key s) (seq_mem h2)]))"

text \<open>The record of a value; the reserved field of its header is not initialised.\<close>

definition seq_value_head :: "zenv \<Rightarrow> bytes \<Rightarrow> zmsg_head" where
  "seq_value_head e value = s_crc (crc16 0 value) (s_effective (time32 e) (head_new (junk e) T_SEQ_VALUE))"

definition seq_set :: "zenv \<Rightarrow> cseq \<Rightarrow> batch_op list \<Rightarrow> bytes \<Rightarrow> cseq \<times> batch_op list" where
  "seq_set e s bh value =
     (let keyId = g_index (s_head s) + 1;
          h1 = s_index keyId (s_head s);
          h2 = s_count (g_count h1 + 1) h1
      in (s\<lparr>s_head := h2\<rparr>,
          bh @ [Batch_Put (seq_key (s_key s) keyId) (head_mem (seq_value_head e value) @ value)]))"

definition seq_get :: "dbase \<Rightarrow> cseq \<Rightarrow> u32 \<Rightarrow> string option" where
  "seq_get db s keyId =
     (case get_value db (seq_key (s_key s) keyId) of
        Inl _ \<Rightarrow> None
      | Inr (value, head) \<Rightarrow> if h_type head \<noteq> T_SEQ_VALUE then None else Some value)"

definition seq_del :: "u32 \<Rightarrow> cseq \<Rightarrow> batch_op list \<Rightarrow> cseq \<times> batch_op list" where
  "seq_del keyId s bh =
     (s\<lparr>s_head := s_count (g_count (s_head s) - 1) (s_head s)\<rparr>, bh @ [Batch_Delete (seq_key (s_key s) keyId)])"

definition seq_exists :: "dbase \<Rightarrow> cseq \<Rightarrow> u32 \<Rightarrow> bool" where
  "seq_exists db s keyId \<longleftrightarrow> seq_get db s keyId \<noteq> None"

definition seq_begin_index :: "cseq \<Rightarrow> u32" where
  "seq_begin_index s = g_index (s_head s) - g_count (s_head s) + 1"

definition seq_idelay :: "zenv \<Rightarrow> cseq \<Rightarrow> u32" where
  "seq_idelay e s = (if g_delay (s_head s) = 0 then seq_valid_time (cfg e) else g_delay (s_head s))"

text \<open>The difference of times is computed in 64 bits and may be negative.\<close>

definition seq_is_clean :: "zenv \<Rightarrow> cseq \<Rightarrow> bool" where
  "seq_is_clean e s \<longleftrightarrow>
     int (now e) - int (unat (g_cleantime (s_head s))) > int (unat (seq_clear_time (cfg e)))"

section \<open>Commands\<close>

definition with_sinit :: "zenv \<Rightarrow> cseq \<Rightarrow> zworld \<Rightarrow> ostream \<Rightarrow>
    (cseq \<Rightarrow> cseq \<times> zworld \<times> ostream) \<Rightarrow> cseq \<times> zworld \<times> ostream" where
  "with_sinit e s w io rest =
     (case seq_init e (w_db w) s of
        (s', False) \<Rightarrow> (s', w, zerror_result io ''seq init error.'')
      | (s', True) \<Rightarrow> rest s')"

definition cseq_push :: "zenv \<Rightarrow> bytes \<Rightarrow> u32 \<Rightarrow> cseq \<Rightarrow> zworld \<Rightarrow> ostream \<Rightarrow> cseq \<times> zworld \<times> ostream" where
  "cseq_push e data idelay s0 w io = with_sinit e s0 w io (\<lambda>s.
     let count = g_count (s_head s); index = g_index (s_head s);
         uptime = g_uptime (s_head s); delay = g_delay (s_head s);
         (s1, bh1) = seq_set e s [] data;
         s2 = (if idelay > 0 then s1\<lparr>s_head := s_delay idelay (s_head s1)\<rparr> else s1);
         (s3, bh3) = seq_update e s2 bh1;
         (db, ok) = db_write (w_db w) bh3
     in if ok
        then (s3, w\<lparr>w_db := db\<rparr>, os_push_str (io_OK io) (itostr (int (unat (g_index (s_head s3))))))
        else (s3\<lparr>s_head := s_delay delay (s_uptime uptime (s_index index (s_count count (s_head s3))))\<rparr>,
              w\<lparr>w_db := db\<rparr>, zerror_result io ''write error.''))"

text \<open>
  The cleaning loop of \<^verbatim>\<open>remove\<close>.  The database does not change while it runs and the numbers it
  visits are different until they wrap, so it visits at most one number more than the database has
  records; that bounds the recursion.
\<close>

definition seq_expired :: "zenv \<Rightarrow> dbase \<Rightarrow> cseq \<Rightarrow> u32 \<Rightarrow> bool" where
  "seq_expired e db s keyId =
     (case get_value db (seq_key (s_key s) keyId) of
        Inl _ \<Rightarrow> False
      | Inr (value, head) \<Rightarrow> h_type head = T_SEQ_VALUE \<and>
          \<not> unat (g_effective head + seq_idelay e s) > now e)"

fun seq_clean :: "nat \<Rightarrow> zenv \<Rightarrow> dbase \<Rightarrow> u32 \<Rightarrow> cseq \<Rightarrow> batch_op list \<Rightarrow> cseq \<times> batch_op list" where
  "seq_clean 0 e db ibegin s bh = (s, bh)"
| "seq_clean (Suc n) e db ibegin s bh =
     (if \<not> seq_expired e db s ibegin then (s, bh)
      else let (s', bh') = seq_del ibegin s bh in seq_clean n e db (ibegin + 1) s' bh')"

definition cseq_remove :: "zenv \<Rightarrow> cseq \<Rightarrow> zworld \<Rightarrow> ostream \<Rightarrow> cseq \<times> zworld \<times> ostream" where
  "cseq_remove e s0 w io = with_sinit e s0 w io (\<lambda>s.
     if \<not> seq_is_clean e s then (s, w, io)
     else let count = g_count (s_head s);
              (s1, bh1) = seq_clean (Suc (length (db_map (w_db w)))) e (w_db w) (seq_begin_index s) s [];
              s2 = s1\<lparr>s_head := s_cleantime (time32 e) (s_head s1)\<rparr>;
              (s3, bh3) = seq_update e s2 bh1;
              (db, ok) = db_write (w_db w) bh3
          in if ok then (s3, w\<lparr>w_db := db\<rparr>, io_OK io)
             else (s3\<lparr>s_head := s_count count (s_head s3)\<rparr>, w\<lparr>w_db := db\<rparr>, zerror_result io ''seq write error.''))"

text \<open>The reading commands clean first; the reply of that is thrown away.\<close>

definition seq_tidy :: "zenv \<Rightarrow> cseq \<Rightarrow> zworld \<Rightarrow> cseq \<times> zworld" where
  "seq_tidy e s w =
     (if seq_is_clean e s then let (s', w', _) = cseq_remove e s w (Os_array []) in (s', w') else (s, w))"

definition cseq_index :: "zenv \<Rightarrow> cseq \<Rightarrow> zworld \<Rightarrow> ostream \<Rightarrow> cseq \<times> zworld \<times> ostream" where
  "cseq_index e s0 w io = with_sinit e s0 w io (\<lambda>s.
     let (s1, w1) = seq_tidy e s w
     in (s1, w1, os_push_str (io_OK io) (itostr (int (unat (g_index (s_head s1)))))))"

definition cseq_size :: "zenv \<Rightarrow> cseq \<Rightarrow> zworld \<Rightarrow> ostream \<Rightarrow> cseq \<times> zworld \<times> ostream" where
  "cseq_size e s0 w io = with_sinit e s0 w io (\<lambda>s.
     let (s1, w1) = seq_tidy e s w
     in (s1, w1, os_push_str (io_OK io) (itostr (int (unat (g_count (s_head s1)))))))"

text \<open>
  \<open>time_stamp\<close> is the text \<^verbatim>\<open>c_time::time_stamp\<close> makes of a time with the time zone of the system.
\<close>

fun seq_seek_loop :: "(u32 \<Rightarrow> string) \<Rightarrow> dbase \<Rightarrow> cseq \<Rightarrow> bool \<Rightarrow> nat \<Rightarrow> u32 \<Rightarrow> ostream \<Rightarrow> ostream" where
  "seq_seek_loop time_stamp db s down_up 0 keyId io = io"
| "seq_seek_loop time_stamp db s down_up (Suc n) keyId io =
     (case seq_get db s keyId of
        None \<Rightarrow> io
      | Some value \<Rightarrow>
          let h = mem_head value;
              io1 = os_push_cstr io (itostr (int (unat keyId)) @ '','' @ time_stamp (g_effective h) @ '','');
              io2 = os_push_buf io1 (drop HEAD_LEN value)
          in seq_seek_loop time_stamp db s down_up n (if down_up then keyId + 1 else keyId - 1) io2)"

definition cseq_seek :: "(u32 \<Rightarrow> string) \<Rightarrow> zenv \<Rightarrow> u32 \<Rightarrow> int \<Rightarrow> cseq \<Rightarrow> zworld \<Rightarrow> ostream \<Rightarrow>
    cseq \<times> zworld \<times> ostream" where
  "cseq_seek time_stamp e keyId index s0 w io = with_sinit e s0 w io (\<lambda>s.
     let (s1, w1) = seq_tidy e s w;
         k = (if keyId = 0 then g_index (s_head s1) else keyId)
     in (s1, w1, seq_seek_loop time_stamp (w_db w1) s1 (index > 0) (nat \<bar>index\<bar>) k (io_OK io)))"

definition cseq_delay :: "zenv \<Rightarrow> u32 \<Rightarrow> cseq \<Rightarrow> zworld \<Rightarrow> ostream \<Rightarrow> cseq \<times> zworld \<times> ostream" where
  "cseq_delay e idelay s0 w io = with_sinit e s0 w io (\<lambda>s.
     let delay = g_delay (s_head s);
         (s1, bh) = seq_update e (s\<lparr>s_head := s_delay idelay (s_head s)\<rparr>) [];
         (db, ok) = db_write (w_db w) bh
     in if ok then (s1, w\<lparr>w_db := db\<rparr>, io_OK io)
        else (s1\<lparr>s_head := s_delay delay (s_head s1)\<rparr>, w\<lparr>w_db := db\<rparr>, zerror_result io ''seq write error.''))"

definition cseq_lookdelay :: "zenv \<Rightarrow> cseq \<Rightarrow> zworld \<Rightarrow> ostream \<Rightarrow> cseq \<times> zworld \<times> ostream" where
  "cseq_lookdelay e s0 w io = with_sinit e s0 w io (\<lambda>s.
     (s, w, os_push_str (io_OK io) (itostr (int (unat (seq_idelay e s))))))"

definition cseq_is_release :: "zenv \<Rightarrow> cseq \<Rightarrow> bool" where
  "cseq_is_release e s \<longleftrightarrow> time32 e > s_effect s"

subsection \<open>Search by time\<close>

text \<open>
  \<^verbatim>\<open>dichotomy\<close> answers the number it looked at, or 0, and the signed difference of the times; the
  reply gets an error for a record of another type.
\<close>

definition dichotomy :: "dbase \<Rightarrow> cseq \<Rightarrow> u32 \<Rightarrow> u32 \<Rightarrow> u32 \<Rightarrow> int \<Rightarrow> ostream \<Rightarrow> u32 \<times> int \<times> ostream" where
  "dichotomy db s datetime b en diff io =
     (let keyId = (if diff < 0 then b + (en - b) div 2 + 1 else b + (en - b) div 2)
      in case get_value db (seq_key (s_key s) keyId) of
           Inl _ \<Rightarrow> (0, diff, io)
         | Inr (value, head) \<Rightarrow>
             if h_type head \<noteq> T_SEQ_VALUE then (0, diff, zerror_result io (zerror_str Zerror_seq_bad))
             else (keyId, sint (g_effective head - datetime), io))"

text \<open>\<^verbatim>\<open>map<int, uint32>::insert\<close>: the first number with a difference is kept.\<close>

fun mfind_insert :: "int \<Rightarrow> u32 \<Rightarrow> (int \<times> u32) list \<Rightarrow> (int \<times> u32) list" where
  "mfind_insert d k [] = [(d, k)]"
| "mfind_insert d k ((d', k') # r) =
     (if d < d' then (d, k) # (d', k') # r else if d = d' then (d', k') # r
      else (d', k') # mfind_insert d k r)"

datatype query_result = Q_Found u32 ostream | Q_Nearest "(int \<times> u32) list" ostream

fun query_loop :: "nat \<Rightarrow> dbase \<Rightarrow> cseq \<Rightarrow> u32 \<Rightarrow> u32 \<Rightarrow> u32 \<Rightarrow> int \<Rightarrow> (int \<times> u32) list \<Rightarrow> ostream \<Rightarrow>
    query_result option" where
  "query_loop 0 db s datetime ibegin iend diff mfind io = None"
| "query_loop (Suc n) db s datetime ibegin iend diff mfind io =
     (let (b, en) =
        (if diff > 0 then (ibegin, ibegin + (iend - ibegin) div 2)
         else if diff < 0 then (ibegin + (iend - ibegin) div 2, iend)
         else (seq_begin_index s, g_index (s_head s)));
          (keyId, diff', io') = dichotomy db s datetime b en diff io
      in if keyId = 0 then Some (Q_Nearest mfind io')
         else if diff' = 0 then Some (Q_Found keyId io')
         else let mfind' = mfind_insert diff' keyId mfind
              in if keyId = b \<or> keyId = en then Some (Q_Nearest mfind' io')
                 else query_loop n db s datetime b en diff' mfind' io')"

fun query_pick :: "(int \<times> u32) list \<Rightarrow> u32 option" where
  "query_pick [] = None"
| "query_pick ((d, k) # r) = (if d > 0 \<or> r = [] then Some k else query_pick r)"

text \<open>34 rounds are enough for every interval; see \<open>query_terminates\<close> below.\<close>

definition cseq_query :: "zenv \<Rightarrow> u32 \<Rightarrow> cseq \<Rightarrow> zworld \<Rightarrow> ostream \<Rightarrow> (cseq \<times> zworld \<times> ostream) option" where
  "cseq_query e datetime s0 w io =
     (case seq_init e (w_db w) s0 of
        (s, False) \<Rightarrow> Some (s, w, zerror_result io ''seq init error.'')
      | (s, True) \<Rightarrow>
          let (s1, w1) = seq_tidy e s w
          in case query_loop 34 (w_db w1) s1 datetime 0 0 0 [] io of
               None \<Rightarrow> None
             | Some (Q_Found k io') \<Rightarrow> Some (s1, w1, os_push_str (io_OK io') (itostr (int (unat k))))
             | Some (Q_Nearest mfind io') \<Rightarrow>
                 (case query_pick mfind of
                    None \<Rightarrow> Some (s1, w1, os_push_cstr io' ''ERROR'')
                  | Some k \<Rightarrow> Some (s1, w1, os_push_str (io_OK io') (itostr (int (unat k))))))"

section \<open>Laws of the header\<close>

lemma seq_head_fields [simp]:
  "g_count (s_count n h) = n" "g_count (s_index n h) = g_count h" "g_count (s_uptime n h) = g_count h"
  "g_count (s_delay n h) = g_count h" "g_count (s_cleantime n h) = g_count h"
  "g_index (s_count n h) = g_index h" "g_index (s_index n h) = n" "g_index (s_uptime n h) = g_index h"
  "g_index (s_delay n h) = g_index h" "g_index (s_cleantime n h) = g_index h"
  "g_delay (s_count n h) = g_delay h" "g_delay (s_index n h) = g_delay h" "g_delay (s_uptime n h) = g_delay h"
  "g_delay (s_delay n h) = n" "g_delay (s_cleantime n h) = g_delay h"
  "g_cleantime (s_count n h) = g_cleantime h" "g_cleantime (s_index n h) = g_cleantime h"
  "g_cleantime (s_uptime n h) = g_cleantime h" "g_cleantime (s_delay n h) = g_cleantime h"
  "g_cleantime (s_cleantime n h) = n" "g_uptime (s_uptime n h) = n"
  "sq_head (s_count n h) = sq_head h" "sq_head (s_index n h) = sq_head h" "sq_head (s_uptime n h) = sq_head h"
  "sq_head (s_delay n h) = sq_head h" "sq_head (s_cleantime n h) = sq_head h"
  "g_count (h\<lparr>sq_head := z\<rparr>) = g_count h" "g_index (h\<lparr>sq_head := z\<rparr>) = g_index h"
  "g_delay (h\<lparr>sq_head := z\<rparr>) = g_delay h" "g_cleantime (h\<lparr>sq_head := z\<rparr>) = g_cleantime h"
  by (simp_all add: g_count_def s_count_def g_index_def s_index_def g_uptime_def s_uptime_def
      g_delay_def s_delay_def g_cleantime_def s_cleantime_def)

lemma length_seq_body [simp]: "length (seq_body h) = 20"
  by (simp add: seq_body_def)

interpretation seqh: fixed_codec seq_mem mem_seq SEQ_HEAD_LEN
  by unfold_locales (simp_all add: seq_mem_def mem_seq_def seq_body_def)

lemma seq_body_head [simp]: "seq_body (h\<lparr>sq_head := z\<rparr>) = seq_body h"
  by (simp add: seq_body_def)

lemma seq_key_inject [simp]: "seq_key k i = seq_key k j \<longleftrightarrow> i = j"
  by (simp add: seq_key_def itostr_uint_inject)

lemma seq_key_neq [simp]: "seq_key k i \<noteq> k" "k \<noteq> seq_key k i"
  by (auto simp: seq_key_def dest: arg_cong [of _ _ length])

text \<open>Initialisation of an object from its record, and of one that is already initialised.\<close>

lemma seq_init_again:
  "s_init s \<Longrightarrow> seq_init e db s = (s\<lparr>s_effect := time32 e + object_effective (cfg e)\<rparr>, True)"
  by (simp add: seq_init_def)

lemma with_sinit_again:
  "s_init s \<Longrightarrow> with_sinit e s w io f = f (s\<lparr>s_effect := time32 e + object_effective (cfg e)\<rparr>)"
  by (simp add: with_sinit_def seq_init_again)

definition seq_sealed :: "seq_head \<Rightarrow> bool" where
  "seq_sealed h \<longleftrightarrow> h_type (sq_head h) = T_SEQ \<and> g_crc (sq_head h) = crc16 0 (seq_body h)"

lemma get_value_seq:
  assumes "db_get db key = Some (seq_mem h)" and "seq_sealed h"
  shows "get_value db key = Inr (seq_mem h, sq_head h)"
proof -
  have "seq_body h \<noteq> []" by (metis length_seq_body list.size(3) zero_neq_numeral)
  then show ?thesis
    using assms unfolding seq_mem_def seq_sealed_def
    by (intro get_value_stored) (simp_all add: check_type_def)
qed

lemma seq_update_simps:
  "s_key (fst (seq_update e s [])) = s_key s" "s_init (fst (seq_update e s [])) = s_init s"
  "snd (seq_update e s bh) = bh @ [Batch_Put (s_key s) (seq_mem (s_head (fst (seq_update e s []))))]"
  "g_count (s_head (fst (seq_update e s []))) = g_count (s_head s)"
  "g_index (s_head (fst (seq_update e s []))) = g_index (s_head s)"
  "g_delay (s_head (fst (seq_update e s []))) = g_delay (s_head s)"
  "g_cleantime (s_head (fst (seq_update e s []))) = g_cleantime (s_head s)"
  "h_type (sq_head (s_head (fst (seq_update e s [])))) = h_type (sq_head (s_head s))"
  by (simp_all add: seq_update_def Let_def)

lemma seq_update_sealed:
  "h_type (sq_head (s_head s)) = T_SEQ \<Longrightarrow> seq_sealed (s_head (fst (seq_update e s [])))"
  by (simp add: seq_update_def Let_def seq_sealed_def)

section \<open>The log as a list\<close>

definition item_at :: "dbase \<Rightarrow> string \<Rightarrow> u32 \<Rightarrow> u32 \<times> bytes \<Rightarrow> bool" where
  "item_at db key keyId x \<longleftrightarrow> (\<exists>h. get_value db (seq_key key keyId) = Inr (head_mem h @ snd x, h) \<and>
     h_type h = T_SEQ_VALUE \<and> g_effective h = fst x)"

fun seq_items :: "dbase \<Rightarrow> string \<Rightarrow> u32 \<Rightarrow> (u32 \<times> bytes) list \<Rightarrow> bool" where
  "seq_items db key b [] \<longleftrightarrow> True"
| "seq_items db key b (x # xs) \<longleftrightarrow> item_at db key b x \<and> seq_items db key (b + 1) xs"

text \<open>
  \<open>seq_rep db s xs\<close>: the object \<open>s\<close> holds the (time, value) pairs \<open>xs\<close>, oldest first, and no number
  outside its interval has a record.
\<close>

definition seq_rep :: "dbase \<Rightarrow> cseq \<Rightarrow> (u32 \<times> bytes) list \<Rightarrow> bool" where
  "seq_rep db s xs \<longleftrightarrow> s_init s \<and> h_type (sq_head (s_head s)) = T_SEQ \<and>
     g_count (s_head s) = of_nat (length xs) \<and> length xs < 4294967295 \<and>
     seq_items db (s_key s) (seq_begin_index s) xs \<and>
     (\<forall>i. length xs \<le> unat (i - seq_begin_index s) \<longrightarrow> db_get db (seq_key (s_key s) i) = None)"

lemma item_at_cong:
  "db_get db (seq_key key i) = db_get db' (seq_key key i) \<Longrightarrow> item_at db key i x = item_at db' key i x"
  by (simp add: item_at_def get_value_cong [of db "seq_key key i" db'])

lemma seq_items_append:
  "seq_items db key b (xs @ ys) \<longleftrightarrow> seq_items db key b xs \<and> seq_items db key (b + of_nat (length xs)) ys"
  by (induct xs arbitrary: b) (auto simp: algebra_simps)

lemma seq_items_cong:
  assumes "\<And>j. j < length xs \<Longrightarrow> db_get db (seq_key key (b + of_nat j)) = db_get db' (seq_key key (b + of_nat j))"
  shows "seq_items db key b xs = seq_items db' key b xs"
  using assms
proof (induct xs arbitrary: b)
  case (Cons x xs)
  have "seq_items db key (b + 1) xs = seq_items db' key (b + 1) xs"
  proof (rule Cons.hyps)
    fix j assume "j < length xs"
    then show "db_get db (seq_key key (b + 1 + of_nat j)) = db_get db' (seq_key key (b + 1 + of_nat j))"
      using Cons.prems [of "Suc j"] by (simp add: add.assoc)
  qed
  moreover have "item_at db key b x = item_at db' key b x"
    by (rule item_at_cong) (use Cons.prems [of 0] in simp)
  ultimately show ?case by simp
qed simp

lemma seq_rep_effect [simp]: "seq_rep db (s\<lparr>s_effect := t\<rparr>) xs = seq_rep db s xs"
  by (simp add: seq_rep_def seq_begin_index_def)

lemma unat_of_nat_u32: "n < 4294967296 \<Longrightarrow> unat (of_nat n :: u32) = n"
  by (simp add: unat_of_nat take_bit_eq_mod)

lemma seq_rep_begin:
  assumes "seq_rep db s xs"
  shows "seq_begin_index s + of_nat (length xs) = g_index (s_head s) + 1"
  using assms by (simp add: seq_rep_def seq_begin_index_def)

lemma seq_rep_offset:
  assumes "seq_rep db s xs" and "j < length xs"
  shows "seq_begin_index s + of_nat j \<noteq> g_index (s_head s) + 1"
proof
  assume "seq_begin_index s + of_nat j = g_index (s_head s) + 1"
  then have "(of_nat j :: u32) = of_nat (length xs)"
    using seq_rep_begin [OF assms(1)] by (metis add_left_cancel)
  moreover have "length xs < 4294967295" using assms(1) by (simp add: seq_rep_def)
  ultimately show False
    using assms(2) unat_of_nat_u32 [of j] unat_of_nat_u32 [of "length xs"] by simp
qed

lemma seq_value_head_simps [simp]:
  "h_type (seq_value_head e v) = T_SEQ_VALUE" "g_effective (seq_value_head e v) = time32 e"
  "g_crc (seq_value_head e v) = crc16 0 v"
  by (simp_all add: seq_value_head_def head_new_def)

lemma item_at_stored:
  "db_get db (seq_key key i) = Some (head_mem (seq_value_head e v) @ v) \<Longrightarrow> v \<noteq> [] \<Longrightarrow>
   item_at db key i (time32 e, v)"
  using get_value_stored [of db "seq_key key i" "seq_value_head e v" v]
  by (auto simp: item_at_def check_type_def)

lemma seq_rep_push:
  assumes rep: "seq_rep db s xs" and len: "length xs < 4294967294" and v: "v \<noteq> []"
    and new: "db_get db' (seq_key (s_key s) (g_index (s_head s) + 1)) = Some (head_mem (seq_value_head e v) @ v)"
    and old: "\<And>i. i \<noteq> g_index (s_head s) + 1 \<Longrightarrow> db_get db' (seq_key (s_key s) i) = db_get db (seq_key (s_key s) i)"
    and s': "s_init s'" "s_key s' = s_key s" "h_type (sq_head (s_head s')) = T_SEQ"
      "g_index (s_head s') = g_index (s_head s) + 1" "g_count (s_head s') = g_count (s_head s) + 1"
  shows "seq_rep db' s' (xs @ [(time32 e, v)])"
proof -
  have b: "seq_begin_index s' = seq_begin_index s" by (simp add: seq_begin_index_def s')
  have "seq_items db' (s_key s) (seq_begin_index s) xs = seq_items db (s_key s) (seq_begin_index s) xs"
    by (rule seq_items_cong) (rule old, rule seq_rep_offset [OF rep])
  then have "seq_items db' (s_key s) (seq_begin_index s) (xs @ [(time32 e, v)])"
    using rep item_at_stored [OF new v] by (simp add: seq_items_append seq_rep_begin [OF rep], simp add: seq_rep_def)
  moreover have "db_get db' (seq_key (s_key s) i) = None"
    if "Suc (length xs) \<le> unat (i - seq_begin_index s)" for i
  proof -
    have "g_index (s_head s) + 1 - seq_begin_index s = of_nat (length xs)"
      using seq_rep_begin [OF rep] by (simp add: algebra_simps)
    then have "i \<noteq> g_index (s_head s) + 1"
      using that unat_of_nat_u32 [of "length xs"] len by auto
    then show ?thesis using old rep that by (simp add: seq_rep_def)
  qed
  ultimately show ?thesis using rep len s' b by (simp add: seq_rep_def)
qed

lemma seq_push_step:
  assumes "seq_rep (w_db w) s xs" and "db_reliable (w_db w)" and "v \<noteq> []" and "length xs < 4294967294"
  shows "\<exists>s' w'. cseq_push e v d s w io =
      (s', w', os_push_str (io_OK io) (itostr (int (unat (g_index (s_head s) + 1))))) \<and>
    seq_rep (w_db w') s' (xs @ [(time32 e, v)]) \<and> g_index (s_head s') = g_index (s_head s) + 1 \<and>
    s_key s' = s_key s \<and> g_cleantime (s_head s') = g_cleantime (s_head s) \<and> db_reliable (w_db w') \<and>
    (d = 0 \<longrightarrow> g_delay (s_head s') = g_delay (s_head s)) \<and>
    db_get (w_db w') (s_key s') = Some (seq_mem (s_head s')) \<and> seq_sealed (s_head s')"
proof -
  define s0 where "s0 = s\<lparr>s_effect := time32 e + object_effective (cfg e)\<rparr>"
  define s1 where "s1 = fst (seq_set e s0 [] v)"
  define s2 where "s2 = (if d > 0 then s1\<lparr>s_head := s_delay d (s_head s1)\<rparr> else s1)"
  define s3 where "s3 = fst (seq_update e s2 [])"
  define item where "item = head_mem (seq_value_head e v) @ v"
  define bh where "bh = [Batch_Put (seq_key (s_key s) (g_index (s_head s) + 1)) item, Batch_Put (s_key s) (seq_mem (s_head s3))]"
  define db' where "db' = fst (db_write (w_db w) bh)"
  have rep: "seq_rep (w_db w) s0 xs" using assms(1) by (simp add: s0_def)
  have init: "s_init s" using assms(1) by (simp add: seq_rep_def)
  have dbw: "db_write (w_db w) bh = (db', True)"
    using db_write_reliable(1) [OF assms(2), of bh] by (simp add: prod_eq_iff db'_def)
  have set: "seq_set e s0 [] v = (s1, [Batch_Put (seq_key (s_key s) (g_index (s_head s) + 1)) item])"
    by (simp add: s1_def seq_set_def Let_def s0_def item_def)
  have s2: "s_key s2 = s_key s" "s_init s2" "g_index (s_head s2) = g_index (s_head s) + 1"
    "g_count (s_head s2) = g_count (s_head s) + 1" "h_type (sq_head (s_head s2)) = T_SEQ"
    "g_cleantime (s_head s2) = g_cleantime (s_head s)" "d = 0 \<Longrightarrow> g_delay (s_head s2) = g_delay (s_head s)"
    using assms(1) by (simp_all add: s2_def s1_def seq_set_def Let_def s0_def seq_rep_def)
  have upd: "seq_update e s2 [Batch_Put (seq_key (s_key s) (g_index (s_head s) + 1)) item] = (s3, bh)"
    by (simp add: prod_eq_iff s2 s3_def bh_def seq_update_def Let_def)
  have s3: "s_key s3 = s_key s" "s_init s3" "g_index (s_head s3) = g_index (s_head s) + 1"
    "g_count (s_head s3) = g_count (s_head s) + 1" "h_type (sq_head (s_head s3)) = T_SEQ" "seq_sealed (s_head s3)"
    "g_cleantime (s_head s3) = g_cleantime (s_head s)" "d = 0 \<Longrightarrow> g_delay (s_head s3) = g_delay (s_head s)"
    using s2 seq_update_sealed [OF s2(5)] unfolding s3_def by (simp_all add: seq_update_simps)
  have run: "cseq_push e v d s w io =
      (s3, w\<lparr>w_db := db'\<rparr>, os_push_str (io_OK io) (itostr (int (unat (g_index (s_head s) + 1)))))"
    unfolding cseq_push_def with_sinit_again [OF init] s0_def [symmetric] Let_def set
    by (simp add: s2_def [symmetric] upd dbw s3(3))
  note get = db_write_reliable(3) [OF assms(2), of bh, folded db'_def]
  have "seq_rep db' s3 (xs @ [(time32 e, v)])"
    by (rule seq_rep_push [OF assms(1,4,3) _ _ s3(2,1,5,3,4)])
      (simp_all add: get bh_def item_def)
  moreover have "db_get db' (s_key s) = Some (seq_mem (s_head s3))" by (simp add: get bh_def)
  moreover have "db_reliable db'" using db_write_reliable(2) [OF assms(2), of bh] by (simp add: db'_def)
  ultimately show ?thesis using run s3 by simp
qed

text \<open>A sequence of PUSH commands.\<close>

fun seq_pushes :: "(zenv \<times> bytes \<times> u32) list \<Rightarrow> cseq \<Rightarrow> zworld \<Rightarrow> cseq \<times> zworld \<times> ostream list" where
  "seq_pushes [] s w = (s, w, [])"
| "seq_pushes ((e, v, d) # ps) s w =
     (let (s1, w1, io) = cseq_push e v d s w (Os_array []); (s2, w2, ios) = seq_pushes ps s1 w1
      in (s2, w2, io # ios))"

text \<open>
  C20. A sequence of PUSH commands appends the values with their times, in order, under consecutive
  numbers; the replies are these numbers, and every older value is kept.
\<close>

theorem seq_pushes_spec:
  assumes "seq_rep (w_db w) s xs" and "db_reliable (w_db w)" and "\<forall>p \<in> set ps. fst (snd p) \<noteq> []"
    and "length xs + length ps < 4294967295"
  shows "\<exists>s' w'. seq_pushes ps s w = (s', w',
      map (\<lambda>j. os_push_str (io_OK (Os_array [])) (itostr (int (unat (g_index (s_head s) + of_nat (Suc j)))))) [0..<length ps]) \<and>
    seq_rep (w_db w') s' (xs @ map (\<lambda>p. (time32 (fst p), fst (snd p))) ps)"
  using assms
proof (induct ps arbitrary: s w xs)
  case (Cons p ps)
  obtain e v d where p: "p = (e, v, d)" by (cases p)
  have "v \<noteq> []" "length xs < 4294967294" using Cons.prems(3,4) p by auto
  from seq_push_step [OF Cons.prems(1,2) this, of e d "Os_array []"] obtain s1 w1 where
    s1: "cseq_push e v d s w (Os_array []) =
        (s1, w1, os_push_str (io_OK (Os_array [])) (itostr (int (unat (g_index (s_head s) + 1)))))"
      "seq_rep (w_db w1) s1 (xs @ [(time32 e, v)])" "g_index (s_head s1) = g_index (s_head s) + 1"
      "db_reliable (w_db w1)" by blast
  have "\<forall>p \<in> set ps. fst (snd p) \<noteq> []" "length (xs @ [(time32 e, v)]) + length ps < 4294967295"
    using Cons.prems(3,4) by simp_all
  from Cons.hyps [OF s1(2,4) this] obtain s2 w2 where
    s2: "seq_pushes ps s1 w1 = (s2, w2, map (\<lambda>j. os_push_str (io_OK (Os_array []))
        (itostr (int (unat (g_index (s_head s) + 1 + of_nat (Suc j)))))) [0..<length ps])"
      "seq_rep (w_db w2) s2 ((xs @ [(time32 e, v)]) @ map (\<lambda>p. (time32 (fst p), fst (snd p))) ps)"
    unfolding s1(3) by blast
  have "map f [0..<length (p # ps)] = f 0 # map (\<lambda>j. f (Suc j)) [0..<length ps]" for f :: "nat \<Rightarrow> ostream"
    by (simp add: map_upt_Suc del: upt_Suc)
  then show ?case using s1(1) s2 by (simp add: p add.assoc del: upt_Suc)
qed simp

text \<open>Logs exist: the states the examples below start from.\<close>

lemma htonl_0 [simp]: "htonl 0 = 0"
  using base_head_simps(2) [of T_SEQ] by (simp add: g_effective_def base_head_def)

lemma seq_rep_new:
  assumes "\<And>i. db_get db (seq_key key i) = None"
  shows "seq_rep db ((cseq_new e key)\<lparr>s_init := True\<rparr>) []"
  using assms by (simp add: seq_rep_def cseq_new_def, simp add: g_count_def s_cleantime_def s_delay_def)

lemma seq_log_exists:
  assumes "\<forall>p \<in> set ps. snd p \<noteq> []" and "length ps < 4294967294"
  shows "\<exists>(s :: cseq) (w :: zworld). seq_rep (w_db w) s (map (\<lambda>p. (time32 (fst p), snd p)) ps) \<and> db_reliable (w_db w) \<and>
    g_index (s_head s) = of_nat (length ps) \<and> g_cleantime (s_head s) = time32 e \<and> g_delay (s_head s) = 0 \<and>
    (ps \<noteq> [] \<longrightarrow> db_get (w_db w) (s_key s) = Some (seq_mem (s_head s)) \<and> seq_sealed (s_head s))"
  using assms
proof (induct ps rule: rev_induct)
  case Nil
  define w where "w = \<lparr>w_db = \<lparr>db_map = [], db_ok = (\<lambda>_. True), db_tick = 0\<rparr>, w_tmo = timeout_new e\<rparr>"
  have "seq_rep (w_db w) ((cseq_new e ''k'')\<lparr>s_init := True\<rparr>) []"
    by (rule seq_rep_new) (simp add: w_def db_get_def)
  moreover have "db_reliable (w_db w)" by (simp add: w_def db_reliable_def db_inv_def)
  moreover have "g_index (s_head (cseq_new e ''k'')) = 0" "g_cleantime (s_head (cseq_new e ''k'')) = time32 e"
    "g_delay (s_head (cseq_new e ''k'')) = 0"
    by (simp_all add: cseq_new_def, simp add: g_index_def)
  ultimately show ?case by (intro exI [of _ "(cseq_new e ''k'')\<lparr>s_init := True\<rparr>"] exI [of _ w]) simp
next
  case (snoc p ps)
  then obtain s :: cseq and w :: zworld where s: "seq_rep (w_db w) s (map (\<lambda>p. (time32 (fst p), snd p)) ps)" "db_reliable (w_db w)"
    "g_index (s_head s) = of_nat (length ps)" "g_cleantime (s_head s) = time32 e"
    "g_delay (s_head s) = 0" by auto
  have "snd p \<noteq> []" "length (map (\<lambda>p. (time32 (fst p), snd p)) ps) < 4294967294" using snoc.prems by auto
  from seq_push_step [OF s(1,2) this, of "fst p" 0 "Os_array []"] obtain s' :: cseq and w' :: zworld where
    "seq_rep (w_db w') s' (map (\<lambda>p. (time32 (fst p), snd p)) ps @ [(time32 (fst p), snd p)])"
    "g_index (s_head s') = g_index (s_head s) + 1" "g_cleantime (s_head s') = g_cleantime (s_head s)"
    "g_delay (s_head s') = g_delay (s_head s)" "db_reliable (w_db w')" "db_get (w_db w') (s_key s') = Some (seq_mem (s_head s'))" "seq_sealed (s_head s')"
    by blast
  then show ?case using s(3-5) by (intro exI [of _ s'] exI [of _ w']) simp
qed

lemma s_count_simps [simp]: "s_count (g_count h) h = h" "s_count n (s_count m h) = s_count n h"
  by (simp_all add: s_count_def g_count_def)

abbreviation seq_old :: "zenv \<Rightarrow> u32 \<Rightarrow> u32 \<times> bytes \<Rightarrow> bool" where
  "seq_old e d x \<equiv> unat (fst x + d) \<le> now e"

lemma seq_expired_item:
  "item_at db (s_key s) i x \<Longrightarrow> seq_expired e db s i \<longleftrightarrow> seq_old e (seq_idelay e s) x"
  by (auto simp: item_at_def seq_expired_def)

lemma seq_expired_missing:
  "db_get db (seq_key (s_key s) i) = None \<Longrightarrow> \<not> seq_expired e db s i"
  by (simp add: seq_expired_def)

lemma seq_clean_spec:
  assumes "seq_items db (s_key s) b xs" and "db_get db (seq_key (s_key s) (b + of_nat (length xs))) = None"
    and "length xs < n" and "k = length (takeWhile (seq_old e (seq_idelay e s)) xs)"
  shows "seq_clean n e db b s bh =
    (s\<lparr>s_head := s_count (g_count (s_head s) - of_nat k) (s_head s)\<rparr>,
     bh @ map (\<lambda>i. Batch_Delete (seq_key (s_key s) (b + of_nat i))) [0..<k])"
  using assms
proof (induct xs arbitrary: n b s bh k)
  case Nil
  then obtain m where "n = Suc m" by (cases n) auto
  then show ?case using Nil seq_expired_missing [of db s b e] by simp
next
  case (Cons x xs)
  obtain m where n: "n = Suc m" using Cons.prems(3) by (cases n) auto
  note ex = seq_expired_item [of db s b x e]
  show ?case
  proof (cases "seq_old e (seq_idelay e s) x")
    case False
    then show ?thesis using Cons.prems ex n by simp
  next
    case True
    define s' where "s' = s\<lparr>s_head := s_count (g_count (s_head s) - 1) (s_head s)\<rparr>"
    have d: "seq_idelay e s' = seq_idelay e s" "s_key s' = s_key s" by (simp_all add: seq_idelay_def s'_def)
    define k' where "k' = length (takeWhile (seq_old e (seq_idelay e s)) xs)"
    have k: "k = Suc k'" using Cons.prems(4) True by (simp add: k'_def)
    have "seq_clean m e db (b + 1) s' (bh @ [Batch_Delete (seq_key (s_key s) b)]) =
      (s'\<lparr>s_head := s_count (g_count (s_head s') - of_nat k') (s_head s')\<rparr>,
       (bh @ [Batch_Delete (seq_key (s_key s) b)]) @
         map (\<lambda>i. Batch_Delete (seq_key (s_key s') (b + 1 + of_nat i))) [0..<k'])"
      using Cons.prems n d by (intro Cons.hyps) (simp_all add: k'_def algebra_simps)
    moreover have "map (\<lambda>i. Batch_Delete (seq_key (s_key s) (b + of_nat i))) [0..<k] =
      Batch_Delete (seq_key (s_key s) b) # map (\<lambda>i. Batch_Delete (seq_key (s_key s) (b + 1 + of_nat i))) [0..<k']"
      unfolding k map_upt_Suc by (simp add: add.assoc)
    ultimately show ?thesis
      using Cons.prems(1) True ex n k d
      by (simp add: seq_del_def s'_def [symmetric]) (simp add: s'_def diff_diff_eq add.commute)
  qed
qed

text \<open>The records of the log are different records of the database.\<close>

lemma seq_items_nth:
  "seq_items db key b xs \<Longrightarrow> j < length xs \<Longrightarrow> item_at db key (b + of_nat j) (xs ! j)"
proof (induct xs arbitrary: b j)
  case (Cons x xs)
  show ?case
  proof (cases j)
    case (Suc i)
    then show ?thesis using Cons.hyps [of "b + 1" i] Cons.prems by (simp add: add.assoc)
  qed (use Cons.prems in simp)
qed simp

lemma item_at_get: "item_at db key i x \<Longrightarrow> db_get db (seq_key key i) \<noteq> None"
  by (rule notI) (simp add: item_at_def)

lemma seq_items_length:
  assumes "seq_items db key b xs" and "length xs < 4294967296" and "db_inv db"
  shows "length xs \<le> length (db_map db)"
proof -
  let ?f = "\<lambda>j. seq_key key (b + of_nat j)"
  have inj: "inj_on ?f {..<length xs}"
  proof (rule inj_onI)
    fix i j assume ij: "i \<in> {..<length xs}" "j \<in> {..<length xs}" "?f i = ?f j"
    from ij(3) have "unat (of_nat i :: u32) = unat (of_nat j :: u32)" by simp
    moreover have "i < 4294967296" "j < 4294967296" using ij(1,2) assms(2) by simp_all
    ultimately show "i = j" by (simp only: unat_of_nat_u32)
  qed
  have "?f ` {..<length xs} \<subseteq> fst ` set (db_map db)"
  proof
    fix y assume "y \<in> ?f ` {..<length xs}"
    then obtain j where j: "j < length xs" "y = ?f j" by blast
    have "db_get db y \<noteq> None"
      using item_at_get [OF seq_items_nth [OF assms(1) j(1)]] j(2) by simp
    then have "map_of (db_map db) y \<noteq> None" by (simp add: db_get_def om_find_def del: not_None_eq)
    then show "y \<in> fst ` set (db_map db)" by (simp add: map_of_eq_None_iff del: not_None_eq)
  qed
  then have "card (?f ` {..<length xs}) \<le> card (fst ` set (db_map db))" by (rule card_mono [rotated]) simp
  also have "\<dots> \<le> length (db_map db)" using card_length [of "map fst (db_map db)"] by simp
  finally show ?thesis using card_image [OF inj] by simp
qed

lemma seq_rep_drop:
  assumes rep: "seq_rep db s xs" and k: "k \<le> length xs"
    and del: "\<And>i. db_get db' (seq_key (s_key s) i) =
      (if unat (i - seq_begin_index s) < k then None else db_get db (seq_key (s_key s) i))"
    and s': "s_init s'" "s_key s' = s_key s" "h_type (sq_head (s_head s')) = T_SEQ"
      "g_index (s_head s') = g_index (s_head s)" "g_count (s_head s') = g_count (s_head s) - of_nat k"
  shows "seq_rep db' s' (drop k xs)"
proof -
  let ?b = "seq_begin_index s"
  have len: "length xs < 4294967295" using rep by (simp add: seq_rep_def)
  have b: "seq_begin_index s' = ?b + of_nat k" by (simp add: seq_begin_index_def s' algebra_simps)
  have "seq_items db (s_key s) ?b (take k xs @ drop k xs)" using rep by (simp add: seq_rep_def)
  then have "seq_items db (s_key s) (?b + of_nat k) (drop k xs)"
    using k unfolding seq_items_append by (simp add: min.absorb2)
  moreover have "seq_items db' (s_key s) (?b + of_nat k) (drop k xs) = seq_items db (s_key s) (?b + of_nat k) (drop k xs)"
  proof (rule seq_items_cong)
    fix j assume j: "j < length (drop k xs)"
    have "?b + of_nat k + of_nat j - ?b = (of_nat (k + j) :: u32)" by simp
    then have "unat (?b + of_nat k + of_nat j - ?b) = k + j"
      using j len unat_of_nat_u32 [of "k + j"] by simp
    then show "db_get db' (seq_key (s_key s) (?b + of_nat k + of_nat j)) = db_get db (seq_key (s_key s) (?b + of_nat k + of_nat j))"
      by (simp add: del)
  qed
  moreover have "db_get db' (seq_key (s_key s) i) = None" if i: "length xs - k \<le> unat (i - (?b + of_nat k))" for i
  proof (cases "unat (i - ?b) < k")
    case False
    define u where "u = unat (i - ?b)"
    have "i - (?b + of_nat k) = of_nat (u - k)"
      using False by (simp add: u_def of_nat_diff algebra_simps)
    moreover have "u < 4294967296" unfolding u_def by (rule unat_bounds(3))
    ultimately have "unat (i - (?b + of_nat k)) = u - k" using unat_of_nat_u32 [of "u - k"] by simp
    then have "length xs \<le> u" using i k False u_def by linarith
    then show ?thesis using False rep u_def by (simp add: del seq_rep_def)
  qed (simp add: del)
  moreover have "g_count (s_head s') = of_nat (length (drop k xs))"
    using rep k by (simp add: s' seq_rep_def of_nat_diff)
  ultimately show ?thesis using s' len b by (simp add: seq_rep_def)
qed

lemma offset_range:
  fixes b i :: u32
  assumes "k < 4294967296"
  shows "i \<in> (\<lambda>j. b + of_nat j) ` {..<k} \<longleftrightarrow> unat (i - b) < k"
proof
  assume "i \<in> (\<lambda>j. b + of_nat j) ` {..<k}"
  then obtain j where "j < k" "i - b = of_nat j" by auto
  then show "unat (i - b) < k" using assms unat_of_nat_u32 [of j] by simp
next
  assume "unat (i - b) < k"
  then show "i \<in> (\<lambda>j. b + of_nat j) ` {..<k}"
    by (intro image_eqI [of _ _ "unat (i - b)"]) simp_all
qed

text \<open>
  C21. When cleaning is due it removes exactly the expired values at the front of the log, up to the
  first value that is still valid, and keeps the numbers of all others; a value is expired when its
  time plus the delay, as a 32-bit sum, is not after the clock.
\<close>

theorem seq_remove_spec:
  assumes "seq_rep (w_db w) s xs" and "db_reliable (w_db w)" and "seq_is_clean e s"
  shows "\<exists>s' w'. cseq_remove e s w io = (s', w', io_OK io) \<and>
    seq_rep (w_db w') s' (dropWhile (seq_old e (seq_idelay e s)) xs) \<and>
    g_index (s_head s') = g_index (s_head s) \<and> g_cleantime (s_head s') = time32 e"
proof -
  define s0 where "s0 = s\<lparr>s_effect := time32 e + object_effective (cfg e)\<rparr>"
  define k where "k = length (takeWhile (seq_old e (seq_idelay e s)) xs)"
  define b where "b = seq_begin_index s"
  define dels where "dels = map (\<lambda>i. Batch_Delete (seq_key (s_key s) (b + of_nat i))) [0..<k]"
  define s2 where "s2 = s0\<lparr>s_head := s_cleantime (time32 e) (s_count (g_count (s_head s) - of_nat k) (s_head s))\<rparr>"
  define s3 where "s3 = fst (seq_update e s2 [])"
  define bh where "bh = dels @ [Batch_Put (s_key s) (seq_mem (s_head s3))]"
  define db' where "db' = fst (db_write (w_db w) bh)"
  have rep: "seq_items (w_db w) (s_key s) b xs" "length xs < 4294967295" "s_init s" "db_inv (w_db w)"
    "db_get (w_db w) (seq_key (s_key s) (b + of_nat (length xs))) = None" "h_type (sq_head (s_head s)) = T_SEQ"
    using assms(1,2) unat_of_nat_u32 [of "length xs"] by (auto simp: seq_rep_def b_def db_reliable_def)
  have k: "k \<le> length xs" unfolding k_def by (rule length_takeWhile_le)
  have s0: "s_key s0 = s_key s" "s_head s0 = s_head s" "seq_idelay e s0 = seq_idelay e s"
    "seq_begin_index s0 = b" "seq_is_clean e s0"
    using assms(3) by (simp_all add: s0_def seq_idelay_def seq_begin_index_def b_def seq_is_clean_def)
  have dbw: "db_write (w_db w) bh = (db', True)"
    using db_write_reliable(1) [OF assms(2), of bh] by (simp add: prod_eq_iff db'_def)
  have clean: "seq_clean (Suc (length (db_map (w_db w)))) e (w_db w) b s0 [] =
      (s0\<lparr>s_head := s_count (g_count (s_head s) - of_nat k) (s_head s)\<rparr>, dels)"
    using seq_items_length [OF rep(1) _ rep(4)] rep s0
      seq_clean_spec [of "w_db w" s0 b xs "Suc (length (db_map (w_db w)))" k e "[]"]
    by (simp add: dels_def k_def del: seq_clean.simps)
  have upd: "seq_update e s2 dels = (s3, bh)"
    by (simp add: prod_eq_iff s2_def s0 s3_def bh_def seq_update_def Let_def)
  have run: "cseq_remove e s w io = (s3, w\<lparr>w_db := db'\<rparr>, io_OK io)"
    unfolding cseq_remove_def with_sinit_again [OF rep(3)] s0_def [symmetric]
    using s0(5) by (simp add: s0 clean s2_def [symmetric] upd dbw del: seq_clean.simps)
  have s3: "s_init s3" "s_key s3 = s_key s" "h_type (sq_head (s_head s3)) = T_SEQ"
    "g_index (s_head s3) = g_index (s_head s)" "g_count (s_head s3) = g_count (s_head s) - of_nat k"
    "g_cleantime (s_head s3) = time32 e"
    using rep unfolding s3_def seq_update_simps by (simp_all add: s2_def s0_def)
  have "db_get db' (seq_key (s_key s) i) =
      (if unat (i - b) < k then None else db_get (w_db w) (seq_key (s_key s) i))" for i
  proof -
    have "k < 4294967296" using k rep(2) by linarith
    then have "seq_key (s_key s) i \<in> (\<lambda>j. seq_key (s_key s) (b + of_nat j)) ` {0..<k} \<longleftrightarrow> unat (i - b) < k"
      using offset_range [of k i b] by (auto simp: image_iff atLeast0LessThan)
    then show ?thesis
      unfolding db'_def db_write_reliable(3) [OF assms(2)]
      by (simp add: bh_def dels_def last_write_append last_write_deletes)
  qed
  then have "seq_rep db' s3 (drop k xs)"
    using seq_rep_drop [OF assms(1) k _ s3(1-5)] by (simp add: b_def)
  then show ?thesis using run s3 by (simp add: k_def dropWhile_eq_drop)
qed

subsection \<open>Reading\<close>

fun push_entries :: "(u32 \<Rightarrow> string) \<Rightarrow> u32 \<Rightarrow> (u32 \<times> bytes) list \<Rightarrow> ostream \<Rightarrow> ostream" where
  "push_entries ts k [] io = io"
| "push_entries ts k (x # xs) io = push_entries ts (k + 1) xs
     (os_push_buf (os_push_cstr io (itostr (int (unat k)) @ '','' @ ts (fst x) @ '','')) (snd x))"

lemma seq_get_item: "item_at db (s_key s) i x \<Longrightarrow>
    \<exists>h. seq_get db s i = Some (head_mem h @ snd x) \<and> g_effective h = fst x"
  by (auto simp: item_at_def seq_get_def)

lemma seq_seek_up:
  assumes "seq_items db (s_key s) b xs" and "db_get db (seq_key (s_key s) (b + of_nat (length xs))) = None"
  shows "seq_seek_loop ts db s True n b io = push_entries ts b (take n xs) io"
  using assms
proof (induct n arbitrary: b xs io)
  case (Suc n)
  show ?case
  proof (cases xs)
    case Nil
    then show ?thesis using Suc.prems(2) by (simp add: seq_get_def)
  next
    case (Cons x ys)
    obtain h where h: "seq_get db s b = Some (head_mem h @ snd x)" "g_effective h = fst x"
      using seq_get_item Suc.prems(1) Cons by force
    have "seq_seek_loop ts db s True n (b + 1) io' = push_entries ts (b + 1) (take n ys) io'" for io'
      using Suc.prems Cons by (intro Suc.hyps) (simp_all add: algebra_simps)
    then show ?thesis by (simp add: Cons h Let_def)
  qed
qed simp

text \<open>
  C22. SEEK with a positive count answers the entries from the given number on, oldest first, as long
  as there are any; number, time stamp and value of each.
\<close>

theorem seq_seek_spec:
  assumes "seq_rep (w_db w) s xs" and "\<not> seq_is_clean e s" and "j < length xs"
    and "keyId = seq_begin_index s + of_nat j" and "keyId \<noteq> 0"
  shows "snd (cseq_seek ts e keyId (int (Suc n)) s w io) =
    (w, push_entries ts keyId (take (Suc n) (drop j xs)) (io_OK io))"
proof -
  define s0 where "s0 = s\<lparr>s_effect := time32 e + object_effective (cfg e)\<rparr>"
  have s0: "s_key s0 = s_key s" "\<not> seq_is_clean e s0" "s_init s"
    using assms by (simp_all add: s0_def seq_is_clean_def seq_rep_def)
  have "seq_items (w_db w) (s_key s) (seq_begin_index s) (take j xs @ drop j xs)"
    using assms(1) by (simp add: seq_rep_def)
  then have items: "seq_items (w_db w) (s_key s) keyId (drop j xs)"
    using assms(3,4) unfolding seq_items_append by (simp add: min.absorb2)
  have "keyId + of_nat (length (drop j xs)) = seq_begin_index s + of_nat (length xs)"
    using assms(3,4) by (simp add: of_nat_diff)
  then have "db_get (w_db w) (seq_key (s_key s) (keyId + of_nat (length (drop j xs)))) = None"
    using assms(1) unat_of_nat_u32 [of "length xs"] by (simp add: seq_rep_def)
  then have "seq_seek_loop ts (w_db w) s0 True (Suc n) keyId (io_OK io) =
      push_entries ts keyId (take (Suc n) (drop j xs)) (io_OK io)"
    using items s0(1) by (intro seq_seek_up) simp_all
  then show ?thesis
    unfolding cseq_seek_def with_sinit_again [OF s0(3)] s0_def [symmetric]
    using s0(2) assms(5) by (simp add: seq_tidy_def nat_add_distrib del: seq_seek_loop.simps)
qed

section \<open>Reloading and failing writes\<close>

text \<open>
  C23. A new object loads the header of the old one from its record, and with it the same log.
\<close>

theorem seq_reload_same:
  assumes "seq_rep db s xs" and "db_get db (s_key s) = Some (seq_mem (s_head s))" and "seq_sealed (s_head s)"
  shows "\<exists>s'. seq_init e db (cseq_new e (s_key s)) = (s', True) \<and> s_head s' = s_head s \<and> seq_rep db s' xs"
proof -
  have "seq_init e db (cseq_new e (s_key s)) =
      ((cseq_new e (s_key s))\<lparr>s_head := s_head s, s_init := True\<rparr>, True)"
    using get_value_seq [OF assms(2,3)] assms(3) seqh.dec_enc [of "s_head s" "[]"] seqh.enc_length
    by (simp add: seq_init_def cseq_new_def seq_load_value_def seq_sealed_def)
  moreover have "seq_rep db ((cseq_new e (s_key s))\<lparr>s_head := s_head s, s_init := True\<rparr>) xs"
    using assms(1) unfolding seq_rep_def seq_begin_index_def by (auto simp: cseq_new_def)
  ultimately show ?thesis by simp
qed


section \<open>Search by time\<close>

lemma unat_div2: "unat (x div 2) = unat (x :: u32) div 2"
  by (simp add: unat_div_distrib)

lemma half_up:
  fixes b en :: u32
  shows "unat (en - (b + (en - b) div 2)) = unat (en - b) - unat (en - b) div 2"
proof -
  have "en - (b + (en - b) div 2) = (en - b) - (en - b) div 2" by simp
  moreover have "(en - b) div 2 \<le> en - b" by (simp add: word_le_nat_alt unat_div2)
  ultimately show ?thesis by (simp only: unat_sub unat_div2)
qed

text \<open>
  The interval is halved in every round and the loop ends when it has length 1: \<open>n\<close> rounds are enough
  for an interval of length at most \<open>2 ^ n\<close>.
\<close>

lemma query_loop_returns:
  assumes "diff \<noteq> 0" and "2 \<le> unat (iend - ibegin)" and "unat (iend - ibegin) \<le> 2 ^ n" and "n \<le> m"
  shows "query_loop m db s datetime ibegin iend diff mfind io \<noteq> None"
  using assms
proof (induct n arbitrary: m ibegin iend diff mfind io)
  case (Suc n)
  obtain m' where m: "m = Suc m'" "n \<le> m'" using Suc.prems(4) by (cases m) auto
  define L where "L = unat (iend - ibegin)"
  define b where "b = (if diff > 0 then ibegin else ibegin + (iend - ibegin) div 2)"
  define en where "en = (if diff > 0 then ibegin + (iend - ibegin) div 2 else iend)"
  obtain keyId diff' io' where dic: "dichotomy db s datetime b en diff io = (keyId, diff', io')"
    by (cases "dichotomy db s datetime b en diff io") auto
  define L' where "L' = unat (en - b)"
  have L': "L' = (if diff > 0 then L div 2 else L - L div 2)"
    using half_up [of iend ibegin] by (simp add: L'_def L_def b_def en_def unat_div2)
  have bounds: "1 \<le> L'" "L' \<le> 2 ^ n" using Suc.prems(2,3) by (auto simp: L' L_def [symmetric])
  have step: "query_loop m db s datetime ibegin iend diff mfind io =
     (if keyId = 0 then Some (Q_Nearest mfind io')
      else if diff' = 0 then Some (Q_Found keyId io')
      else if keyId = b \<or> keyId = en then Some (Q_Nearest (mfind_insert diff' keyId mfind) io')
      else query_loop m' db s datetime b en diff' (mfind_insert diff' keyId mfind) io')"
    using Suc.prems(1) dic unfolding m(1) by (auto simp: b_def en_def Let_def)
  have key: "keyId = 0 \<or> keyId = (if diff < 0 then b + (en - b) div 2 + 1 else b + (en - b) div 2)"
    using dic by (auto simp: dichotomy_def Let_def split: sum.splits prod.splits if_splits)
  show ?case
  proof (cases "L' = 1")
    case True
    then have "en - b = 1" by (simp add: L'_def word_unat_eq_iff)
    then have "en = b + 1" by (simp add: algebra_simps)
    then have "keyId = 0 \<or> keyId = b \<or> keyId = en" using key by auto
    then show ?thesis unfolding step by auto
  next
    case False
    then have two: "2 \<le> unat (en - b)" "unat (en - b) \<le> 2 ^ n" using bounds by (simp_all add: L'_def)
    show ?thesis
    proof (cases "diff' = 0")
      case False
      then have "query_loop m' db s datetime b en diff' mf io'' \<noteq> None" for mf io''
        using two m(2) by (rule Suc.hyps)
      then show ?thesis unfolding step by auto
    qed (simp add: step)
  qed
qed simp

lemma query_loop_start:
  "query_loop 34 db s datetime 0 0 0 [] io \<noteq> None"
proof -
  let ?b = "seq_begin_index s" and ?en = "g_index (s_head s)"
  obtain keyId diff' io' where dic: "dichotomy db s datetime ?b ?en 0 io = (keyId, diff', io')"
    by (cases "dichotomy db s datetime ?b ?en 0 io") auto
  have "query_loop (Suc n) db s datetime 0 0 0 [] io =
     (if keyId = 0 then Some (Q_Nearest [] io')
      else if diff' = 0 then Some (Q_Found keyId io')
      else if keyId = ?b \<or> keyId = ?en then Some (Q_Nearest (mfind_insert diff' keyId []) io')
      else query_loop n db s datetime ?b ?en diff' (mfind_insert diff' keyId []) io')" for n
    using dic by (simp add: Let_def)
  moreover have n34: "(34 :: nat) = Suc 33" by simp
  ultimately have step: "query_loop 34 db s datetime 0 0 0 [] io =
     (if keyId = 0 then Some (Q_Nearest [] io')
      else if diff' = 0 then Some (Q_Found keyId io')
      else if keyId = ?b \<or> keyId = ?en then Some (Q_Nearest (mfind_insert diff' keyId []) io')
      else query_loop 33 db s datetime ?b ?en diff' (mfind_insert diff' keyId []) io')" by (simp only:)
  have key: "keyId = 0 \<or> keyId = ?b + (?en - ?b) div 2"
    using dic by (auto simp: dichotomy_def Let_def split: sum.splits prod.splits if_splits)
  show ?thesis
  proof (cases "2 \<le> unat (?en - ?b)")
    case True
    have le: "unat (?en - ?b) \<le> 2 ^ 32" using unat_bounds(3) [of "?en - ?b"] by simp
    have "query_loop 33 db s datetime ?b ?en d mf io'' \<noteq> None" if "d \<noteq> 0" for d mf io''
      by (rule query_loop_returns [OF that True le]) simp
    then show ?thesis unfolding step by auto
  next
    case False
    then have "unat ((?en - ?b) div 2) = 0" by (simp add: unat_div2)
    then have "(?en - ?b) div 2 = 0" by (simp add: unat_eq_zero)
    then show ?thesis unfolding step using key by auto
  qed
qed

text \<open>C25. The search by time always ends, after at most 34 looks at the log.\<close>

theorem query_terminates: "cseq_query e datetime s w io \<noteq> None"
proof -
  obtain s0 ok where init: "seq_init e (w_db w) s = (s0, ok)" by fastforce
  obtain s1 w1 where tidy: "seq_tidy e s0 w = (s1, w1)" by fastforce
  obtain r where "query_loop 34 (w_db w1) s1 datetime 0 0 0 [] io = Some r"
    using query_loop_start by blast
  then show ?thesis
    by (cases ok; cases r) (simp_all add: cseq_query_def init tidy split: option.split)
qed

lemma item_at_time:
  "item_at db (s_key s) i x \<Longrightarrow> \<exists>v h. get_value db (seq_key (s_key s) i) = Inr (v, h) \<and>
     h_type h = T_SEQ_VALUE \<and> g_effective h = fst x"
  by (auto simp: item_at_def)

lemma dichotomy_item:
  assumes "item_at db (s_key s) k x" and "k = (if diff < 0 then b + (en - b) div 2 + 1 else b + (en - b) div 2)"
  shows "dichotomy db s datetime b en diff io = (k, sint (fst x - datetime), io)"
  using item_at_time [OF assms(1)] assms(2) by (auto simp: dichotomy_def Let_def)

text \<open>
  C26. The search can miss a value whose time is exactly the one asked for: in a log of four values
  it never looks at the third one when the second is older, and answers the number of the fourth.
\<close>

theorem query_misses_exact_time:
  assumes "seq_rep (w_db w) s [x1, x2, x3, x4]" and "\<not> seq_is_clean e s"
    and "sint (fst x2 - fst x3) < 0" and "0 < sint (fst x4 - fst x3)"
    and "unat (seq_begin_index s) \<in> {1..4294967291}"
  shows "\<exists>s'. cseq_query e (fst x3) s w io =
    Some (s', w, os_push_str (io_OK io) (itostr (int (unat (seq_begin_index s + 3)))))"
proof -
  define s0 where "s0 = s\<lparr>s_effect := time32 e + object_effective (cfg e)\<rparr>"
  define b where "b = seq_begin_index s"
  have s0: "seq_begin_index s0 = b" "\<not> seq_is_clean e s0" "s_init s" "s_key s0 = s_key s"
    "seq_init e (w_db w) s = (s0, True)" "g_index (s_head s0) = b + 3"
    using assms(1,2) seq_rep_begin [OF assms(1)]
    by (simp_all add: s0_def b_def seq_is_clean_def seq_rep_def seq_init_again seq_begin_index_def algebra_simps)
  have items: "item_at (w_db w) (s_key s0) (b + 1) x2" "item_at (w_db w) (s_key s0) (b + 3) x4"
    using assms(1) s0(4) by (simp_all add: seq_rep_def b_def algebra_simps)
  have "unat (- 1 :: u32) = 4294967295" by (simp add: unsigned_minus_1_eq_mask mask_eq_exp_minus_1)
  then have ne: "b + 1 \<noteq> 0" "b + 3 \<noteq> 0"
    using assms(5) by (auto simp: b_def [symmetric] add_eq_0_iff2)
  have d1: "dichotomy (w_db w) s0 (fst x3) b (b + 3) 0 io = (b + 1, sint (fst x2 - fst x3), io)"
    by (rule dichotomy_item [OF items(1)]) simp
  have d2: "dichotomy (w_db w) s0 (fst x3) (b + 1) (b + 3) (sint (fst x2 - fst x3)) io = (b + 3, sint (fst x4 - fst x3), io)"
    by (rule dichotomy_item [OF items(2)]) (use assms(3) in simp)
  have loop: "query_loop (Suc (Suc n)) (w_db w) s0 (fst x3) 0 0 0 [] io =
      Some (Q_Nearest [(sint (fst x2 - fst x3), b + 1), (sint (fst x4 - fst x3), b + 3)] io)" for n
    using assms(3,4) ne d1 d2 by (simp add: s0)
  have "query_loop 34 (w_db w) s0 (fst x3) 0 0 0 [] io =
      Some (Q_Nearest [(sint (fst x2 - fst x3), b + 1), (sint (fst x4 - fst x3), b + 3)] io)"
    using loop [of 32] by (simp only: Suc_numeral semiring_norm)
  then show ?thesis
    using s0 assms(3,4) by (simp add: cseq_query_def seq_tidy_def b_def [symmetric])
qed

section \<open>Examples\<close>

theorem seq_pushes_spec_witness:
  "\<exists>s (w :: zworld) e s' w' ios. seq_pushes [(e, ''a'', 0), (e, ''b'', 0)] s w = (s', w', ios) \<and>
    seq_rep (w_db w') s' [(1000, ''a''), (1000, ''b'')]"
proof -
  define e where "e = \<lparr>now = 1000, cfg = server_default, junk = 0\<rparr>"
  obtain s :: cseq and w :: zworld where "seq_rep (w_db w) s []" "db_reliable (w_db w)" using seq_log_exists [of "[]" e] by auto
  moreover have "time32 e = 1000" by (simp add: e_def time32_def)
  ultimately show ?thesis
    using seq_pushes_spec [of w s "[]" "[(e, ''a'', 0), (e, ''b'', 0)]"] by simp blast
qed

theorem seq_remove_spec_witness:
  "\<exists>e s w s' w'. cseq_remove e s w (Os_array []) = (s', w', io_OK (Os_array [])) \<and>
    seq_rep (w_db w') s' [(40000, ''b'')]"
proof -
  define e1 where "e1 = \<lparr>now = 1000, cfg = server_default, junk = 0\<rparr>"
  define e2 where "e2 = \<lparr>now = 40000, cfg = server_default, junk = 0\<rparr>"
  define e where "e = \<lparr>now = 50000, cfg = server_default, junk = 0\<rparr>"
  obtain s :: cseq and w :: zworld where s: "seq_rep (w_db w) s [(1000, ''a''), (40000, ''b'')]" "db_reliable (w_db w)"
      "g_cleantime (s_head s) = 1000" "g_delay (s_head s) = 0"
    using seq_log_exists [of "[(e1, ''a''), (e2, ''b'')]" e1] by (auto simp: e1_def e2_def time32_def)
  have "seq_is_clean e s"
    using s(3) by (simp add: seq_is_clean_def e_def seq_clear_time_def server_default_def)
  moreover have "seq_idelay e s = 43200"
    using s(4) by (simp add: seq_idelay_def e_def seq_valid_time_def server_default_def)
  ultimately show ?thesis
    using seq_remove_spec [OF s(1,2), of e "Os_array []"] by (simp add: e_def) blast
qed

theorem seq_seek_spec_witness:
  "\<exists>e s w. snd (cseq_seek (\<lambda>_. ''t'') e 2 5 s w (Os_array [])) =
    (w, push_entries (\<lambda>_. ''t'') 2 [(1001, ''b'')] (io_OK (Os_array [])))"
proof -
  define e where "e n = \<lparr>now = n, cfg = server_default, junk = 0\<rparr>" for n
  obtain s :: cseq and w :: zworld where s: "seq_rep (w_db w) s [(1000, ''a''), (1001, ''b'')]" "g_cleantime (s_head s) = 1000"
      "g_index (s_head s) = 2"
    using seq_log_exists [of "[(e 1000, ''a''), (e 1001, ''b'')]" "e 1000"] by (auto simp: e_def time32_def)
  have b: "seq_begin_index s = 1" using seq_rep_begin [OF s(1)] s(3) by (simp add: algebra_simps)
  have "\<not> seq_is_clean (e 1002) s"
    using s(2) by (simp add: seq_is_clean_def e_def seq_clear_time_def server_default_def)
  then show ?thesis
    using seq_seek_spec [OF s(1), of "e 1002" 1 2 "\<lambda>_. ''t''" 4 "Os_array []"] b
    by (intro exI [of _ "e 1002"] exI [of _ s] exI [of _ w]) simp
qed

theorem seq_reload_same_witness:
  "\<exists>e db s s'. seq_init e db (cseq_new e (s_key s)) = (s', True) \<and> seq_rep db s' [(1000, ''a'')] \<and>
    s_head s' = s_head (s :: cseq)"
proof -
  define e where "e = \<lparr>now = 1000, cfg = server_default, junk = 0\<rparr>"
  obtain s :: cseq and w :: zworld where s: "seq_rep (w_db w) s [(1000, ''a'')]" "db_get (w_db w) (s_key s) = Some (seq_mem (s_head s))"
      "seq_sealed (s_head s)"
    using seq_log_exists [of "[(e, ''a'')]" e] by (auto simp: e_def time32_def)
  from seq_reload_same [OF s, of e] show ?thesis by blast
qed


theorem query_misses_exact_time_witness:
  "\<exists>e s w s'. seq_rep (w_db w) s [(1000, ''a''), (1001, ''b''), (1002, ''c''), (1003, ''d'')] \<and>
    cseq_query e 1002 s w (Os_array []) = Some (s', w, os_push_str (io_OK (Os_array [])) (itostr 4))"
proof -
  define e where "e n = \<lparr>now = n, cfg = server_default, junk = 0\<rparr>" for n
  obtain s :: cseq and w :: zworld where s: "seq_rep (w_db w) s [(1000, ''a''), (1001, ''b''), (1002, ''c''), (1003, ''d'')]"
      "g_cleantime (s_head s) = 1000" "g_index (s_head s) = 4"
    using seq_log_exists [of "[(e 1000, ''a''), (e 1001, ''b''), (e 1002, ''c''), (e 1003, ''d'')]" "e 1000"]
    by (auto simp: e_def time32_def)
  have b: "seq_begin_index s = 1" using seq_rep_begin [OF s(1)] s(3) by (simp add: algebra_simps)
  have "\<not> seq_is_clean (e 1004) s"
    using s(2) by (simp add: seq_is_clean_def e_def seq_clear_time_def server_default_def)
  from query_misses_exact_time [OF s(1) this, of "Os_array []"] b s(1) show ?thesis by simp blast
qed

end
