(* ===== verification/Tlv.thy ===== *)
theory Tlv
  imports RingQueue
begin

text \<open>
  The type-length-value container (src/Base_Inc/tlv.h) the cloud commands answer with: values are
  pushed into a chunked byte queue, and read back from a decoded packet through a map.  The lemmas
  show the round trip for packets of one chunk, that a longer value is lost, that the type field of
  the wide variants is not converted, and where decoding stays inside the packet.
\<close>

section \<open>Byte order\<close>

unbundle bit_operations_syntax

definition hl64ton :: "u64 \<Rightarrow> u64" where
  "hl64ton host =
     (let low = htonl (ucast host :: u32); high = htonl (ucast (drop_bit 32 host) :: u32)
      in push_bit 32 (ucast low) OR ucast high)"

definition ntohl64 :: "u64 \<Rightarrow> u64" where
  "ntohl64 host =
     (let low = ntohl (ucast host :: u32); high = ntohl (ucast (drop_bit 32 host) :: u32)
      in push_bit 32 (ucast low) OR ucast high)"

definition u64_mem :: "u64 \<Rightarrow> bytes" where "u64_mem w = le_bytes 8 (unat w)"

definition mem_u64 :: "bytes \<Rightarrow> u64" where "mem_u64 bs = of_nat (le_val (take 8 bs))"

section \<open>The container\<close>

text \<open>The template arguments: the sizes of the type field and of the length field.\<close>

datatype width = W1 | W2 | W4

fun width_bytes :: "width \<Rightarrow> nat" where
  "width_bytes W1 = 1" | "width_bytes W2 = 2" | "width_bytes W4 = 4"

definition width_mod :: "width \<Rightarrow> nat" where
  "width_mod w = 256 ^ width_bytes w"

definition inet_byte :: "width \<Rightarrow> nat \<Rightarrow> nat" where
  "inet_byte w v = (if w = W1 then v else le_val (rev (le_bytes (width_bytes w) v)))"

text \<open>\<open>tv_value\<close> is the map of decoded values, sorted by type; \<open>tv_ring\<close> holds the pushed bytes.\<close>

type_synonym tlv_map = "(nat \<times> bytes list) list"

record tlv =
  tv_value :: tlv_map
  tv_ring :: ringq

abbreviation TLV_RING :: nat where "TLV_RING \<equiv> 8196"

definition tlv_new :: tlv where
  "tlv_new = \<lparr>tv_value = [], tv_ring = rq_new\<rparr>"

definition tlv_clear :: "tlv \<Rightarrow> tlv" where
  "tlv_clear t = t\<lparr>tv_value := []\<rparr>"

definition tlv_empty :: "tlv \<Rightarrow> nat \<Rightarrow> bool" where
  "tlv_empty t cmd \<longleftrightarrow> map_of (tv_value t) cmd = None"

subsection \<open>Pushing\<close>

text \<open>The length is truncated to its field; the type is written in host order.\<close>

definition push_value :: "width \<Rightarrow> width \<Rightarrow> nat \<Rightarrow> bytes \<Rightarrow> tlv \<Rightarrow> tlv" where
  "push_value wt wl cmd v t =
     (let r1 = rq_append TLV_RING (tv_ring t) (le_bytes (width_bytes wt) cmd);
          len = inet_byte wl (length v mod width_mod wl);
          r2 = rq_append TLV_RING r1 (le_bytes (width_bytes wl) len);
          r3 = rq_append TLV_RING r2 v
      in t\<lparr>tv_ring := r3\<rparr>)"

definition pack_alloc_block :: "width \<Rightarrow> width \<Rightarrow> nat \<Rightarrow> bytes \<Rightarrow> tlv \<Rightarrow> tlv" where
  "pack_alloc_block wt wl cmd v t = (if v \<noteq> [] then push_value wt wl cmd v t else t)"

definition tlv_push :: "width \<Rightarrow> width \<Rightarrow> nat \<Rightarrow> bytes \<Rightarrow> tlv \<Rightarrow> tlv" where
  "tlv_push wt wl cmd v t = pack_alloc_block wt wl cmd v t"

definition tlv_push_ex :: "width \<Rightarrow> width \<Rightarrow> nat \<Rightarrow> string \<Rightarrow> tlv \<Rightarrow> tlv" where
  "tlv_push_ex wt wl cmd v t = tlv_push wt wl cmd v t"

definition tlv_push_u8 :: "width \<Rightarrow> width \<Rightarrow> nat \<Rightarrow> u8 \<Rightarrow> tlv \<Rightarrow> tlv" where
  "tlv_push_u8 wt wl cmd v t = tlv_push wt wl cmd (u8_mem v) t"

definition tlv_push_u16 :: "width \<Rightarrow> width \<Rightarrow> nat \<Rightarrow> u16 \<Rightarrow> tlv \<Rightarrow> tlv" where
  "tlv_push_u16 wt wl cmd v t = tlv_push wt wl cmd (u16_mem (htons v)) t"

definition tlv_push_u32 :: "width \<Rightarrow> width \<Rightarrow> nat \<Rightarrow> u32 \<Rightarrow> tlv \<Rightarrow> tlv" where
  "tlv_push_u32 wt wl cmd v t = tlv_push wt wl cmd (u32_mem (htonl v)) t"

definition tlv_push_u64 :: "width \<Rightarrow> width \<Rightarrow> nat \<Rightarrow> u64 \<Rightarrow> tlv \<Rightarrow> tlv" where
  "tlv_push_u64 wt wl cmd v t = tlv_push wt wl cmd (u64_mem (hl64ton v)) t"

text \<open>Strings are pushed with their terminator.\<close>

definition tlv_push_str :: "width \<Rightarrow> width \<Rightarrow> nat \<Rightarrow> string \<Rightarrow> tlv \<Rightarrow> tlv" where
  "tlv_push_str wt wl cmd v t = tlv_push wt wl cmd (v @ [NUL]) t"

subsection \<open>Reading\<close>

fun pack_insert :: "nat \<Rightarrow> bytes \<Rightarrow> tlv_map \<Rightarrow> tlv_map" where
  "pack_insert cmd v [] = [(cmd, [v])]"
| "pack_insert cmd v ((c, vs) # m) =
     (if cmd < c then (cmd, [v]) # (c, vs) # m
      else if cmd = c then (c, vs @ [v]) # m
      else (c, vs) # pack_insert cmd v m)"

definition tlv_pack :: "nat \<Rightarrow> bytes \<Rightarrow> tlv \<Rightarrow> tlv" where
  "tlv_pack cmd v t = t\<lparr>tv_value := pack_insert cmd v (tv_value t)\<rparr>"

definition object_to_buffer :: "bytes list \<Rightarrow> nat \<Rightarrow> bytes option" where
  "object_to_buffer vs n = (if n < length vs then Some (vs ! n) else None)"

definition tlv_to_buffer :: "tlv \<Rightarrow> nat \<Rightarrow> nat \<Rightarrow> bytes option" where
  "tlv_to_buffer t cmd n =
     (case map_of (tv_value t) cmd of None \<Rightarrow> None | Some vs \<Rightarrow> object_to_buffer vs n)"

definition tlv_to_string :: "tlv \<Rightarrow> nat \<Rightarrow> nat \<Rightarrow> string" where
  "tlv_to_string t cmd n =
     (case tlv_to_buffer t cmd n of
        None \<Rightarrow> ''''
      | Some b \<Rightarrow> if b = [] then '''' else if last b = NUL then cstr b else '''')"

definition tlv_to_number :: "tlv \<Rightarrow> nat \<Rightarrow> nat \<Rightarrow> u64" where
  "tlv_to_number t cmd n =
     (case tlv_to_buffer t cmd n of
        None \<Rightarrow> 0
      | Some b \<Rightarrow>
          if length b = 1 then ucast (mem_u8 b)
          else if length b = 2 then ucast (ntohs (mem_u16 b))
          else if length b = 4 then ucast (ntohl (mem_u32 b))
          else if length b = 8 then ntohl64 (mem_u64 b)
          else 0)"

text \<open>The narrowing conversions of the accessors.\<close>

definition tlv_to_uint8 :: "tlv \<Rightarrow> nat \<Rightarrow> nat \<Rightarrow> u8" where
  "tlv_to_uint8 t cmd n = ucast (tlv_to_number t cmd n)"

definition tlv_to_uint16 :: "tlv \<Rightarrow> nat \<Rightarrow> nat \<Rightarrow> u16" where
  "tlv_to_uint16 t cmd n = ucast (tlv_to_number t cmd n)"

definition tlv_to_uint32 :: "tlv \<Rightarrow> nat \<Rightarrow> nat \<Rightarrow> u32" where
  "tlv_to_uint32 t cmd n = ucast (tlv_to_number t cmd n)"

text \<open>
  \<^verbatim>\<open>decode\<close>.  The sum \<^verbatim>\<open>pos + length\<close> is computed in 32 bits when the length field is 32 bits
  wide; a length that passes the test and still reaches beyond the packet makes the code copy from
  outside the packet, which is \<^const>\<open>None\<close>.
\<close>

definition tlv_field :: "width \<Rightarrow> bytes \<Rightarrow> nat \<Rightarrow> nat" where
  "tlv_field w packet pos = inet_byte w (le_val (take (width_bytes w) (drop pos packet)))"

definition tlv_sum :: "width \<Rightarrow> nat \<Rightarrow> nat \<Rightarrow> nat" where
  "tlv_sum wl pos n = (if wl = W4 then (pos + n) mod 4294967296 else pos + n)"

lemma width_bytes_pos [simp]: "0 < width_bytes w"
  by (cases w) simp_all

function decode_loop :: "width \<Rightarrow> width \<Rightarrow> bytes \<Rightarrow> nat \<Rightarrow> tlv \<Rightarrow> tlv option" where
  "decode_loop wt wl packet pos t =
     (if pos + width_bytes wt + width_bytes wl < length packet
      then let cmd = tlv_field wt packet pos;
               n = tlv_field wl packet (pos + width_bytes wt);
               pos' = pos + width_bytes wt + width_bytes wl
           in if tlv_sum wl pos' n > length packet then Some t
              else if pos' + n > length packet then None
              else decode_loop wt wl packet (pos' + n) (tlv_pack cmd (take n (drop pos' packet)) t)
      else Some t)"
  by pat_completeness auto
termination
proof (relation "measure (\<lambda>(wt, wl, packet, pos, t). length packet - pos)", goal_cases)
  case (2 wt wl packet pos t)
  then show ?case using width_bytes_pos [of wt] by (simp, linarith)
qed simp

declare decode_loop.simps [simp del]

definition tlv_decode :: "width \<Rightarrow> width \<Rightarrow> bytes \<Rightarrow> tlv \<Rightarrow> tlv option" where
  "tlv_decode wt wl packet t = decode_loop wt wl packet 0 t"

definition tlv_to_object :: "width \<Rightarrow> width \<Rightarrow> tlv \<Rightarrow> nat \<Rightarrow> nat \<Rightarrow> tlv option" where
  "tlv_to_object wt wl t cmd n =
     (case tlv_to_buffer t cmd n of None \<Rightarrow> None | Some b \<Rightarrow> tlv_decode wt wl b tlv_new)"

text \<open>
  \<^verbatim>\<open>encode\<close>: the decoded values are appended (their types converted), then the oldest chunk of the
  queue is the packet.
\<close>

definition encode_entry :: "width \<Rightarrow> width \<Rightarrow> nat \<Rightarrow> bytes \<Rightarrow> ringq \<Rightarrow> ringq" where
  "encode_entry wt wl cmd v r =
     rq_append TLV_RING (rq_append TLV_RING (rq_append TLV_RING r
       (le_bytes (width_bytes wt) (inet_byte wt cmd)))
       (le_bytes (width_bytes wl) (inet_byte wl (length v mod width_mod wl)))) v"

definition tlv_encode :: "width \<Rightarrow> width \<Rightarrow> tlv \<Rightarrow> tlv \<times> bytes" where
  "tlv_encode wt wl t =
     (let r = fold (\<lambda>(cmd, vs) r. fold (\<lambda>v r. encode_entry wt wl cmd v r) vs r) (tv_value t) (tv_ring t)
      in if rq_count r = 0 then (t\<lparr>tv_ring := r\<rparr>, [])
         else case rq_attach_block r of
             None \<Rightarrow> (t\<lparr>tv_ring := r\<rparr>, [])
           | Some (r', packet) \<Rightarrow> (t\<lparr>tv_ring := r'\<rparr>, packet))"

definition tlv_push_object :: "width \<Rightarrow> width \<Rightarrow> nat \<Rightarrow> tlv \<Rightarrow> tlv \<Rightarrow> tlv \<times> tlv" where
  "tlv_push_object wt wl cmd obj t =
     (let (obj', packet) = tlv_encode wt wl obj in (obj', tlv_push wt wl cmd packet t))"

definition tlv_cmds :: "tlv \<Rightarrow> nat list" where
  "tlv_cmds t = map fst (tv_value t)"

section \<open>Laws\<close>

lemma u64_split: "push_bit 32 (ucast (ucast (drop_bit 32 w) :: u32)) OR ucast (ucast w :: u32) = (w :: u64)"
  by (rule bit_word_eqI) (auto simp: bit_or_iff bit_push_bit_iff bit_ucast_iff bit_drop_bit_eq)

lemma u64_halves:
  "ucast (push_bit 32 (ucast (a :: u32)) OR ucast (b :: u32) :: u64) = b"
  "ucast (drop_bit 32 (push_bit 32 (ucast (a :: u32)) OR ucast (b :: u32) :: u64)) = a"
  by (rule bit_word_eqI, auto simp: bit_or_iff bit_push_bit_iff bit_ucast_iff bit_drop_bit_eq dest: bit_imp_le_length)+

lemma ntohl64_hl64ton [simp]: "ntohl64 (hl64ton w) = w"
  unfolding ntohl64_def hl64ton_def Let_def u64_halves hton_inverse by (rule u64_split)

lemma unat_u64_bound: "unat (w :: u64) < 18446744073709551616"
  using unsigned_less [of w] by simp

lemma mem_u64_mem [simp]: "mem_u64 (u64_mem w @ r) = w" "length (u64_mem w) = 8"
  using unat_u64_bound [of w] by (simp_all add: mem_u64_def u64_mem_def codec_simps)

lemma le_bytes_inet:
  assumes "v < width_mod w"
  shows "inet_byte w (le_val (le_bytes (width_bytes w) (inet_byte w v))) = v"
proof (cases "w = W1")
  case True
  then show ?thesis using assms by (simp add: inet_byte_def width_mod_def codec_simps)
next
  case False
  let ?n = "width_bytes w"
  define cs where "cs = rev (le_bytes ?n v)"
  have "le_val (le_bytes ?n (le_val cs)) = le_val cs"
    using le_val_bound [of cs] by (simp add: codec_simps cs_def)
  moreover have "le_bytes ?n (le_val cs) = cs" using le_bytes_le_val [of cs] by (simp add: cs_def)
  ultimately show ?thesis
    using assms False by (simp add: inet_byte_def cs_def [symmetric])
      (simp add: cs_def codec_simps width_mod_def)
qed

text \<open>A queue that has one chunk, with the bytes \<open>bs\<close>.\<close>

definition rq_single :: "nat \<Rightarrow> ringq \<Rightarrow> bytes \<Rightarrow> bool" where
  "rq_single T q bs \<longleftrightarrow> q = \<lparr>m_q = (if bs = [] then [] else [\<lparr>blk_T = bs, blk_b = 0\<rparr>]), m_size = length bs\<rparr> \<and>
     length bs \<le> T"

lemma rq_single_append:
  assumes "rq_single T q bs" and "length bs + length d \<le> T"
  shows "rq_single T (rq_append T q d) (bs @ d)"
  using assms by (auto simp: rq_single_def rq_append.simps rq_append1_def blk_append_def blk_new_def)

lemma rq_single_attach:
  "rq_single T q bs \<Longrightarrow> bs \<noteq> [] \<Longrightarrow> rq_attach_block q = Some (q, bs)"
  by (simp add: rq_single_def rq_attach_block_def blk_len_def blk_buffer_def Let_def)

definition tlv_entry :: "width \<Rightarrow> width \<Rightarrow> nat \<Rightarrow> bytes \<Rightarrow> bytes" where
  "tlv_entry wt wl cmd v = le_bytes (width_bytes wt) cmd @
     le_bytes (width_bytes wl) (inet_byte wl (length v mod width_mod wl)) @ v"

abbreviation push_pairs :: "width \<Rightarrow> width \<Rightarrow> (nat \<times> bytes) list \<Rightarrow> tlv \<Rightarrow> tlv" where
  "push_pairs wt wl ps t \<equiv> fold (\<lambda>p t. tlv_push wt wl (fst p) (snd p) t) ps t"

lemma push_pairs_ring:
  assumes "rq_single TLV_RING (tv_ring t) bs" and "\<forall>p \<in> set ps. snd p \<noteq> []"
    and "length bs + length (concat (map (\<lambda>p. tlv_entry wt wl (fst p) (snd p)) ps)) \<le> TLV_RING"
  shows "rq_single TLV_RING (tv_ring (push_pairs wt wl ps t)) (bs @ concat (map (\<lambda>p. tlv_entry wt wl (fst p) (snd p)) ps)) \<and>
    tv_value (push_pairs wt wl ps t) = tv_value t"
  using assms
proof (induct ps arbitrary: t bs)
  case (Cons p ps)
  let ?t = "tlv_push wt wl (fst p) (snd p) t" and ?e = "tlv_entry wt wl (fst p) (snd p)"
  have len: "length bs + length ?e + length (concat (map (\<lambda>p. tlv_entry wt wl (fst p) (snd p)) ps)) \<le> TLV_RING"
    using Cons.prems(3) by simp
  have "rq_single TLV_RING (tv_ring ?t) (((bs @ le_bytes (width_bytes wt) (fst p)) @
      le_bytes (width_bytes wl) (inet_byte wl (length (snd p) mod width_mod wl))) @ snd p)"
    using Cons.prems(1,2) len
    by (simp add: tlv_push_def pack_alloc_block_def push_value_def Let_def del: append_assoc)
      (intro rq_single_append; simp add: tlv_entry_def)
  then have "rq_single TLV_RING (tv_ring ?t) (bs @ ?e)" by (simp add: tlv_entry_def)
  moreover have "tv_value ?t = tv_value t"
    by (simp add: tlv_push_def pack_alloc_block_def push_value_def Let_def)
  ultimately show ?case using Cons.hyps [of ?t "bs @ ?e"] Cons.prems(2) len by simp
qed simp

lemma tlv_field_type: "drop pos packet = le_bytes (width_bytes w) v @ r \<Longrightarrow>
    tlv_field w packet pos = inet_byte w (le_val (le_bytes (width_bytes w) v))"
  by (simp add: tlv_field_def)

lemma decode_entries:
  assumes "drop pos packet = concat (map (\<lambda>p. tlv_entry wt wl (fst p) (snd p)) ps)" and "pos \<le> length packet"
    and "\<forall>p \<in> set ps. fst p < width_mod wt \<and> snd p \<noteq> [] \<and> length (snd p) < width_mod wl"
    and "length packet < 4294967296"
  shows "decode_loop wt wl packet pos t =
    Some (fold (\<lambda>p t. tlv_pack (inet_byte wt (fst p)) (snd p) t) ps t)"
  using assms(1-3)
proof (induct ps arbitrary: pos t)
  case Nil
  then have "length packet = pos" using drop_eq_Nil by (metis concat.simps(1) list.map(1) le_antisym)
  then show ?case by (simp add: decode_loop.simps)
next
  case (Cons p ps)
  obtain cmd v where p: "p = (cmd, v)" by (cases p)
  let ?a = "le_bytes (width_bytes wt) cmd" and ?b = "le_bytes (width_bytes wl) (inet_byte wl (length v mod width_mod wl))"
  let ?r = "concat (map (\<lambda>p. tlv_entry wt wl (fst p) (snd p)) ps)"
  have v: "cmd < width_mod wt" "v \<noteq> []" "length v < width_mod wl" using Cons.prems(3) p by auto
  have d1: "drop pos packet = ?a @ ?b @ v @ ?r" using Cons.prems(1) p by (simp add: tlv_entry_def)
  have d2: "drop (pos + width_bytes wt) packet = ?b @ v @ ?r"
    using arg_cong [OF d1, of "drop (width_bytes wt)"] by (simp add: add.commute)
  have d3: "drop (pos + width_bytes wt + width_bytes wl) packet = v @ ?r"
    using arg_cong [OF d2, of "drop (width_bytes wl)"] by (simp add: add.commute add.left_commute)
  have d4: "drop (pos + width_bytes wt + width_bytes wl + length v) packet = ?r"
    using arg_cong [OF d3, of "drop (length v)"] by (simp add: add.commute add.left_commute)
  have len: "length packet = pos + width_bytes wt + width_bytes wl + length v + length ?r"
    using arg_cong [OF d1, of length] Cons.prems(2) by simp
  have f1: "tlv_field wt packet pos = inet_byte wt cmd"
    using tlv_field_type [OF d1] v(1) by (simp add: codec_simps width_mod_def)
  have f2: "tlv_field wl packet (pos + width_bytes wt) = length v"
    using tlv_field_type [OF d2] v(3) le_bytes_inet [of "length v" wl] by simp
  have s: "tlv_sum wl (pos + width_bytes wt + width_bytes wl) (length v) = pos + width_bytes wt + width_bytes wl + length v"
    using assms(4) len unfolding tlv_sum_def by (cases "wl = W4") (simp_all only: if_True if_False, simp)
  have "decode_loop wt wl packet pos t =
      decode_loop wt wl packet (pos + width_bytes wt + width_bytes wl + length v) (tlv_pack (inet_byte wt cmd) v t)"
    using v(2) len by (subst decode_loop.simps) (simp add: Let_def f1 f2 s d3)
  also have "\<dots> = Some (fold (\<lambda>p t. tlv_pack (inet_byte wt (fst p)) (snd p) t) ps (tlv_pack (inet_byte wt cmd) v t))"
    using Cons.prems(3) len by (intro Cons.hyps d4) simp_all
  finally show ?case by (simp add: p)
qed

text \<open>The map of decoded values.\<close>

lemma keys_pack_insert [simp]: "fst ` set (pack_insert cmd v m) = insert cmd (fst ` set m)"
  by (induct cmd v m rule: pack_insert.induct) auto

lemma pack_insert_sorted: "sorted_wrt (<) (map fst m) \<Longrightarrow> sorted_wrt (<) (map fst (pack_insert cmd v m))"
proof (induct cmd v m rule: pack_insert.induct)
  case (2 cmd v c vs m)
  then show ?case using keys_pack_insert [of cmd v m] by auto
qed simp

lemma map_of_pack_insert:
  "sorted_wrt (<) (map fst m) \<Longrightarrow> map_of (pack_insert cmd v m) k =
     (if k = cmd then Some ((case map_of m cmd of None \<Rightarrow> [] | Some vs \<Rightarrow> vs) @ [v]) else map_of m k)"
proof (induct cmd v m rule: pack_insert.induct)
  case (2 cmd v c vs m)
  have "cmd < c \<Longrightarrow> map_of m cmd = None"
    using 2(2) by (force simp: map_of_eq_None_iff)
  then show ?case using 2 by auto
qed simp

lemma fold_pack:
  assumes "sorted_wrt (<) (map fst (tv_value t))"
  shows "sorted_wrt (<) (map fst (tv_value (fold (\<lambda>p t. tlv_pack (f (fst p)) (snd p) t) ps t))) \<and>
    tlv_to_buffer (fold (\<lambda>p t. tlv_pack (f (fst p)) (snd p) t) ps t) cmd n =
      object_to_buffer ((case map_of (tv_value t) cmd of None \<Rightarrow> [] | Some vs \<Rightarrow> vs) @
        map snd (filter (\<lambda>p. f (fst p) = cmd) ps)) n"
  using assms
proof (induct ps arbitrary: t)
  case Nil
  then show ?case by (auto simp: tlv_to_buffer_def object_to_buffer_def split: option.split)
next
  case (Cons p ps)
  let ?t = "tlv_pack (f (fst p)) (snd p) t"
  have s: "sorted_wrt (<) (map fst (tv_value ?t))"
    using Cons.prems pack_insert_sorted by (simp add: tlv_pack_def)
  have "map_of (tv_value ?t) cmd = (if cmd = f (fst p)
      then Some ((case map_of (tv_value t) cmd of None \<Rightarrow> [] | Some vs \<Rightarrow> vs) @ [snd p]) else map_of (tv_value t) cmd)"
    using map_of_pack_insert [OF Cons.prems] by (simp add: tlv_pack_def)
  then show ?case using Cons.hyps [OF s] by auto
qed

lemma tlv_encode_pairs:
  assumes "\<forall>p \<in> set ps. snd p \<noteq> []" and "ps \<noteq> []"
    and "length (concat (map (\<lambda>p. tlv_entry wt wl (fst p) (snd p)) ps)) \<le> TLV_RING"
  shows "snd (tlv_encode wt wl (push_pairs wt wl ps tlv_new)) = concat (map (\<lambda>p. tlv_entry wt wl (fst p) (snd p)) ps)"
proof -
  let ?bs = "concat (map (\<lambda>p. tlv_entry wt wl (fst p) (snd p)) ps)" and ?t = "push_pairs wt wl ps tlv_new"
  have r: "rq_single TLV_RING (tv_ring ?t) ?bs" "tv_value ?t = []"
    using push_pairs_ring [of tlv_new "[]" ps wt wl] assms by (simp_all add: tlv_new_def rq_single_def rq_new_def)
  have ne: "?bs \<noteq> []" using assms(1,2) by (cases ps) (auto simp: tlv_entry_def)
  then have "rq_count (tv_ring ?t) \<noteq> 0" using r(1) by (simp add: rq_count_def rq_single_def)
  then show ?thesis using rq_single_attach [OF r(1) ne] r(2) by (simp add: tlv_encode_def Let_def)
qed

text \<open>
  C27. What is pushed into a container with one-byte types is what the receiver reads: for values
  that are not empty and fit their length field, and a packet of at most 8196 bytes, decoding the
  encoded packet delivers for every type its values in the order they were pushed, and nothing else.
\<close>

theorem tlv_roundtrip:
  assumes "\<forall>p \<in> set ps. fst p < 256 \<and> snd p \<noteq> [] \<and> length (snd p) < width_mod wl" and "ps \<noteq> []"
    and "length (concat (map (\<lambda>p. tlv_entry W1 wl (fst p) (snd p)) ps)) \<le> TLV_RING"
  shows "\<exists>t. tlv_decode W1 wl (snd (tlv_encode W1 wl (push_pairs W1 wl ps tlv_new))) tlv_new = Some t \<and>
    tlv_to_buffer t cmd n = object_to_buffer (map snd (filter (\<lambda>p. fst p = cmd) ps)) n"
proof -
  let ?bs = "concat (map (\<lambda>p. tlv_entry W1 wl (fst p) (snd p)) ps)"
  have "snd (tlv_encode W1 wl (push_pairs W1 wl ps tlv_new)) = ?bs"
    using assms by (intro tlv_encode_pairs) auto
  moreover have "tlv_decode W1 wl ?bs tlv_new = Some (fold (\<lambda>p t. tlv_pack (inet_byte W1 (fst p)) (snd p) t) ps tlv_new)"
    unfolding tlv_decode_def using assms by (intro decode_entries) (simp_all add: width_mod_def)
  ultimately show ?thesis
    using fold_pack [of tlv_new "inet_byte W1" ps cmd n] by (simp add: tlv_new_def inet_byte_def)
qed

theorem tlv_roundtrip_witness:
  "\<exists>t. tlv_decode W1 W2 (snd (tlv_encode W1 W2 (push_pairs W1 W2 [(1, ''7''), (3, ''xy''), (1, ''8'')] tlv_new))) tlv_new =
    Some t \<and> tlv_to_buffer t 1 1 = Some ''8''"
  using tlv_roundtrip [of "[(1, ''7''), (3, ''xy''), (1, ''8'')]" W2 1 1]
  by (simp add: width_mod_def tlv_entry_def object_to_buffer_def)

text \<open>
  In the variants with a two or four byte type the receiver sees the type with its bytes
  reversed; unless the type is a palindrome, the value is not found under the type it was pushed with.
\<close>

theorem tlv_wide_type_reversed:
  assumes "wt \<noteq> W1" and "cmd < width_mod wt" and "v \<noteq> []" and "length v < width_mod wl"
    and "width_bytes wt + width_bytes wl + length v \<le> TLV_RING" and "inet_byte wt cmd \<noteq> cmd"
  shows "\<exists>t. tlv_decode wt wl (snd (tlv_encode wt wl (tlv_push wt wl cmd v tlv_new))) tlv_new = Some t \<and>
    tlv_to_buffer t cmd 0 = None \<and> tlv_to_buffer t (inet_byte wt cmd) 0 = Some v"
proof -
  let ?bs = "tlv_entry wt wl cmd v"
  have len: "length ?bs = width_bytes wt + width_bytes wl + length v" by (simp add: tlv_entry_def)
  have "snd (tlv_encode wt wl (push_pairs wt wl [(cmd, v)] tlv_new)) = ?bs"
    using assms len tlv_encode_pairs [of "[(cmd, v)]" wt wl] by simp
  moreover have "tlv_decode wt wl ?bs tlv_new = Some (tlv_pack (inet_byte wt cmd) v tlv_new)"
    unfolding tlv_decode_def
    using decode_entries [of 0 ?bs wt wl "[(cmd, v)]" tlv_new] assms len by simp
  ultimately show ?thesis
    using assms(6) by (simp add: tlv_pack_def tlv_to_buffer_def object_to_buffer_def tlv_new_def)
qed

theorem tlv_wide_type_reversed_witness:
  "\<exists>t. tlv_decode W2 W2 (snd (tlv_encode W2 W2 (tlv_push W2 W2 1 ''a'' tlv_new))) tlv_new = Some t \<and>
    tlv_to_buffer t 1 0 = None \<and> tlv_to_buffer t 256 0 = Some ''a''"
proof -
  have "inet_byte W2 1 = 256" by code_simp
  then show ?thesis using tlv_wide_type_reversed [of W2 1 "''a''" W2] by (simp add: width_mod_def)
qed

lemma rq_append1_last:
  "2 \<le> length (m_q q) \<Longrightarrow> last (m_q (rq_append1 T q d)) = last (m_q q) \<and> 2 \<le> length (m_q (rq_append1 T q d))"
  by (auto simp: rq_append1_def Suc_le_length_iff numeral_2_eq_2 split: list.splits option.splits)

lemma rq_append_last:
  "2 \<le> length (m_q q) \<Longrightarrow> last (m_q (rq_append T q d)) = last (m_q q) \<and> 2 \<le> length (m_q (rq_append T q d))"
proof (induct T q d rule: rq_append.induct)
  case (1 T q d)
  show ?case
    using 1 rq_append1_last [OF 1(2), of T d] rq_append1_last [OF 1(2), of T "take T d"]
    by (subst (1 2) rq_append.simps) auto
qed

lemma rq_append_count: "m_size (rq_append T q d) = m_size q + length d"
proof (induct T q d rule: rq_append.induct)
  case (1 T q d)
  have one: "m_size (rq_append1 T q x) = m_size q + length x" for x
    by (auto simp: rq_append1_def split: list.splits option.splits)
  show ?case using 1 by (subst rq_append.simps) (auto simp: one)
qed

text \<open>A buffer that does not fit into the only chunk leaves that chunk alone.\<close>

lemma rq_append_overflow:
  assumes "m_q q = [b]" and "T < length (blk_T b) + length d" and "0 < length (blk_T b)" and "0 < T" and "d \<noteq> []"
  shows "last (m_q (rq_append T q d)) = b \<and> m_q (rq_append T q d) \<noteq> []"
proof (cases "T < length d")
  case True
  have "blk_append T (take T d) b = None" using assms(2,3) True by (simp add: blk_append_def)
  then have q1: "m_q (rq_append1 T q (take T d)) = [blk_new\<lparr>blk_T := take T d\<rparr>, b]"
    using assms(1) by (simp add: rq_append1_def)
  have "rq_append T q d = rq_append T (rq_append1 T q (take T d)) (drop T d)"
    using True assms(4,5) by (subst rq_append.simps) simp
  then show ?thesis using rq_append_last [of "rq_append1 T q (take T d)" T "drop T d"] q1 by auto
next
  case False
  have "blk_append T d b = None" using assms(2) by (simp add: blk_append_def)
  then show ?thesis using False assms(1,5) by (subst (1 2) rq_append.simps) (simp add: rq_append1_def)
qed

text \<open>
  C28. A value that does not fit into one chunk together with its header is lost: the packet of a
  container with one value of more than 8193 bytes is the three header bytes, and decoding it gives
  an empty container.
\<close>

theorem tlv_large_value_lost:
  assumes "8193 < length v" and "length v < 65536" and "cmd < 256"
  shows "length (snd (tlv_encode W1 W2 (tlv_push W1 W2 cmd v tlv_new))) = 3 \<and>
    tlv_decode W1 W2 (snd (tlv_encode W1 W2 (tlv_push W1 W2 cmd v tlv_new))) tlv_new = Some tlv_new"
proof -
  let ?h = "le_bytes 1 cmd @ le_bytes 2 (inet_byte W2 (length v mod width_mod W2))"
  define r where "r = rq_append TLV_RING (rq_append TLV_RING rq_new (le_bytes 1 cmd))
    (le_bytes 2 (inet_byte W2 (length v mod width_mod W2)))"
  have "rq_single TLV_RING rq_new []" by (simp add: rq_single_def rq_new_def)
  then have "rq_single TLV_RING r ?h"
    unfolding r_def using rq_single_append [of TLV_RING rq_new "[]" "le_bytes 1 cmd"]
    by (intro rq_single_append) simp_all
  then have q: "m_q r = [\<lparr>blk_T = ?h, blk_b = 0\<rparr>]" by (simp add: rq_single_def)
  define r3 where "r3 = rq_append TLV_RING r v"
  have "v \<noteq> []" using assms(1) by auto
  then have last: "last (m_q r3) = \<lparr>blk_T = ?h, blk_b = 0\<rparr> \<and> m_q r3 \<noteq> []"
    unfolding r3_def using assms(1) by (intro rq_append_overflow [OF q]) simp_all
  have t: "tlv_push W1 W2 cmd v tlv_new = \<lparr>tv_value = [], tv_ring = r3\<rparr>"
    using \<open>v \<noteq> []\<close> by (simp add: tlv_push_def pack_alloc_block_def push_value_def Let_def tlv_new_def r3_def r_def)
  have "rq_count r3 \<noteq> 0" using \<open>v \<noteq> []\<close> by (simp add: rq_count_def r3_def rq_append_count)
  then have "snd (tlv_encode W1 W2 (tlv_push W1 W2 cmd v tlv_new)) = ?h"
    using last by (simp add: t tlv_encode_def Let_def rq_attach_block_def blk_len_def blk_buffer_def)
  moreover have "tlv_decode W1 W2 ?h tlv_new = Some tlv_new"
    by (simp add: tlv_decode_def decode_loop.simps)
  ultimately show ?thesis by simp
qed

text \<open>
  C29. With length fields of one or two bytes decoding stays inside the packet, whatever the packet
  holds.
\<close>

theorem tlv_decode_in_bounds: "wl \<noteq> W4 \<Longrightarrow> tlv_decode wt wl packet t \<noteq> None"
proof -
  have "wl \<noteq> W4 \<Longrightarrow> decode_loop wt wl packet pos t \<noteq> None" for pos
  proof (induct wt wl packet pos t rule: decode_loop.induct)
    case (1 wt wl packet pos t)
    then show ?case
      by (subst decode_loop.simps) (simp add: Let_def tlv_sum_def del: not_None_eq)
  qed
  then show "wl \<noteq> W4 \<Longrightarrow> ?thesis" by (simp add: tlv_decode_def)
qed

text \<open>
  With a four byte length field it does not: a length of 4294967295 passes the test for the end
  of the packet and the value is copied from beyond it.
\<close>

theorem tlv_decode_overruns:
  assumes "6 \<le> length packet" and "length packet < 4294967296" and "take 4 (drop 1 packet) = replicate 4 (CHR 0xFF)"
  shows "tlv_decode W1 W4 packet t = None"
proof -
  let ?cs = "[CHR 0xFF, CHR 0xFF, CHR 0xFF, CHR 0xFF]"
  have cs: "take 4 (drop 1 packet) = ?cs" using assms(3) by (simp add: numeral_eq_Suc)
  have "length ?cs = 4" by simp
  then have "le_bytes 4 (le_val ?cs) = ?cs" using le_bytes_le_val [of ?cs] by (simp only:)
  then have "inet_byte W4 (le_val ?cs) = le_val ?cs"
    by (simp only: inet_byte_def width_bytes.simps width.distinct if_False rev.simps append.simps)
  moreover have "le_val ?cs = 4294967295" by (simp add: of_char_def)
  ultimately have "tlv_field W4 packet 1 = 4294967295"
    unfolding tlv_field_def width_bytes.simps cs by simp
  then show ?thesis using assms(1,2) by (simp add: tlv_decode_def decode_loop.simps tlv_sum_def Let_def)
qed

theorem tlv_large_value_lost_witness:
  "tlv_decode W1 W2 (snd (tlv_encode W1 W2 (tlv_push W1 W2 3 (replicate 9000 (CHR ''x'')) tlv_new))) tlv_new =
    Some tlv_new"
  using tlv_large_value_lost [of "replicate 9000 (CHR ''x'')" 3] by simp

theorem tlv_decode_in_bounds_witness:
  "tlv_decode W1 W2 [CHR 0x01, CHR 0xFF, CHR 0xFF, CHR ''a''] tlv_new \<noteq> None"
  using tlv_decode_in_bounds [of W2 W1 "[CHR 0x01, CHR 0xFF, CHR 0xFF, CHR ''a'']" tlv_new] by simp

theorem tlv_decode_overruns_witness:
  "tlv_decode W1 W4 (CHR 0x01 # replicate 4 (CHR 0xFF) @ ''a'') tlv_new = None"
  using tlv_decode_overruns [of "CHR 0x01 # replicate 4 (CHR 0xFF) @ ''a''" tlv_new] by simp

end
