(* ===== verification/ObjCache.thy ===== *)
theory ObjCache
  imports CMList CSeq Tlv
begin

text \<open>
  The singletons that hold the container objects of the running server (\<^verbatim>\<open>c_list_admin\<close>,
  \<^verbatim>\<open>c_mlist_admin\<close>, \<^verbatim>\<open>c_seq_admin\<close> and \<^verbatim>\<open>c_cloud_admin\<close> in src/zcloud/zstorage/zstorage): maps from
  keys to objects, which are created on first use and dropped by the refresh thread when they have
  not been used for a while.  The four classes share one contract, the locale \<open>object_cache\<close>.
\<close>

section \<open>The cloud object\<close>

text \<open>\<^verbatim>\<open>c_cloud\<close> itself has no data but its key; its operations are in the theory of the commands.\<close>

record ccloud =
  cc_key :: string
  cc_effective :: u32

definition ccloud_new :: "zenv \<Rightarrow> string \<Rightarrow> ccloud" where
  "ccloud_new e key = \<lparr>cc_key = ''CLOUD_'' @ key, cc_effective = time32 e + object_effective (cfg e)\<rparr>"

definition ccloud_is_release :: "zenv \<Rightarrow> ccloud \<Rightarrow> bool" where
  "ccloud_is_release e c \<longleftrightarrow> now e > unat (cc_effective c)"

section \<open>The four maps\<close>

text \<open>Lists.\<close>

definition list_admin_find :: "clist omap \<Rightarrow> string \<Rightarrow> clist option" where
  "list_admin_find m key = om_find m key"

definition list_admin_find_is_create :: "zenv \<Rightarrow> clist omap \<Rightarrow> string \<Rightarrow> clist \<times> clist omap" where
  "list_admin_find_is_create e m key =
     (case om_find m key of
        Some l \<Rightarrow> (l, m)
      | None \<Rightarrow> let l = clist_new e key in (l, om_insert key l m))"

fun list_admin_check :: "zenv \<Rightarrow> clist omap \<Rightarrow> clist omap" where
  "list_admin_check e [] = []"
| "list_admin_check e ((k, l) # m) =
     (if clist_is_release e l then list_admin_check e m else (k, l) # list_admin_check e m)"

text \<open>Lists with identifiers.\<close>

definition mlist_admin_find :: "cmlist omap \<Rightarrow> string \<Rightarrow> cmlist option" where
  "mlist_admin_find m key = om_find m key"

definition mlist_admin_find_is_create :: "zenv \<Rightarrow> cmlist omap \<Rightarrow> string \<Rightarrow> cmlist \<times> cmlist omap" where
  "mlist_admin_find_is_create e m key =
     (case om_find m key of
        Some l \<Rightarrow> (l, m)
      | None \<Rightarrow> let l = cmlist_new e key in (l, om_insert key l m))"

fun mlist_admin_check :: "zenv \<Rightarrow> cmlist omap \<Rightarrow> cmlist omap" where
  "mlist_admin_check e [] = []"
| "mlist_admin_check e ((k, l) # m) =
     (if cmlist_is_release e l then mlist_admin_check e m else (k, l) # mlist_admin_check e m)"

text \<open>Logs; here creation is a method of its own.\<close>

definition seq_admin_find :: "cseq omap \<Rightarrow> string \<Rightarrow> cseq option" where
  "seq_admin_find m key = om_find m key"

definition seq_admin_create :: "zenv \<Rightarrow> cseq omap \<Rightarrow> string \<Rightarrow> cseq \<times> cseq omap" where
  "seq_admin_create e m key =
     (case om_find m key of
        Some l \<Rightarrow> (l, m)
      | None \<Rightarrow> let l = cseq_new e key in (l, om_insert key l m))"

definition seq_admin_find_is_create :: "zenv \<Rightarrow> cseq omap \<Rightarrow> string \<Rightarrow> cseq \<times> cseq omap" where
  "seq_admin_find_is_create e m key =
     (case seq_admin_find m key of Some s \<Rightarrow> (s, m) | None \<Rightarrow> seq_admin_create e m key)"

fun seq_admin_check :: "zenv \<Rightarrow> cseq omap \<Rightarrow> cseq omap" where
  "seq_admin_check e [] = []"
| "seq_admin_check e ((k, l) # m) =
     (if cseq_is_release e l then seq_admin_check e m else (k, l) # seq_admin_check e m)"

text \<open>Cloud objects.\<close>

definition cloud_admin_find :: "ccloud omap \<Rightarrow> string \<Rightarrow> ccloud option" where
  "cloud_admin_find m key = om_find m key"

definition cloud_admin_find_is_create :: "zenv \<Rightarrow> ccloud omap \<Rightarrow> string \<Rightarrow> ccloud \<times> ccloud omap" where
  "cloud_admin_find_is_create e m key =
     (case om_find m key of
        Some l \<Rightarrow> (l, m)
      | None \<Rightarrow> let l = ccloud_new e key in (l, om_insert key l m))"

fun cloud_admin_check :: "zenv \<Rightarrow> ccloud omap \<Rightarrow> ccloud omap" where
  "cloud_admin_check e [] = []"
| "cloud_admin_check e ((k, l) # m) =
     (if ccloud_is_release e l then cloud_admin_check e m else (k, l) # cloud_admin_check e m)"

section \<open>The contract\<close>

text \<open>
  A cache hands out the object it has, or a new one that it keeps; dropping removes exactly the
  released objects.  \<open>named\<close> relates an object to the key it is kept under.
\<close>

locale object_cache =
  fixes create :: "zenv \<Rightarrow> string \<Rightarrow> 'o" and released :: "zenv \<Rightarrow> 'o \<Rightarrow> bool"
    and find_is_create :: "zenv \<Rightarrow> 'o omap \<Rightarrow> string \<Rightarrow> 'o \<times> 'o omap"
    and check :: "zenv \<Rightarrow> 'o omap \<Rightarrow> 'o omap"
    and named :: "string \<Rightarrow> 'o \<Rightarrow> bool"
  assumes find_obj: "fst (find_is_create e m k) = (case om_find m k of Some x \<Rightarrow> x | None \<Rightarrow> create e k)"
    and find_map: "snd (find_is_create e m k) =
      (case om_find m k of Some _ \<Rightarrow> m | None \<Rightarrow> om_insert k (create e k) m)"
    and check_filter: "check e m = filter (\<lambda>x. \<not> released e (snd x)) m"
    and create_named: "named k (create e k)"
begin

definition cache_inv :: "'o omap \<Rightarrow> bool" where
  "cache_inv m \<longleftrightarrow> om_inv m \<and> (\<forall>(k, x) \<in> set m. named k x)"

lemma cache_inv_Nil: "cache_inv []"
  by (simp add: cache_inv_def)

lemma cache_inv_put: "cache_inv m \<Longrightarrow> named k x \<Longrightarrow> cache_inv (om_put k x m)"
proof -
  assume m: "cache_inv m" and x: "named k x"
  have inv: "om_inv (om_put k x m)" using m by (simp add: cache_inv_def om_inv_put)
  have "named j y" if "(j, y) \<in> set (om_put k x m)" for j y
  proof (cases "j = k")
    case True
    then show ?thesis using that x by (auto simp: om_find_iff [OF inv, symmetric])
  next
    case False
    then have "om_find m j = Some y"
      using that by (auto simp: om_find_iff [OF inv, symmetric])
    then show ?thesis using m om_find_iff [of m j y] by (auto simp: cache_inv_def)
  qed
  then show ?thesis using inv by (auto simp: cache_inv_def)
qed

lemma cache_inv_insert: "cache_inv m \<Longrightarrow> named k x \<Longrightarrow> cache_inv (om_insert k x m)"
  using cache_inv_put [of m k x] by (simp add: om_insert_def split: option.split)

lemma find_named: "cache_inv m \<Longrightarrow> named k (fst (find_is_create e m k))"
  using create_named [of k e] om_find_iff [of m k]
  by (auto simp: find_obj cache_inv_def split: option.splits)

lemma find_inv: "cache_inv m \<Longrightarrow> cache_inv (snd (find_is_create e m k))"
  using create_named [of k e] cache_inv_insert [of m k] by (simp add: find_map split: option.split)

lemma check_inv: "cache_inv m \<Longrightarrow> cache_inv (check e m)"
  using om_inv_filter [of m] by (auto simp: cache_inv_def check_filter)

text \<open>The object that was handed out is found again until it is released.\<close>

lemma find_again:
  "find_is_create e' (snd (find_is_create e m k)) k = find_is_create e m k"
proof -
  have "om_find (snd (find_is_create e m k)) k = Some (fst (find_is_create e m k))"
    by (auto simp: find_obj find_map split: option.splits)
  then show ?thesis by (simp add: prod_eq_iff find_obj find_map)
qed

lemma check_find:
  "cache_inv m \<Longrightarrow> om_find (check e m) k =
     (case om_find m k of None \<Rightarrow> None | Some x \<Rightarrow> if released e x then None else Some x)"
proof -
  have eq: "(\<lambda>x. \<not> released e (snd x)) = (\<lambda>(k :: string, x). \<not> released e x)" by auto
  assume "cache_inv m"
  then have "om_inv m" by (simp add: cache_inv_def)
  then show ?thesis unfolding check_filter eq by (simp add: om_find_filter split: option.split)
qed

end

lemma admin_check_filter:
  "list_admin_check e l = filter (\<lambda>x. \<not> clist_is_release e (snd x)) l"
  "mlist_admin_check e ml = filter (\<lambda>x. \<not> cmlist_is_release e (snd x)) ml"
  "seq_admin_check e s = filter (\<lambda>x. \<not> cseq_is_release e (snd x)) s"
  "cloud_admin_check e c = filter (\<lambda>x. \<not> ccloud_is_release e (snd x)) c"
  by (induct l, auto) (induct ml, auto, induct s, auto, induct c, auto)

abbreviation list_named :: "string \<Rightarrow> clist \<Rightarrow> bool" where "list_named k l \<equiv> l_key l = k"
abbreviation mlist_named :: "string \<Rightarrow> cmlist \<Rightarrow> bool" where "mlist_named k l \<equiv> ml_key l = k"
abbreviation seq_named :: "string \<Rightarrow> cseq \<Rightarrow> bool" where "seq_named k s \<equiv> s_key s = k"
abbreviation cloud_named :: "string \<Rightarrow> ccloud \<Rightarrow> bool" where "cloud_named k c \<equiv> cc_key c = ''CLOUD_'' @ k"

interpretation lists: object_cache clist_new clist_is_release list_admin_find_is_create list_admin_check list_named
  by unfold_locales (auto simp: list_admin_find_is_create_def admin_check_filter clist_new_def Let_def split: option.split)

interpretation mlists: object_cache cmlist_new cmlist_is_release mlist_admin_find_is_create mlist_admin_check mlist_named
  by unfold_locales (auto simp: mlist_admin_find_is_create_def admin_check_filter cmlist_new_def Let_def split: option.split)

interpretation seqs: object_cache cseq_new cseq_is_release seq_admin_find_is_create seq_admin_check seq_named
  by unfold_locales (auto simp: seq_admin_find_is_create_def seq_admin_find_def seq_admin_create_def admin_check_filter
      cseq_new_def Let_def split: option.split)

interpretation clouds: object_cache ccloud_new ccloud_is_release cloud_admin_find_is_create cloud_admin_check cloud_named
  by unfold_locales (auto simp: cloud_admin_find_is_create_def admin_check_filter ccloud_new_def Let_def split: option.split)

end
