(* ===== verification/Cloud.thy ===== *)
theory Cloud
  imports ObjCache
begin

text \<open>
  The CLOUD commands (src/zcloud/zstorage/zstorage/c_cloud.h, c_cloud.cpp): message boxes built on
  SEQ logs.  The replies of the log commands are taken apart again and repacked as TLV packets.
  The state of the whole server is introduced here.
\<close>

section \<open>The server state\<close>

record zserver =
  sv_w :: zworld
  sv_list :: "clist omap"
  sv_mlist :: "cmlist omap"
  sv_seq :: "cseq omap"
  sv_cloud :: "ccloud omap"

text \<open>
  What \<^verbatim>\<open>c_time\<close> makes of times with the time zone of the system: the text of a time, and the time of a
  text.
\<close>

record zlocal =
  lc_stamp :: "u32 \<Rightarrow> string"
  lc_unix :: "string \<Rightarrow> u32"

text \<open>A command on a log: the object is found or created, and keeps its changes.\<close>

definition with_seq :: "zenv \<Rightarrow> string \<Rightarrow> (cseq \<Rightarrow> zworld \<Rightarrow> ostream \<Rightarrow> cseq \<times> zworld \<times> ostream) \<Rightarrow>
    zserver \<Rightarrow> ostream \<Rightarrow> zserver \<times> ostream" where
  "with_seq e key f sv io =
     (let (s, m) = seq_admin_find_is_create e (sv_seq sv) key; (s', w', io') = f s (sv_w sv) io
      in (sv\<lparr>sv_w := w', sv_seq := om_put key s' m\<rparr>, io'))"

text \<open>The search always returns (\<open>query_terminates\<close>).\<close>

definition seq_query :: "zenv \<Rightarrow> u32 \<Rightarrow> cseq \<Rightarrow> zworld \<Rightarrow> ostream \<Rightarrow> cseq \<times> zworld \<times> ostream" where
  "seq_query e datetime s w io = (case cseq_query e datetime s w io of Some r \<Rightarrow> r | None \<Rightarrow> (s, w, io))"

section \<open>Reading replies\<close>

definition result_unit :: "punit \<Rightarrow> bytes" where
  "result_unit u = take (nat (pu_len u - 2)) (pu_str u)"

definition is_result_ok :: "ostream \<Rightarrow> bool" where
  "is_result_ok os =
     (if os_empty os then False
      else case os_get os 0 of None \<Rightarrow> False | Some u \<Rightarrow> take 2 (result_unit u) = ''OK'')"

definition result_get_string :: "nat \<Rightarrow> ostream \<Rightarrow> string" where
  "result_get_string index os =
     (case os_get os index of None \<Rightarrow> '''' | Some u \<Rightarrow> cstr (result_unit u))"

definition result_get_integer :: "nat \<Rightarrow> ostream \<Rightarrow> u32" where
  "result_get_integer index os =
     (case os_get os index of None \<Rightarrow> 0 | Some u \<Rightarrow> word_of_int (atoi (cstr (result_unit u))))"

definition result_get :: "nat \<Rightarrow> ostream \<Rightarrow> bytes option" where
  "result_get index os = map_option result_unit (os_get os index)"

text \<open>\<^verbatim>\<open>string_split\<close>: the pieces that end at a separator; what follows the last one is dropped.\<close>

fun split_from :: "char \<Rightarrow> string \<Rightarrow> string \<Rightarrow> string list" where
  "split_from sep piece [] = []"
| "split_from sep piece (c # s) =
     (if c = sep then piece # split_from sep [] s else split_from sep (piece @ [c]) s)"

definition string_split :: "string \<Rightarrow> char \<Rightarrow> string list" where
  "string_split s sep = split_from sep [] s"

section \<open>Operations\<close>

definition cloud_seq_key :: "ccloud \<Rightarrow> string \<Rightarrow> string" where
  "cloud_seq_key c wildcard = cc_key c @ ''@'' @ wildcard"

definition cloud_read_key :: "ccloud \<Rightarrow> string \<Rightarrow> string" where
  "cloud_read_key c keyword = cc_key c @ ''@READ@'' @ keyword"

abbreviation KEY_TIMEOUT :: u32 where "KEY_TIMEOUT \<equiv> 2592000"

definition cloud_put :: "zenv \<Rightarrow> string \<Rightarrow> bytes \<Rightarrow> zserver \<Rightarrow> zserver \<times> bool" where
  "cloud_put e key value sv =
     (let (db, _, ok) = base_put e (w_db (sv_w sv)) (base_head T_GET_SET) key value (time32 e + KEY_TIMEOUT)
      in (sv\<lparr>sv_w := (sv_w sv)\<lparr>w_db := db\<rparr>\<rparr>, ok))"

definition get_read :: "ccloud \<Rightarrow> string \<Rightarrow> dbase \<Rightarrow> u32" where
  "get_read c keyword db =
     (case get_value db (cloud_read_key c keyword) of
        Inl _ \<Rightarrow> 0
      | Inr (value, head) \<Rightarrow> word_of_int (atoi (cstr (drop HEAD_LEN value))))"

definition cloud_push :: "zenv \<Rightarrow> ccloud \<Rightarrow> istream \<Rightarrow> nat \<Rightarrow> zserver \<Rightarrow> ostream \<Rightarrow> zserver \<times> ostream" where
  "cloud_push e c p index sv io =
     (let wildcard = istream_to_string p (index + 1)
      in case istream_get p (index + 2) of
           None \<Rightarrow> (sv, zerror_result io ''data is null.'')
         | Some (ptr, len) \<Rightarrow>
             let key = cloud_seq_key c wildcard;
                 (sv1, os1) = with_seq e key (cseq_push e (take (nat len) ptr) 0) sv (Os_array [])
             in if \<not> is_result_ok os1 then (sv1, zerror_result io ''seq push error'')
                else let (sv2, os2) = with_seq e key (cseq_index e) sv1 (Os_array [])
                     in if \<not> is_result_ok os2 then (sv2, zerror_result io ''seq index error'')
                        else (sv2, os_push_str (io_OK io) (result_get_string 1 os2)))"

definition cloud_size :: "zenv \<Rightarrow> ccloud \<Rightarrow> istream \<Rightarrow> nat \<Rightarrow> zserver \<Rightarrow> ostream \<Rightarrow> zserver \<times> ostream" where
  "cloud_size e c p index sv io0 =
     (let io = io_OK io0; wildcard = istream_to_string p (index + 1);
          (sv1, os) = with_seq e (cloud_seq_key c wildcard) (cseq_size e) sv (Os_array [])
      in if \<not> is_result_ok os then (sv1, io) else (sv1, os_push_str io (result_get_string 1 os)))"

definition cloud_index :: "zenv \<Rightarrow> ccloud \<Rightarrow> istream \<Rightarrow> nat \<Rightarrow> zserver \<Rightarrow> ostream \<Rightarrow> zserver \<times> ostream" where
  "cloud_index e c p index sv io0 =
     (let io = io_OK io0; wildcard = istream_to_string p (index + 1);
          (sv1, os) = with_seq e (cloud_seq_key c wildcard) (cseq_index e) sv (Os_array [])
      in if \<not> is_result_ok os then (sv1, io) else (sv1, os_push_str io (result_get_string 1 os)))"

text \<open>The comparison with the old mark is unsigned.\<close>

definition cloud_read :: "zenv \<Rightarrow> ccloud \<Rightarrow> istream \<Rightarrow> nat \<Rightarrow> zserver \<Rightarrow> ostream \<Rightarrow> zserver \<times> ostream" where
  "cloud_read e c p index sv io =
     (let keyword = istream_to_string p (index + 1); i = istream_to_string p (index + 2);
          old_id = get_read c keyword (w_db (sv_w sv))
      in if (word_of_int (atoi i) :: u32) \<le> old_id then (sv, io)
         else let (sv1, ok) = cloud_put e (cloud_read_key c keyword) i sv
              in (sv1, if ok then io_OK io else zerror_result io ''write db error''))"

text \<open>One packet of \<^verbatim>\<open>limit\<close> and \<^verbatim>\<open>query\<close>; the message types of zcloud_sdk.h.\<close>

abbreviation seek_indexId :: nat where "seek_indexId \<equiv> 1"
abbreviation seek_ptime :: nat where "seek_ptime \<equiv> 2"
abbreviation seek_packet :: nat where "seek_packet \<equiv> 3"

definition seek_tlv :: "string list \<Rightarrow> bytes option \<Rightarrow> bytes" where
  "seek_tlv vs data =
     (let indexId = word_of_int (atoi (vs ! 0)) :: u32;
          t1 = tlv_push_str W1 W2 seek_indexId (itostr (int (unat indexId))) tlv_new;
          t2 = tlv_push_str W1 W2 seek_ptime (vs ! 1) t1;
          t3 = (case data of None \<Rightarrow> t2 | Some d \<Rightarrow> if d \<noteq> [] then tlv_push W1 W2 seek_packet d t2 else t2)
      in snd (tlv_encode W1 W2 t3))"

text \<open>The repacking loop, on the units after the status.\<close>

fun repack :: "punit list \<Rightarrow> ostream \<Rightarrow> ostream" where
  "repack [] io = io"
| "repack (u # us) io =
     (let vs = string_split (cstr (result_unit u)) (CHR '','')
      in if length vs \<noteq> 2 then io
         else let packet = seek_tlv vs (case us of [] \<Rightarrow> None | d # _ \<Rightarrow> Some (result_unit d));
                  io' = (if packet \<noteq> [] then os_push_buf io packet else io)
              in case us of [] \<Rightarrow> io' | d # us' \<Rightarrow> repack us' io')"

fun os_units :: "ostream \<Rightarrow> punit list" where
  "os_units (Os_array us) = us" | "os_units _ = []"

definition repack_reply :: "ostream \<Rightarrow> ostream \<Rightarrow> ostream" where
  "repack_reply os io = (if is_result_ok os then repack (tl (os_units os)) io else io)"

definition param_int :: "istream \<Rightarrow> nat \<Rightarrow> int" where
  "param_int p index = sint (ucast (istream_to_integer p index) :: u32)"

definition param_u32 :: "istream \<Rightarrow> nat \<Rightarrow> u32" where
  "param_u32 p index = ucast (istream_to_integer p index)"

definition cloud_limit :: "zlocal \<Rightarrow> zenv \<Rightarrow> ccloud \<Rightarrow> istream \<Rightarrow> nat \<Rightarrow> zserver \<Rightarrow> ostream \<Rightarrow> zserver \<times> ostream" where
  "cloud_limit lc e c p index sv io =
     (let wildcard = istream_to_string p (index + 1); location = param_u32 p (index + 2);
          count = param_int p (index + 3)
      in if wildcard = [] then (sv, zerror_result io ''wildcard is null.'')
         else if count = 0 \<or> \<bar>count\<bar> > 5000 then (sv, zerror_result io ''count error.'')
         else let (sv1, os) = with_seq e (cloud_seq_key c wildcard) (cseq_seek (lc_stamp lc) e location count) sv (Os_array [])
              in (sv1, repack_reply os (io_OK io)))"

definition cloud_query :: "zlocal \<Rightarrow> zenv \<Rightarrow> ccloud \<Rightarrow> istream \<Rightarrow> nat \<Rightarrow> zserver \<Rightarrow> ostream \<Rightarrow> zserver \<times> ostream" where
  "cloud_query lc e c p index sv io0 =
     (let io = io_OK io0; wildcard = istream_to_string p (index + 1); strtime = istream_to_string p (index + 2);
          count = param_int p (index + 3); key = cloud_seq_key c wildcard;
          (sv1, os) = with_seq e key (seq_query e (lc_unix lc strtime)) sv (Os_array [])
      in if \<not> is_result_ok os then (sv1, io)
         else let (sv2, os2) = with_seq e key (cseq_seek (lc_stamp lc) e (result_get_integer 1 os) count) sv1 (Os_array [])
              in (sv2, repack_reply os2 io))"

text \<open>\<^verbatim>\<open>online\<close> for one source: marks, number of unread messages and the last message.\<close>

definition online_tlv :: "string \<Rightarrow> u32 \<Rightarrow> u32 \<Rightarrow> u32 \<Rightarrow> ostream \<Rightarrow> bytes" where
  "online_tlv src beginId endId unread os =
     (let t1 = tlv_push_str W1 W2 1 src tlv_new;
          t2 = tlv_push_str W1 W2 2 (itostr (int (unat beginId))) t1;
          t3 = tlv_push_str W1 W2 3 (itostr (int (unat endId))) t2;
          t4 = tlv_push_u32 W1 W2 6 unread t3;
          t6 = (if is_result_ok os
                then let vs = string_split (result_get_string 1 os) (CHR '','');
                         t5 = (if 2 \<le> length vs then tlv_push_str W1 W2 4 (vs ! 1) t4 else t4)
                     in case result_get 2 os of
                          None \<Rightarrow> t5 | Some d \<Rightarrow> if d \<noteq> [] then tlv_push W1 W2 5 d t5 else t5
                else t4)
      in snd (tlv_encode W1 W2 t6))"

definition online_source :: "zlocal \<Rightarrow> zenv \<Rightarrow> ccloud \<Rightarrow> string \<Rightarrow> zserver \<times> ostream \<Rightarrow> zserver \<times> ostream" where
  "online_source lc e c src st =
     (let (sv, io) = st; key = cloud_seq_key c src;
          (sv1, os) = with_seq e key (cseq_index e) sv (Os_array [])
      in if \<not> is_result_ok os then (sv1, io)
         else let beginId0 = get_read c src (w_db (sv_w sv1)); endId = result_get_integer 1 os;
                  (sv2, beginId1) =
                    (if beginId0 > endId
                     then (fst (cloud_put e (cloud_read_key c src) (itostr (int (unat endId))) sv1), endId)
                     else (sv1, beginId0));
                  (sv3, beginId2, unread) =
                    (if beginId1 = 0
                     then let (sv3, osize) = with_seq e key (cseq_size e) sv2 (Os_array []);
                              usize = result_get_integer 1 osize
                          in (sv3, endId - usize + 1, usize)
                     else (sv2, beginId1, endId - beginId1));
                  beginId3 = (if beginId2 > endId then endId else beginId2);
                  (sv4, os2) = with_seq e key (cseq_seek (lc_stamp lc) e endId 1) sv3 (Os_array []);
                  packet = online_tlv src beginId3 endId unread os2
              in (sv4, if packet \<noteq> [] then os_push_buf io packet else io))"

definition cloud_online :: "zlocal \<Rightarrow> zenv \<Rightarrow> ccloud \<Rightarrow> istream \<Rightarrow> nat \<Rightarrow> zserver \<Rightarrow> ostream \<Rightarrow> zserver \<times> ostream" where
  "cloud_online lc e c p index sv io =
     fold (online_source lc e c) (string_split (istream_to_string p (index + 1)) (CHR '','')) (sv, io_OK io)"

end
