(* ===== verification/Commands.thy ===== *)
theory Commands
  imports Cloud
begin

text \<open>
  The commands of the server and their dispatch: \<^verbatim>\<open>_cmd.cpp\<close>, \<^verbatim>\<open>_list.h\<close>, \<^verbatim>\<open>_mlist.h\<close>, \<^verbatim>\<open>_seq.h\<close>,
  \<^verbatim>\<open>_cloud.h\<close>, \<^verbatim>\<open>z_cmds.h\<close>, \<^verbatim>\<open>z_command.cpp\<close>, the recycler \<^verbatim>\<open>c_recycle.h\<close> and the refresh thread
  \<^verbatim>\<open>c_thread_refresh.h\<close> in src/zcloud/zstorage/zstorage.  A handler takes the parsed request, the
  index of its last parameter that has been read, the server state and the reply stream.
\<close>

section \<open>Containers\<close>

type_synonym handler = "istream \<Rightarrow> nat \<Rightarrow> zserver \<Rightarrow> ostream \<Rightarrow> zserver \<times> ostream"

definition with_list :: "zenv \<Rightarrow> string \<Rightarrow> (clist \<Rightarrow> zworld \<Rightarrow> ostream \<Rightarrow> clist \<times> zworld \<times> ostream) \<Rightarrow>
    zserver \<Rightarrow> ostream \<Rightarrow> zserver \<times> ostream" where
  "with_list e key f sv io =
     (let (l, m) = list_admin_find_is_create e (sv_list sv) key; (l', w', io') = f l (sv_w sv) io
      in (sv\<lparr>sv_w := w', sv_list := om_put key l' m\<rparr>, io'))"

definition with_mlist :: "zenv \<Rightarrow> string \<Rightarrow> (cmlist \<Rightarrow> zworld \<Rightarrow> ostream \<Rightarrow> cmlist \<times> zworld \<times> ostream) \<Rightarrow>
    zserver \<Rightarrow> ostream \<Rightarrow> zserver \<times> ostream" where
  "with_mlist e key f sv io =
     (let (l, m) = mlist_admin_find_is_create e (sv_mlist sv) key; (l', w', io') = f l (sv_w sv) io
      in (sv\<lparr>sv_w := w', sv_mlist := om_put key l' m\<rparr>, io'))"

text \<open>
  The keyword of a request: upper-cased in place, up to its first NUL, and ended at its length.
\<close>

definition strupr_mem :: "bytes \<Rightarrow> bytes" where
  "strupr_mem s = strupr s @ drop (length (cstr s)) s"

definition keyword :: "istream \<Rightarrow> nat \<Rightarrow> string option" where
  "keyword p index = map_option (\<lambda>(ptr, len). cstr (take (nat len) (strupr_mem ptr))) (istream_get p index)"

definition unknown_keyword :: "string \<Rightarrow> ostream \<Rightarrow> ostream" where
  "unknown_keyword kw io = zerror_result io (''keyword Can'' @ [CHR 0x27] @ ''t identify. keyword:'' @ kw)"

text \<open>Methods of an object that change nothing but the reply.\<close>

definition answer :: "ostream \<Rightarrow> 'o \<Rightarrow> zworld \<Rightarrow> ostream \<Rightarrow> 'o \<times> zworld \<times> ostream" where
  "answer io' l w io = (l, w, io')"

subsection \<open>LIST\<close>

definition list_cmd_push :: "zenv \<Rightarrow> istream \<Rightarrow> nat \<Rightarrow> clist \<Rightarrow> zworld \<Rightarrow> ostream \<Rightarrow> clist \<times> zworld \<times> ostream" where
  "list_cmd_push e p index l w io =
     (case istream_get p (index + 1) of
        None \<Rightarrow> (l, w, zerror_result io ''list create error.'')
      | Some (ptr, len) \<Rightarrow> clist_push e (take (nat len) ptr) l w io)"

definition list_cmd_seek :: "zenv \<Rightarrow> istream \<Rightarrow> nat \<Rightarrow> clist \<Rightarrow> zworld \<Rightarrow> ostream \<Rightarrow> clist \<times> zworld \<times> ostream" where
  "list_cmd_seek e p index l w io =
     (let iseek = param_int p (index + 1)
      in case keyword p (index + 2) of
           None \<Rightarrow> (l, w, zerror_result io ''command error.'')
         | Some kw \<Rightarrow>
             if kw \<noteq> ''LIMIT'' then (l, w, zerror_result io ''command error.'')
             else clist_seek e iseek (param_u32 p (index + 3)) l w io)"

definition list_exec :: "zenv \<Rightarrow> string \<Rightarrow> handler" where
  "list_exec e key p index sv io =
     (case keyword p (index + 1) of
        None \<Rightarrow> (sv, zerror_result io ''value not exists.'')
      | Some kw \<Rightarrow>
          with_list e key
            (if kw = ''PUSH'' then list_cmd_push e p (index + 1)
             else if kw = ''POP'' then clist_pop e
             else if kw = ''SIZE'' then clist_size e
             else if kw = ''LIMIT'' then clist_limit e (param_u32 p (index + 2))
             else if kw = ''EXPIRE'' then clist_expire e (param_u32 p (index + 2))
             else if kw = ''DEL'' then clist_remove e
             else if kw = ''TIME'' then clist_time e
             else if kw = ''UPDATE'' then clist_update e p (index + 1)
             else if kw = ''SEEK'' then list_cmd_seek e p (index + 1)
             else answer (unknown_keyword kw io)) sv io)"

definition list_remove :: "zenv \<Rightarrow> string \<Rightarrow> zserver \<Rightarrow> ostream \<Rightarrow> zserver \<times> ostream" where
  "list_remove e key sv io = with_list e key (clist_remove e) sv io"

subsection \<open>MLIST\<close>

definition mlist_cmd_push :: "zenv \<Rightarrow> istream \<Rightarrow> nat \<Rightarrow> cmlist \<Rightarrow> zworld \<Rightarrow> ostream \<Rightarrow> cmlist \<times> zworld \<times> ostream" where
  "mlist_cmd_push e p index l w io =
     (let keyId = istream_to_string p (index + 1)
      in if keyId = [] then (l, w, zerror_result io ''keyid is null.'')
         else case istream_get p (index + 2) of
             None \<Rightarrow> (l, w, zerror_result io ''value not exists.'')
           | Some (ptr, len) \<Rightarrow> cmlist_push e keyId (take (nat len) ptr) l w io)"

definition mlist_cmd_seek :: "zenv \<Rightarrow> istream \<Rightarrow> nat \<Rightarrow> cmlist \<Rightarrow> zworld \<Rightarrow> ostream \<Rightarrow> cmlist \<times> zworld \<times> ostream" where
  "mlist_cmd_seek e p index l w io =
     (let keyId = istream_to_string p (index + 1)
      in if keyId = [] then (l, w, zerror_result io ''keyid is null.'')
         else cmlist_seek e keyId (param_u32 p (index + 2)) l w io)"

definition mlist_exec :: "zenv \<Rightarrow> string \<Rightarrow> handler" where
  "mlist_exec e key p index sv io =
     (case keyword p (index + 1) of
        None \<Rightarrow> (sv, zerror_result io ''value not exists.'')
      | Some kw \<Rightarrow>
          with_mlist e key
            (if kw = ''PUSH'' then mlist_cmd_push e p (index + 1)
             else if kw = ''SIZE'' then cmlist_size e
             else if kw = ''SEEK'' then mlist_cmd_seek e p (index + 1)
             else if kw = ''EXPIRE'' then cmlist_expire e (param_u32 p (index + 2))
             else if kw = ''DEL'' then cmlist_remove e
             else if kw = ''TIME'' then cmlist_time e
             else answer (unknown_keyword kw io)) sv io)"

definition mlist_remove :: "zenv \<Rightarrow> string \<Rightarrow> zserver \<Rightarrow> ostream \<Rightarrow> zserver \<times> ostream" where
  "mlist_remove e key sv io = with_mlist e key (cmlist_remove e) sv io"

subsection \<open>SEQ\<close>

definition seq_cmd_push :: "zenv \<Rightarrow> istream \<Rightarrow> nat \<Rightarrow> cseq \<Rightarrow> zworld \<Rightarrow> ostream \<Rightarrow> cseq \<times> zworld \<times> ostream" where
  "seq_cmd_push e p index s w io =
     (case istream_get p (index + 1) of
        None \<Rightarrow> (s, w, zerror_result io ''list create error.'')
      | Some (ptr, len) \<Rightarrow> cseq_push e (take (nat len) ptr) (param_u32 p (index + 2) * 60) s w io)"

definition seq_cmd_query :: "zlocal \<Rightarrow> zenv \<Rightarrow> istream \<Rightarrow> nat \<Rightarrow> cseq \<Rightarrow> zworld \<Rightarrow> ostream \<Rightarrow> cseq \<times> zworld \<times> ostream" where
  "seq_cmd_query lc e p index s w io = seq_query e (lc_unix lc (istream_to_string p (index + 1))) s w io"

text \<open>\<^verbatim>\<open>uquery\<close>, the search by a number of seconds, is defined but never called.\<close>

definition seq_cmd_uquery :: "zenv \<Rightarrow> istream \<Rightarrow> nat \<Rightarrow> cseq \<Rightarrow> zworld \<Rightarrow> ostream \<Rightarrow> cseq \<times> zworld \<times> ostream" where
  "seq_cmd_uquery e p index s w io = seq_query e (param_u32 p (index + 1)) s w io"

definition seq_exec :: "zlocal \<Rightarrow> zenv \<Rightarrow> string \<Rightarrow> handler" where
  "seq_exec lc e key p index sv io =
     (case keyword p (index + 1) of
        None \<Rightarrow> (sv, zerror_result io ''value not exists.'')
      | Some kw \<Rightarrow>
          with_seq e key
            (if kw = ''PUSH'' then seq_cmd_push e p (index + 1)
             else if kw = ''INDEX'' then cseq_index e
             else if kw = ''SIZE'' then cseq_size e
             else if kw = ''SEEK'' then cseq_seek (lc_stamp lc) e (param_u32 p (index + 2)) (param_int p (index + 3))
             else if kw = ''DELAY'' then cseq_delay e (param_u32 p (index + 2))
             else if kw = ''LOOKDELAY'' then cseq_lookdelay e
             else if kw = ''QUERY'' then seq_cmd_query lc e p (index + 1)
             else if kw = ''UQUERY'' then seq_cmd_query lc e p (index + 1)
             else answer (unknown_keyword kw io)) sv io)"

subsection \<open>CLOUD\<close>

definition cloud_exec :: "zlocal \<Rightarrow> zenv \<Rightarrow> string \<Rightarrow> handler" where
  "cloud_exec lc e key p index sv io =
     (case keyword p (index + 1) of
        None \<Rightarrow> (sv, zerror_result io ''value not exists.'')
      | Some kw \<Rightarrow>
          let (c, m) = cloud_admin_find_is_create e (sv_cloud sv) key; sv' = sv\<lparr>sv_cloud := m\<rparr>
          in if kw = ''PUSH'' then cloud_push e c p (index + 1) sv' io
             else if kw = ''LIMIT'' then cloud_limit lc e c p (index + 1) sv' io
             else if kw = ''ONLINE'' then cloud_online lc e c p (index + 1) sv' io
             else if kw = ''QUERY'' then cloud_query lc e c p (index + 1) sv' io
             else if kw = ''SIZE'' then cloud_size e c p (index + 1) sv' io
             else if kw = ''READ'' then cloud_read e c p (index + 1) sv' io
             else if kw = ''INDEX'' then cloud_index e c p (index + 1) sv' io
             else (sv', unknown_keyword kw io))"

section \<open>Plain values\<close>

definition get_exec :: "string \<Rightarrow> handler" where
  "get_exec key p index sv io =
     (sv, case get_value (w_db (sv_w sv)) key of
            Inl _ \<Rightarrow> io_OK io
          | Inr (value, head) \<Rightarrow>
              if h_type head \<noteq> T_GET_SET then io_OK io
              else os_push_buf (io_OK io) (drop HEAD_LEN value))"

text \<open>The expiry time of SET: the error of its inner command is an \<^const>\<open>Inl\<close>.\<close>

definition set_timeout :: "istream \<Rightarrow> nat \<Rightarrow> string + u32" where
  "set_timeout p index =
     (case keyword p index of
        None \<Rightarrow> Inr 0
      | Some kw \<Rightarrow> if kw = ''EXPIRE'' then Inr (param_u32 p (index + 1)) else Inl ''command format correct.'')"

definition set_exec :: "zenv \<Rightarrow> string \<Rightarrow> handler" where
  "set_exec e key p index sv io =
     (case istream_get p (index + 1) of
        None \<Rightarrow> (sv, zerror_result io ''value not exists.'')
      | Some (ptr, len) \<Rightarrow>
         (case set_timeout p (index + 2) of
            Inl err \<Rightarrow> (sv, zerror_result io err)
          | Inr t \<Rightarrow>
              let timeout = (if t = 0 then PERMANENT_BASE else t); w = sv_w sv;
                  (db, head, ok) = base_put e (w_db w) (base_head T_GET_SET) key (take (nat len) ptr) timeout
              in if \<not> ok then (sv\<lparr>sv_w := w\<lparr>w_db := db\<rparr>\<rparr>, zerror_result io ''db error.'')
                 else (sv\<lparr>sv_w := w\<lparr>w_db := db, w_tmo := timeout_push e (h_type head) key timeout (w_tmo w)\<rparr>\<rparr>, io_OK io)))"

definition exists_exec :: "string \<Rightarrow> handler" where
  "exists_exec key p index sv io =
     (sv, os_push_cstr (io_OK io) (if base_get (w_db (sv_w sv)) key = None then ''0'' else ''1''))"

definition del_remove :: "string \<Rightarrow> zserver \<Rightarrow> ostream \<Rightarrow> zserver \<times> ostream" where
  "del_remove key sv io =
     (let w = sv_w sv; (db, ok) = db_write (w_db w) [Batch_Delete key]
      in (sv\<lparr>sv_w := w\<lparr>w_db := db\<rparr>\<rparr>, if ok then io_OK io else zerror_result io ''del error.''))"

section \<open>Dispatch\<close>

datatype cmd = C_get | C_set | C_del | C_exists | C_recycle | C_list | C_mlist | C_seq | C_cloud

definition get_cmdId :: "string \<Rightarrow> cmd option" where
  "get_cmdId s = map_of [(''GET'', C_get), (''SET'', C_set), (''DEL'', C_del), (''EXISTS'', C_exists),
     (''RECYCLE'', C_recycle), (''LIST'', C_list), (''MLIST'', C_mlist), (''SEQ'', C_seq), (''CLOUD'', C_cloud)] s"

definition get_type :: "u8 \<Rightarrow> cmd option" where
  "get_type t = (case map_of [(T_GET_SET, ''DEL''), (T_LIST, ''LIST''), (T_MLIST, ''MLIST''), (T_SEQ, ''SEQ'')] t of
     None \<Rightarrow> None | Some s \<Rightarrow> get_cmdId s)"

text \<open>\<^verbatim>\<open>ZTYPE\<close>: the second byte of the record; a record of one byte is followed by the NUL of the string.\<close>

definition ztype :: "string \<Rightarrow> u8" where
  "ztype value = (if 2 \<le> length value then of_char (value ! 1) else 0)"

text \<open>
  The virtual \<^verbatim>\<open>remove(key, io)\<close>.  The classes \<^verbatim>\<open>_seq\<close> and \<^verbatim>\<open>_set\<close> declare methods of that name with other
  parameters, so for them and the classes without one it is the empty method of \<^verbatim>\<open>IAnalyzer\<close>.
\<close>

fun cmd_remove :: "zenv \<Rightarrow> cmd \<Rightarrow> string \<Rightarrow> zserver \<Rightarrow> ostream \<Rightarrow> zserver \<times> ostream" where
  "cmd_remove e C_del key sv io = del_remove key sv io"
| "cmd_remove e C_list key sv io = list_remove e key sv io"
| "cmd_remove e C_mlist key sv io = mlist_remove e key sv io"
| "cmd_remove e _ key sv io = (sv, io)"

definition del_exec :: "zenv \<Rightarrow> string \<Rightarrow> zserver \<Rightarrow> ostream \<Rightarrow> zserver \<times> ostream" where
  "del_exec e key sv io =
     (case base_get (w_db (sv_w sv)) key of
        None \<Rightarrow> (sv, zerror_result io ''key is not exists.'')
      | Some value \<Rightarrow>
         (case get_type (ztype value) of
            None \<Rightarrow> (sv, zerror_result io ''del date type error.'')
          | Some az \<Rightarrow> cmd_remove e az key sv io))"

section \<open>Recycling\<close>

text \<open>\<^verbatim>\<open>read\<close>: whether a record is kept.\<close>

definition recycle_keeps :: "zenv \<Rightarrow> bytes \<Rightarrow> bool" where
  "recycle_keeps e value \<longleftrightarrow>
     length value \<le> HEAD_LEN \<or>
     g_crc (mem_head value) \<noteq> crc16 0 (drop HEAD_LEN value) \<or>
     \<not> check_type (mem_head value) \<or>
     h_type (mem_head value) = T_SEQ_VALUE \<or>
     unat (g_effective (mem_head value)) > now e"

definition recycle_read :: "zenv \<Rightarrow> string \<Rightarrow> bytes \<Rightarrow> zserver \<Rightarrow> zserver \<times> bool" where
  "recycle_read e key value sv =
     (if recycle_keeps e value then (sv, True) else (fst (del_exec e (cstr key) sv (Os_array [])), False))"

text \<open>\<^verbatim>\<open>traverse\<close>: an iterator of the database shows the records of the moment it was made.\<close>

definition recycle :: "zenv \<Rightarrow> zserver \<Rightarrow> zserver" where
  "recycle e sv = fold (\<lambda>(key, value) sv. fst (recycle_read e key value sv)) (db_map (w_db (sv_w sv))) sv"

text \<open>The reply of RECYCLE has the milliseconds it took, which are the argument \<open>ms\<close>.\<close>

definition recycle_exec :: "u64 \<Rightarrow> zenv \<Rightarrow> zserver \<Rightarrow> ostream \<Rightarrow> zserver \<times> ostream" where
  "recycle_exec ms e sv io = (recycle e sv, os_push_str (io_OK io) (itostr (sint ms)))"

section \<open>The commands of the connection\<close>

fun cmd_exec :: "u64 \<Rightarrow> zlocal \<Rightarrow> zenv \<Rightarrow> cmd \<Rightarrow> string \<Rightarrow> handler" where
  "cmd_exec ms lc e C_get key p index sv io = get_exec key p index sv io"
| "cmd_exec ms lc e C_set key p index sv io = set_exec e key p index sv io"
| "cmd_exec ms lc e C_del key p index sv io = del_exec e key sv io"
| "cmd_exec ms lc e C_exists key p index sv io = exists_exec key p index sv io"
| "cmd_exec ms lc e C_recycle key p index sv io = recycle_exec ms e sv io"
| "cmd_exec ms lc e C_list key p index sv io = list_exec e key p index sv io"
| "cmd_exec ms lc e C_mlist key p index sv io = mlist_exec e key p index sv io"
| "cmd_exec ms lc e C_seq key p index sv io = seq_exec lc e key p index sv io"
| "cmd_exec ms lc e C_cloud key p index sv io = cloud_exec lc e key p index sv io"

text \<open>The test for the word KEY compares only as many bytes as the parameter has.\<close>

definition is_key_word :: "bytes \<Rightarrow> bool" where
  "is_key_word s \<longleftrightarrow> length s \<le> 4 \<and> s = take (length s) (''KEY'' @ [NUL])"

text \<open>\<^verbatim>\<open>RESULT_ERROR\<close>: the text of the error and the explanation of the command.\<close>

definition result_error :: "string \<Rightarrow> string \<Rightarrow> ostream" where
  "result_error explain s = Os_error (s @ '' explain=>'' @ explain)"

definition ttl_error :: "string \<Rightarrow> ostream" where
  "ttl_error s = result_error ''TTL *Command routing'' s"

definition ttl_execute :: "u64 \<Rightarrow> zlocal \<Rightarrow> zenv \<Rightarrow> istream \<Rightarrow> zserver \<Rightarrow> zserver \<times> ostream" where
  "ttl_execute ms lc e p sv =
     (let serial = param_u32 p 2; sno = itostr (int (unat serial))
      in case istream_get p 3 of
           None \<Rightarrow> (sv, ttl_error ''param error.'')
         | Some (ptr, len) \<Rightarrow>
             if \<not> is_key_word (take (nat len) (strupr_mem ptr)) then (sv, ttl_error (''param error. serial:'' @ sno))
             else let key = istream_to_string p 4
                  in if key = [] then (sv, ttl_error (''key empty. serial:'' @ sno))
                     else case keyword p 5 of
                         None \<Rightarrow> (sv, ttl_error (''param error. serial:'' @ sno))
                       | Some kw \<Rightarrow>
                          (case get_cmdId kw of
                             None \<Rightarrow> (sv, ttl_error (''param error. serial:'' @ sno))
                           | Some c \<Rightarrow> cmd_exec ms lc e c key p 5 sv (os_push_str (Os_array []) sno)))"

definition check_execute :: "zenv \<Rightarrow> zserver \<Rightarrow> zserver" where
  "check_execute e sv = recycle e sv"

section \<open>The refresh thread\<close>

definition server_timeout :: "zenv \<Rightarrow> zserver \<Rightarrow> zserver" where
  "server_timeout e sv =
     (let (tm, sv') = timeout_run (\<lambda>k sv. fst (del_exec e k sv (Os_array []))) e (w_tmo (sv_w sv)) sv
      in sv'\<lparr>sv_w := (sv_w sv')\<lparr>w_tmo := tm\<rparr>\<rparr>)"

definition refresh_step :: "zenv \<Rightarrow> u32 \<times> zserver \<Rightarrow> u32 \<times> zserver" where
  "refresh_step e st =
     (let (tick, sv) = st; sv1 = server_timeout e sv
      in if int (now e) - int (unat tick) > 300
         then (time32 e, sv1\<lparr>sv_list := list_admin_check e (sv_list sv1),
                 sv_mlist := mlist_admin_check e (sv_mlist sv1), sv_seq := seq_admin_check e (sv_seq sv1)\<rparr>)
         else (tick, sv1))"

end
