(* ===== verification/ServerInv.thy ===== *)
theory ServerInv
  imports Commands
begin

text \<open>
  The invariant of the server state and its preservation by every command, by the recycler and by
  the refresh thread: the database and the maps of cached objects stay sorted, and every cached
  object is kept under the key it writes its records to.
\<close>

definition world_inv :: "zworld \<Rightarrow> bool" where
  "world_inv w \<longleftrightarrow> db_inv (w_db w) \<and> timeout_inv (w_tmo w)"

definition sv_inv :: "zserver \<Rightarrow> bool" where
  "sv_inv sv \<longleftrightarrow> world_inv (sv_w sv) \<and> lists.cache_inv (sv_list sv) \<and> mlists.cache_inv (sv_mlist sv) \<and>
     seqs.cache_inv (sv_seq sv) \<and> clouds.cache_inv (sv_cloud sv)"

text \<open>
  The result of a method of an object \<open>x\<close> with key \<open>k\<close> keeps the key and the invariant of what all
  commands share.
\<close>

definition good :: "('o \<Rightarrow> string) \<Rightarrow> string \<Rightarrow> zworld \<Rightarrow> 'o \<times> zworld \<times> ostream \<Rightarrow> bool" where
  "good key k w r \<longleftrightarrow> key (fst r) = k \<and> (world_inv w \<longrightarrow> world_inv (fst (snd r)))"

lemma timeout_inv_push [simp]: "timeout_inv (timeout_push e t k d tm) = timeout_inv tm"
  by (simp add: timeout_push_def timeout_inv_def)

lemma good_same [simp]: "good key k w (x, w, io) \<longleftrightarrow> key x = k"
  by (simp add: good_def)

lemma good_answer [simp]: "good key k w (answer io' x w io) \<longleftrightarrow> key x = k"
  by (simp add: answer_def)

lemma good_write [simp]:
  "good key k w (x, w\<lparr>w_db := fst (db_write (w_db w) bh)\<rparr>, io) \<longleftrightarrow> key x = k"
  "good key k w (x, w\<lparr>w_db := fst (db_write (w_db w) bh), w_tmo := timeout_push e t j d (w_tmo w)\<rparr>, io) \<longleftrightarrow> key x = k"
  by (auto simp: good_def world_inv_def db_write_inv)

section \<open>LIST\<close>

lemma list_init_key: "l_key (fst (list_init e db l)) = l_key l"
  by (auto simp: list_init_def list_load_value_def Let_def split: sum.split option.split)

lemma good_with_init:
  assumes "\<And>l'. l_key l' = l_key l \<Longrightarrow> good l_key (l_key l) w (f l')"
  shows "good l_key (l_key l) w (with_init e l w io f)"
proof -
  obtain l' b where i: "list_init e (w_db w) l = (l', b)" by fastforce
  then have k: "l_key l' = l_key l" using list_init_key [of e "w_db w" l] by simp
  then show ?thesis using assms [of l'] by (cases b) (simp_all add: with_init_def i)
qed

lemma list_push_key [simp]: "l_key (fst (list_push l bh v)) = l_key l"
  by (simp add: list_push_def Let_def)

lemma update_loop_key [simp]: "l_key (fst (update_loop p index l bh)) = l_key l"
proof (induct p index l bh rule: update_loop.induct)
  case (1 p index l bh)
  show ?case
  proof (cases "istream_get p (index + 1)")
    case None
    then show ?thesis by (subst update_loop.simps) simp
  next
    case (Some a)
    obtain ptr len where a: "a = (ptr, len)" by (cases a)
    obtain l' bh' where q: "list_push l bh (take (nat len) ptr) = (l', bh')" by fastforce
    have "l_key l' = l_key l" using list_push_key [of l bh "take (nat len) ptr"] q by simp
    then show ?thesis
      using 1 [OF Some [unfolded a] refl _ q [symmetric] refl] Some a q
      by (subst update_loop.simps) simp
  qed
qed

lemma good_list:
  "good l_key (l_key l) w (clist_push e v l w io)" "good l_key (l_key l) w (clist_pop e l w io)"
  "good l_key (l_key l) w (clist_size e l w io)" "good l_key (l_key l) w (clist_limit e n l w io)"
  "good l_key (l_key l) w (clist_expire e n l w io)" "good l_key (l_key l) w (clist_remove e l w io)"
  "good l_key (l_key l) w (clist_time e l w io)" "good l_key (l_key l) w (clist_update e p index l w io)"
  "good l_key (l_key l) w (clist_seek e i n l w io)"
  unfolding clist_push_def clist_pop_def clist_size_def clist_limit_def clist_expire_def clist_remove_def
    clist_time_def clist_update_def clist_seek_def
  by (rule good_with_init, simp add: Let_def case_prod_unfold split: list.split option.split)+

section \<open>MLIST\<close>

lemma mlist_init_key: "ml_key (fst (mlist_init e db l)) = ml_key l"
  by (auto simp: mlist_init_def mlist_load_value_def Let_def split: sum.split option.split)

lemma good_with_minit:
  assumes "\<And>l'. ml_key l' = ml_key l \<Longrightarrow> good ml_key (ml_key l) w (f l')"
  shows "good ml_key (ml_key l) w (with_minit e l w io f)"
proof -
  obtain l' b where i: "mlist_init e (w_db w) l = (l', b)" by fastforce
  then have k: "ml_key l' = ml_key l" using mlist_init_key [of e "w_db w" l] by simp
  then show ?thesis using assms [of l'] by (cases b) (simp_all add: with_minit_def i)
qed

lemma good_mlist:
  "good ml_key (ml_key l) w (cmlist_push e k v l w io)" "good ml_key (ml_key l) w (cmlist_size e l w io)"
  "good ml_key (ml_key l) w (cmlist_seek e k n l w io)" "good ml_key (ml_key l) w (cmlist_expire e n l w io)"
  "good ml_key (ml_key l) w (cmlist_remove e l w io)" "good ml_key (ml_key l) w (cmlist_time e l w io)"
  unfolding cmlist_push_def cmlist_size_def cmlist_seek_def cmlist_expire_def cmlist_remove_def cmlist_time_def
  by (rule good_with_minit, simp add: Let_def case_prod_unfold mlist_push_key_def)+

section \<open>SEQ\<close>

lemma seq_init_key: "s_key (fst (seq_init e db s)) = s_key s"
  by (auto simp: seq_init_def seq_load_value_def Let_def split: sum.split option.split)

lemma good_with_sinit:
  assumes "\<And>s'. s_key s' = s_key s \<Longrightarrow> good s_key (s_key s) w (f s')"
  shows "good s_key (s_key s) w (with_sinit e s w io f)"
proof -
  obtain s' b where i: "seq_init e (w_db w) s = (s', b)" by fastforce
  then have k: "s_key s' = s_key s" using seq_init_key [of e "w_db w" s] by simp
  then show ?thesis using assms [of s'] by (cases b) (simp_all add: with_sinit_def i)
qed

lemma seq_update_key [simp]: "s_key (fst (seq_update e s bh)) = s_key s"
  by (simp add: seq_update_def Let_def)

lemma seq_set_key [simp]: "s_key (fst (seq_set e s bh v)) = s_key s"
  by (simp add: seq_set_def Let_def)

lemma seq_clean_key [simp]: "s_key (fst (seq_clean n e db b s bh)) = s_key s"
  by (induct n e db b s bh rule: seq_clean.induct) (simp_all add: seq_del_def Let_def)

lemma good_seq_write:
  "good s_key (s_key s) w (cseq_push e v d s w io)" "good s_key (s_key s) w (cseq_remove e s w io)"
  "good s_key (s_key s) w (cseq_delay e d s w io)" "good s_key (s_key s) w (cseq_lookdelay e s w io)"
  unfolding cseq_push_def cseq_remove_def cseq_delay_def cseq_lookdelay_def
  by (rule good_with_sinit, simp add: Let_def case_prod_unfold del: seq_clean.simps)+

lemma good_tidy:
  "s_key (fst (seq_tidy e s w)) = s_key s" "world_inv w \<Longrightarrow> world_inv (snd (seq_tidy e s w))"
  using good_seq_write(2) [of s w e "Os_array []"]
  by (auto simp: seq_tidy_def good_def Let_def case_prod_unfold)

lemma good_tidied: "s_key s = k \<Longrightarrow> good s_key k w (fst (seq_tidy e s w), snd (seq_tidy e s w), io)"
  by (simp add: good_def good_tidy)

lemma good_seq_read:
  "good s_key (s_key s) w (cseq_index e s w io)" "good s_key (s_key s) w (cseq_size e s w io)"
  "good s_key (s_key s) w (cseq_seek ts e k i s w io)"
  unfolding cseq_index_def cseq_size_def cseq_seek_def
  by (rule good_with_sinit, simp add: Let_def case_prod_unfold good_tidied)+

lemma good_seq_query: "good s_key (s_key s) w (seq_query e dt s w io)"
proof -
  obtain s' b where i: "seq_init e (w_db w) s = (s', b)" by fastforce
  then have k: "s_key s' = s_key s" using seq_init_key [of e "w_db w" s] by simp
  show ?thesis
    using good_tidied [OF k]
    by (cases b) (auto simp: seq_query_def cseq_query_def i k Let_def case_prod_unfold
        split: option.split query_result.split simp del: query_loop.simps)
qed

section \<open>The server\<close>

lemma sv_inv_with_list:
  assumes "sv_inv sv" and "\<And>l w io. good l_key (l_key l) w (f l w io)"
  shows "sv_inv (fst (with_list e key f sv io))"
proof -
  obtain l m where lm: "list_admin_find_is_create e (sv_list sv) key = (l, m)" by fastforce
  have m: "l_key l = key" "lists.cache_inv m"
    using lists.find_named [of "sv_list sv" e key] lists.find_inv [of "sv_list sv" e key] assms(1) lm
    by (auto simp: sv_inv_def)
  then show ?thesis
    using assms(1) assms(2) [of l "sv_w sv" io] lists.cache_inv_put [of m _ key]
    by (auto simp: with_list_def lm sv_inv_def good_def Let_def case_prod_unfold)
qed

lemma sv_inv_with_mlist:
  assumes "sv_inv sv" and "\<And>l w io. good ml_key (ml_key l) w (f l w io)"
  shows "sv_inv (fst (with_mlist e key f sv io))"
proof -
  obtain l m where lm: "mlist_admin_find_is_create e (sv_mlist sv) key = (l, m)" by fastforce
  have m: "ml_key l = key" "mlists.cache_inv m"
    using mlists.find_named [of "sv_mlist sv" e key] mlists.find_inv [of "sv_mlist sv" e key] assms(1) lm
    by (auto simp: sv_inv_def)
  then show ?thesis
    using assms(1) assms(2) [of l "sv_w sv" io] mlists.cache_inv_put [of m _ key]
    by (auto simp: with_mlist_def lm sv_inv_def good_def Let_def case_prod_unfold)
qed

lemma sv_inv_with_seq:
  assumes "sv_inv sv" and "\<And>s w io. good s_key (s_key s) w (f s w io)"
  shows "sv_inv (fst (with_seq e key f sv io))"
proof -
  obtain s m where sm: "seq_admin_find_is_create e (sv_seq sv) key = (s, m)" by fastforce
  have m: "s_key s = key" "seqs.cache_inv m"
    using seqs.find_named [of "sv_seq sv" e key] seqs.find_inv [of "sv_seq sv" e key] assms(1) sm
    by (auto simp: sv_inv_def)
  then show ?thesis
    using assms(1) assms(2) [of s "sv_w sv" io] seqs.cache_inv_put [of m _ key]
    by (auto simp: with_seq_def sm sv_inv_def good_def Let_def case_prod_unfold)
qed

lemmas good_ops = good_list good_mlist good_seq_write good_seq_read good_seq_query

lemma base_put_inv: "db_inv db \<Longrightarrow> db_inv (fst (base_put e db head key value t))"
  by (simp add: base_put_def db_put_def Let_def case_prod_unfold db_write_inv)

lemma sv_inv_db: "sv_inv sv \<Longrightarrow> db_inv db \<Longrightarrow> sv_inv (sv\<lparr>sv_w := (sv_w sv)\<lparr>w_db := db\<rparr>\<rparr>)"
  by (simp add: sv_inv_def world_inv_def)

lemma sv_inv_get: "sv_inv sv \<Longrightarrow> db_inv (w_db (sv_w sv))"
  by (simp add: sv_inv_def world_inv_def)

lemma sv_inv_cloud_put: "sv_inv sv \<Longrightarrow> sv_inv (fst (cloud_put e key value sv))"
  by (simp add: cloud_put_def Let_def case_prod_unfold sv_inv_db sv_inv_get base_put_inv)

lemmas sv_inv_seq_ops = sv_inv_with_seq [OF _ good_seq_write(1)] sv_inv_with_seq [OF _ good_seq_read(1)]
  sv_inv_with_seq [OF _ good_seq_read(2)] sv_inv_with_seq [OF _ good_seq_read(3)] sv_inv_with_seq [OF _ good_seq_query]

lemma sv_inv_cloud:
  assumes "sv_inv sv"
  shows "sv_inv (fst (cloud_push e c p index sv io))" "sv_inv (fst (cloud_size e c p index sv io))"
    "sv_inv (fst (cloud_index e c p index sv io))" "sv_inv (fst (cloud_read e c p index sv io))"
    "sv_inv (fst (cloud_limit lc e c p index sv io))" "sv_inv (fst (cloud_query lc e c p index sv io))"
  using assms
  by (auto simp: cloud_push_def cloud_size_def cloud_index_def cloud_read_def cloud_limit_def cloud_query_def
      Let_def case_prod_unfold sv_inv_seq_ops sv_inv_cloud_put split: option.split)

lemma sv_inv_online_source:
  assumes "sv_inv (fst st)"
  shows "sv_inv (fst (online_source lc e c src st))"
  using assms
  by (auto simp: online_source_def Let_def case_prod_unfold sv_inv_seq_ops sv_inv_cloud_put)

lemma sv_inv_online: "sv_inv sv \<Longrightarrow> sv_inv (fst (cloud_online lc e c p index sv io))"
proof -
  have "sv_inv (fst (fold (online_source lc e c) vs st))" if "sv_inv (fst st)" for vs st
    using that by (induct vs arbitrary: st) (simp_all add: sv_inv_online_source)
  then show "sv_inv sv \<Longrightarrow> ?thesis" by (simp add: cloud_online_def)
qed

lemma sv_inv_cloud_exec:
  assumes "sv_inv sv"
  shows "sv_inv (fst (cloud_exec lc e key p index sv io))"
proof -
  have "sv_inv (sv\<lparr>sv_cloud := snd (cloud_admin_find_is_create e (sv_cloud sv) key)\<rparr>)"
    using assms clouds.find_inv [of "sv_cloud sv" e key] by (simp add: sv_inv_def)
  then show ?thesis
    using assms by (auto simp: cloud_exec_def Let_def case_prod_unfold sv_inv_cloud sv_inv_online split: option.split)
qed

text \<open>The choice of a method by the keyword.\<close>

lemma good_if:
  "good key k w (f x w io) \<Longrightarrow> good key k w (g x w io) \<Longrightarrow> good key k w ((if b then f else g) x w io)"
  by simp

lemma good_cmds:
  "good l_key (l_key l) w (list_cmd_push e p index l w io)" "good l_key (l_key l) w (list_cmd_seek e p index l w io)"
  "good ml_key (ml_key ml) w (mlist_cmd_push e p index ml w io)" "good ml_key (ml_key ml) w (mlist_cmd_seek e p index ml w io)"
  "good s_key (s_key s) w (seq_cmd_push e p index s w io)" "good s_key (s_key s) w (seq_cmd_query lc e p index s w io)"
  by (simp_all add: list_cmd_push_def list_cmd_seek_def mlist_cmd_push_def mlist_cmd_seek_def seq_cmd_push_def
      seq_cmd_query_def Let_def good_ops split: option.split)

lemma sv_inv_list_exec:
  assumes "sv_inv sv"
  shows "sv_inv (fst (list_exec e key p index sv io))"
proof (cases "keyword p (index + 1)")
  case (Some kw)
  show ?thesis unfolding list_exec_def Some option.case
    by (rule sv_inv_with_list [OF assms]) (intro good_if good_ops good_cmds, simp)
qed (simp add: list_exec_def assms)

lemma sv_inv_mlist_exec:
  assumes "sv_inv sv"
  shows "sv_inv (fst (mlist_exec e key p index sv io))"
proof (cases "keyword p (index + 1)")
  case (Some kw)
  show ?thesis unfolding mlist_exec_def Some option.case
    by (rule sv_inv_with_mlist [OF assms]) (intro good_if good_ops good_cmds, simp)
qed (simp add: mlist_exec_def assms)

lemma sv_inv_seq_exec:
  assumes "sv_inv sv"
  shows "sv_inv (fst (seq_exec lc e key p index sv io))"
proof (cases "keyword p (index + 1)")
  case (Some kw)
  show ?thesis unfolding seq_exec_def Some option.case
    by (rule sv_inv_with_seq [OF assms]) (intro good_if good_ops good_cmds, simp)
qed (simp add: seq_exec_def assms)

lemma sv_inv_set_exec: "sv_inv sv \<Longrightarrow> sv_inv (fst (set_exec e key p index sv io))"
  by (auto simp: set_exec_def Let_def case_prod_unfold sv_inv_def world_inv_def base_put_inv
      split: option.split sum.split)

lemma sv_inv_del_remove: "sv_inv sv \<Longrightarrow> sv_inv (fst (del_remove key sv io))"
  by (simp add: del_remove_def Let_def case_prod_unfold sv_inv_db sv_inv_get db_write_inv)

lemma sv_inv_cmd_remove: "sv_inv sv \<Longrightarrow> sv_inv (fst (cmd_remove e az key sv io))"
  by (cases az) (simp_all add: sv_inv_del_remove list_remove_def mlist_remove_def sv_inv_with_list sv_inv_with_mlist good_ops)

lemma sv_inv_del_exec: "sv_inv sv \<Longrightarrow> sv_inv (fst (del_exec e key sv io))"
  by (simp add: del_exec_def sv_inv_cmd_remove split: option.split)

lemma sv_inv_recycle: "sv_inv sv \<Longrightarrow> sv_inv (recycle e sv)"
proof -
  have "sv_inv (fold (\<lambda>(key, value) sv. fst (recycle_read e key value sv)) kvs sv)" if "sv_inv sv" for kvs sv
    using that by (induct kvs arbitrary: sv) (auto simp: recycle_read_def sv_inv_del_exec)
  then show "sv_inv sv \<Longrightarrow> ?thesis" by (simp add: recycle_def)
qed

lemma sv_inv_cmd_exec: "sv_inv sv \<Longrightarrow> sv_inv (fst (cmd_exec ms lc e c key p index sv io))"
  by (cases c) (simp_all add: get_exec_def exists_exec_def recycle_exec_def sv_inv_set_exec sv_inv_del_exec
      sv_inv_recycle sv_inv_list_exec sv_inv_mlist_exec sv_inv_seq_exec sv_inv_cloud_exec)

lemma sv_inv_ttl: "sv_inv sv \<Longrightarrow> sv_inv (fst (ttl_execute ms lc e p sv))"
  by (auto simp: ttl_execute_def Let_def sv_inv_cmd_exec split: option.split)

lemma timeout_run_inv:
  assumes "timeout_inv tm"
  shows "timeout_inv (fst (timeout_run del e tm w))"
  using exec_temp_spec(1) [OF assms, of e] check_long_spec(1) [OF exec_temp_spec(1) [OF assms], of e e]
  by (auto simp: timeout_run_def Let_def case_prod_unfold timeout_loop_spec(1) timeout_inv_def keyed_filter)

lemma sv_inv_timeout: "sv_inv sv \<Longrightarrow> sv_inv (server_timeout e sv)"
proof -
  assume sv: "sv_inv sv"
  let ?del = "\<lambda>k sv. fst (del_exec e k sv (Os_array []))"
  have fold: "sv_inv (fold ?del ks sv)" if "sv_inv sv" for ks sv
    using that by (induct ks arbitrary: sv) (simp_all add: sv_inv_del_exec)
  have "sv_inv (snd (timeout_run ?del e (w_tmo (sv_w sv)) sv))"
    using fold [OF sv] by (simp add: timeout_run_def Let_def case_prod_unfold timeout_loop_spec(2))
  moreover have "timeout_inv (fst (timeout_run ?del e (w_tmo (sv_w sv)) sv))"
    using sv by (intro timeout_run_inv) (simp add: sv_inv_def world_inv_def)
  ultimately show ?thesis
    by (simp add: server_timeout_def Let_def case_prod_unfold sv_inv_def world_inv_def)
qed

lemma sv_inv_refresh: "sv_inv sv \<Longrightarrow> sv_inv (snd (refresh_step e (tick, sv)))"
  using sv_inv_timeout [of sv e]
  by (auto simp: refresh_step_def Let_def sv_inv_def lists.check_inv mlists.check_inv seqs.check_inv)

section \<open>Runs of the server\<close>

text \<open>
  The steps of a running server: a TTL request, a CHECK request, and a round of the refresh thread.
  The time, the time zone, the settings and the outcome of every write may be anything.
\<close>

inductive server_step :: "u32 \<times> zserver \<Rightarrow> u32 \<times> zserver \<Rightarrow> bool" where
  step_ttl: "server_step (tick, sv) (tick, fst (ttl_execute ms lc e p sv))"
| step_check: "server_step (tick, sv) (tick, check_execute e sv)"
| step_refresh: "server_step (tick, sv) (refresh_step e (tick, sv))"

inductive_cases server_stepE: "server_step st st'"

definition server_start :: "zenv \<Rightarrow> dbase \<Rightarrow> u32 \<times> zserver" where
  "server_start e db = (0, \<lparr>sv_w = \<lparr>w_db = db, w_tmo = timeout_new e\<rparr>, sv_list = [], sv_mlist = [], sv_seq = [], sv_cloud = []\<rparr>)"

inductive server_reach :: "u32 \<times> zserver \<Rightarrow> bool" where
  reach_start: "db_inv db \<Longrightarrow> server_reach (server_start e db)"
| reach_step: "server_reach st \<Longrightarrow> server_step st st' \<Longrightarrow> server_reach st'"

lemma sv_inv_start: "db_inv db \<Longrightarrow> sv_inv (snd (server_start e db))"
  by (simp add: server_start_def sv_inv_def world_inv_def lists.cache_inv_Nil mlists.cache_inv_Nil
      seqs.cache_inv_Nil clouds.cache_inv_Nil [simplified] timeout_inv_def keyed_def timeout_new_def)

lemma sv_inv_step: "server_step st st' \<Longrightarrow> sv_inv (snd st) \<Longrightarrow> sv_inv (snd st')"
  by (induct rule: server_step.induct) (simp_all add: sv_inv_ttl check_execute_def sv_inv_recycle sv_inv_refresh)

text \<open>
  C6. In every reachable state of the server the database and the maps of cached objects are well
  formed, and a cached object of each of the four kinds is found only under the key that it uses for
  its records.
\<close>

theorem server_reach_inv:
  assumes "server_reach st"
  shows "sv_inv (snd st) \<and>
    (\<forall>k l. om_find (sv_list (snd st)) k = Some l \<longrightarrow> l_key l = k) \<and>
    (\<forall>k l. om_find (sv_mlist (snd st)) k = Some l \<longrightarrow> ml_key l = k) \<and>
    (\<forall>k s. om_find (sv_seq (snd st)) k = Some s \<longrightarrow> s_key s = k) \<and>
    (\<forall>k c. om_find (sv_cloud (snd st)) k = Some c \<longrightarrow> cc_key c = ''CLOUD_'' @ k)"
proof -
  have inv: "sv_inv (snd st)"
    using assms
  proof induct
    case (reach_start db e)
    then show ?case by (rule sv_inv_start)
  next
    case (reach_step st st')
    then show ?case by (blast intro: sv_inv_step)
  qed
  then show ?thesis
    by (auto simp: sv_inv_def lists.cache_inv_def mlists.cache_inv_def seqs.cache_inv_def clouds.cache_inv_def [simplified]
        om_find_iff)
qed

theorem server_reach_inv_witness:
  "\<exists>e p ms lc. server_reach (server_start e \<lparr>db_map = [], db_ok = (\<lambda>_. True), db_tick = 0\<rparr>) \<and>
    sv_inv (fst (ttl_execute ms lc e p (snd (server_start e \<lparr>db_map = [], db_ok = (\<lambda>_. True), db_tick = 0\<rparr>))))"
proof -
  define e where "e = \<lparr>now = 1000, cfg = server_default, junk = 0\<rparr>"
  define lc where "lc = \<lparr>lc_stamp = (\<lambda>_. ''t''), lc_unix = (\<lambda>_. 0)\<rparr>"
  let ?st = "server_start e \<lparr>db_map = [], db_ok = (\<lambda>_. True), db_tick = 0\<rparr>"
  have r: "server_reach ?st" by (rule reach_start) (simp add: db_inv_def)
  have "server_step ?st (fst ?st, fst (ttl_execute 0 lc e istream_new (snd ?st)))"
    using step_ttl [of "fst ?st" "snd ?st"] by simp
  from server_reach_inv [OF reach_step [OF r this]] r show ?thesis by auto
qed

end
