(* ===== verification/Recycle.thy ===== *)
theory Recycle
  imports ServerInv
begin

text \<open>
  What the recycler (\<^verbatim>\<open>c_recycle.h\<close>) does to the database: the records it removes, those it keeps,
  and what happens to values that were set without an expiry time.
\<close>

section \<open>Deletions\<close>

text \<open>A deletion of \<open>key\<close> removes nothing but the record and records of its elements.\<close>

definition shrinks :: "string \<Rightarrow> dbase \<Rightarrow> dbase \<Rightarrow> bool" where
  "shrinks key db db' \<longleftrightarrow> db_reliable db' \<and>
     (\<forall>k. db_get db' k = db_get db k \<or> db_get db' k = None \<and> (k = key \<or> (\<exists>r. k = key @ ''@'' @ r)))"

lemma shrinks_refl: "db_reliable db \<Longrightarrow> shrinks key db db"
  by (simp add: shrinks_def)

lemma shrinks_other: "shrinks key db db' \<Longrightarrow> CHR ''@'' \<notin> set k \<Longrightarrow> k \<noteq> key \<Longrightarrow> db_get db' k = db_get db k"
  by (fastforce simp: shrinks_def)

lemma last_write_removed:
  "last_write (map Batch_Delete ks) k = (if k \<in> set ks then Some None else None)"
  by (induct ks) auto

lemma shrinks_deletes:
  assumes "db_reliable db" and "\<forall>k\<in>set ks. k = key \<or> (\<exists>r. k = key @ ''@'' @ r)"
  shows "shrinks key db (fst (db_write db (map Batch_Delete ks)))"
  using assms by (auto simp: shrinks_def db_write_reliable last_write_removed)

lemma list_deletes:
  "fold (\<lambda>i bh. list_del_key l bh i) ids bh = bh @ map Batch_Delete (map (item_key (l_key l)) ids)"
  by (induct ids arbitrary: bh) (simp_all add: list_del_key_def)

lemma mlist_deletes:
  "fold (\<lambda>i bh. mlist_del_key l bh i) ids bh = bh @ map Batch_Delete (map (mitem_key (ml_key l)) ids)"
  by (induct ids arbitrary: bh) (simp_all add: mlist_del_key_def)

lemma clist_remove_shrinks:
  assumes "db_reliable (w_db w)"
  shows "shrinks (l_key l) (w_db w) (w_db (fst (snd (clist_remove e l w io))))"
proof -
  obtain l' b where i: "list_init e (w_db w) l = (l', b)" by fastforce
  have k: "l_key l' = l_key l" using list_init_key [of e "w_db w" l] i by simp
  have "shrinks (l_key l) (w_db w) (fst (db_write (w_db w)
      (map Batch_Delete (map (item_key (l_key l)) (l_list l') @ [l_key l]))))"
    by (rule shrinks_deletes [OF assms]) (auto simp: item_key_def)
  then show ?thesis using assms
    by (cases b) (auto simp: clist_remove_def with_init_def i list_deletes list_delete_def k Let_def
        case_prod_unfold shrinks_refl)
qed

lemma cmlist_remove_shrinks:
  assumes "db_reliable (w_db w)"
  shows "shrinks (ml_key l) (w_db w) (w_db (fst (snd (cmlist_remove e l w io))))"
proof -
  obtain l' b where i: "mlist_init e (w_db w) l = (l', b)" by fastforce
  have k: "ml_key l' = ml_key l" using mlist_init_key [of e "w_db w" l] i by simp
  have "shrinks (ml_key l) (w_db w) (fst (db_write (w_db w)
      (map Batch_Delete (map (mitem_key (ml_key l)) (ml_list l') @ [ml_key l]))))"
    by (rule shrinks_deletes [OF assms]) (auto simp: mitem_key_def)
  then show ?thesis using assms
    by (cases b) (auto simp: cmlist_remove_def with_minit_def i mlist_deletes mlist_delete_def k Let_def
        case_prod_unfold shrinks_refl)
qed

text \<open>The record itself is removed when it loads.\<close>

lemma clist_remove_removes:
  assumes "db_reliable (w_db w)" and "snd (list_init e (w_db w) l)"
  shows "db_get (w_db (fst (snd (clist_remove e l w io)))) (l_key l) = None"
  using assms list_init_key [of e "w_db w" l]
  by (cases "list_init e (w_db w) l") (simp add: clist_remove_def with_init_def list_delete_def Let_def
      case_prod_unfold db_write_reliable last_write_append)

lemma cmlist_remove_removes:
  assumes "db_reliable (w_db w)" and "snd (mlist_init e (w_db w) l)"
  shows "db_get (w_db (fst (snd (cmlist_remove e l w io)))) (ml_key l) = None"
  using assms mlist_init_key [of e "w_db w" l]
  by (cases "mlist_init e (w_db w) l") (simp add: cmlist_remove_def with_minit_def mlist_delete_def Let_def
      case_prod_unfold db_write_reliable last_write_append)

abbreviation sv_db :: "zserver \<Rightarrow> dbase" where
  "sv_db sv \<equiv> w_db (sv_w sv)"

abbreviation deleted :: "zenv \<Rightarrow> string \<Rightarrow> zserver \<Rightarrow> zserver" where
  "deleted e key sv \<equiv> fst (del_exec e key sv (Os_array []))"

lemma list_remove_db:
  assumes "sv_inv sv" and "db_reliable (sv_db sv)"
  shows "shrinks key (sv_db sv) (sv_db (fst (list_remove e key sv io)))"
    and "get_value (sv_db sv) key = Inr (v, h) \<Longrightarrow> h_type h = T_LIST \<Longrightarrow> even (length v) \<Longrightarrow>
      db_get (sv_db (fst (list_remove e key sv io))) key = None"
proof -
  obtain l m where lm: "list_admin_find_is_create e (sv_list sv) key = (l, m)" by fastforce
  have k: "l_key l = key"
    using lists.find_named [of "sv_list sv" e key] assms(1) lm by (auto simp: sv_inv_def)
  show "shrinks key (sv_db sv) (sv_db (fst (list_remove e key sv io)))"
    using clist_remove_shrinks [OF assms(2), of l e io]
    by (simp add: list_remove_def with_list_def lm k Let_def case_prod_unfold)
  show "db_get (sv_db (fst (list_remove e key sv io))) key = None"
    if "get_value (sv_db sv) key = Inr (v, h)" "h_type h = T_LIST" "even (length v)"
  proof -
    have "snd (list_init e (sv_db sv) l)"
      using that k by (simp add: list_init_def list_load_value_def Let_def)
    from clist_remove_removes [OF assms(2) this, of io] show ?thesis
      by (simp add: list_remove_def with_list_def lm k Let_def case_prod_unfold)
  qed
qed

lemma mlist_remove_db:
  assumes "sv_inv sv" and "db_reliable (sv_db sv)"
  shows "shrinks key (sv_db sv) (sv_db (fst (mlist_remove e key sv io)))"
    and "get_value (sv_db sv) key = Inr (v, h) \<Longrightarrow> h_type h = T_MLIST \<Longrightarrow>
      db_get (sv_db (fst (mlist_remove e key sv io))) key = None"
proof -
  obtain l m where lm: "mlist_admin_find_is_create e (sv_mlist sv) key = (l, m)" by fastforce
  have k: "ml_key l = key"
    using mlists.find_named [of "sv_mlist sv" e key] assms(1) lm by (auto simp: sv_inv_def)
  show "shrinks key (sv_db sv) (sv_db (fst (mlist_remove e key sv io)))"
    using cmlist_remove_shrinks [OF assms(2), of l e io]
    by (simp add: mlist_remove_def with_mlist_def lm k Let_def case_prod_unfold)
  show "db_get (sv_db (fst (mlist_remove e key sv io))) key = None"
    if "get_value (sv_db sv) key = Inr (v, h)" "h_type h = T_MLIST"
  proof -
    have "snd (mlist_init e (sv_db sv) l)"
      using that k by (simp add: mlist_init_def mlist_load_value_def Let_def)
    from cmlist_remove_removes [OF assms(2) this, of io] show ?thesis
      by (simp add: mlist_remove_def with_mlist_def lm k Let_def case_prod_unfold)
  qed
qed

lemma del_remove_db:
  assumes "db_reliable (sv_db sv)"
  shows "shrinks key (sv_db sv) (sv_db (fst (del_remove key sv io)))"
    and "db_get (sv_db (fst (del_remove key sv io))) key = None"
  using shrinks_deletes [OF assms, of "[key]" key] assms
  by (simp_all add: del_remove_def Let_def case_prod_unfold db_write_reliable)

section \<open>DEL\<close>

lemma ztype_head: "HEAD_LEN < length v \<Longrightarrow> ztype v = h_type (mem_head v)"
  by (cases v; cases "tl v") (auto simp: ztype_def mem_head_def mem_u8_def of_nat_of_char)

text \<open>The types of records that DEL removes.\<close>

definition removable :: "bytes \<Rightarrow> bool" where
  "removable v \<longleftrightarrow> ztype v \<in> {T_GET_SET, T_LIST, T_MLIST}"

lemma del_exec_shrinks:
  assumes "sv_inv sv" and "db_reliable (sv_db sv)"
  shows "shrinks key (sv_db sv) (sv_db (deleted e key sv))"
  using assms
  by (auto simp: del_exec_def get_type_def get_cmdId_def shrinks_refl list_remove_db mlist_remove_db del_remove_db
      split: option.split)

lemma del_exec_removes:
  assumes "sv_inv sv" and "db_reliable (sv_db sv)" and "get_value (sv_db sv) key = Inr (v, h)"
    and "removable v" and "ztype v = T_LIST \<Longrightarrow> even (length v)"
  shows "db_get (sv_db (deleted e key sv)) key = None"
proof -
  have g: "base_get (sv_db sv) key = Some v" and h: "HEAD_LEN < length v" "h = mem_head v"
    using assms(3) by (auto simp: get_value_def Let_def split: option.splits if_splits)
  then have t: "h_type h = ztype v" by (simp add: ztype_head)
  from assms(4) consider "ztype v = T_GET_SET" | "ztype v = T_LIST" | "ztype v = T_MLIST"
    by (auto simp: removable_def)
  then show ?thesis
    using assms t g
    by cases (simp_all add: del_exec_def get_type_def get_cmdId_def list_remove_db(2) mlist_remove_db(2) del_remove_db)
qed

lemma del_exec_keeps: "db_get (sv_db sv) key = Some v \<Longrightarrow> \<not> removable v \<Longrightarrow> deleted e key sv = sv"
  by (auto simp: del_exec_def removable_def get_type_def get_cmdId_def base_get_def split: option.split)

section \<open>A round of the recycler\<close>

text \<open>What the records must be like: keys are C strings, and the body of a LIST has whole identifiers.\<close>

definition recyclable :: "string \<times> bytes \<Rightarrow> bool" where
  "recyclable kv \<longleftrightarrow> no_nul (fst kv) \<and> (ztype (snd kv) = T_LIST \<longrightarrow> even (length (snd kv)))"

definition recycled :: "zenv \<Rightarrow> bytes \<Rightarrow> bool" where
  "recycled e v \<longleftrightarrow> \<not> recycle_keeps e v \<and> removable v"

lemma get_value_recycled: "db_get db k = Some v \<Longrightarrow> \<not> recycle_keeps e v \<Longrightarrow> get_value db k = Inr (v, mem_head v)"
  by (auto simp: recycle_keeps_def get_value_def base_get_def Let_def)

lemma recycle_read_simps:
  "recycle_keeps e v \<Longrightarrow> recycle_read e k v sv = (sv, True)"
  "\<not> recycle_keeps e v \<Longrightarrow> no_nul k \<Longrightarrow> fst (recycle_read e k v sv) = deleted e k sv"
  by (simp_all add: recycle_read_def)

lemma recycle_read_spec:
  assumes "sv_inv sv" and "db_reliable (sv_db sv)" and "recyclable (k, v)"
    and "db_get (sv_db sv) k = None \<or> db_get (sv_db sv) k = Some v"
  shows "shrinks k (sv_db sv) (sv_db (fst (recycle_read e k v sv)))"
    and "recycled e v \<Longrightarrow> db_get (sv_db (fst (recycle_read e k v sv))) k = None"
    and "\<not> recycled e v \<Longrightarrow> db_get (sv_db (fst (recycle_read e k v sv))) k = db_get (sv_db sv) k"
proof -
  show "shrinks k (sv_db sv) (sv_db (fst (recycle_read e k v sv)))"
    using assms by (cases "recycle_keeps e v") (simp_all add: recycle_read_simps recyclable_def shrinks_refl del_exec_shrinks)
  have none: "deleted e k sv = sv" if "db_get (sv_db sv) k = None"
    using that by (simp add: del_exec_def base_get_def)
  show "db_get (sv_db (fst (recycle_read e k v sv))) k = None" if r: "recycled e v"
  proof (cases "db_get (sv_db sv) k")
    case (Some v')
    then have "v' = v" using assms(4) by simp
    then show ?thesis
      using r assms Some del_exec_removes [OF assms(1,2) get_value_recycled [OF Some], of e e]
      by (simp add: recycled_def recycle_read_simps recyclable_def)
  qed (use r assms none in \<open>simp add: recycled_def recycle_read_simps recyclable_def\<close>)
  show "db_get (sv_db (fst (recycle_read e k v sv))) k = db_get (sv_db sv) k" if "\<not> recycled e v"
    using that assms(3,4) none del_exec_keeps [of sv k v e]
    by (cases "recycle_keeps e v") (auto simp: recycled_def recycle_read_simps recyclable_def)
qed

abbreviation recycle_all :: "zenv \<Rightarrow> (string \<times> bytes) list \<Rightarrow> zserver \<Rightarrow> zserver" where
  "recycle_all e kvs sv \<equiv> fold (\<lambda>(key, value) sv. fst (recycle_read e key value sv)) kvs sv"

lemma recycle_read_sv_inv: "sv_inv sv \<Longrightarrow> sv_inv (fst (recycle_read e k v sv))"
  by (simp add: recycle_read_def sv_inv_del_exec)

lemma recycle_all_spec:
  assumes "sv_inv sv" and "db_reliable (sv_db sv)" and "om_inv kvs" and "\<forall>kv\<in>set kvs. recyclable kv"
    and "\<forall>(k, v)\<in>set kvs. db_get (sv_db sv) k = None \<or> db_get (sv_db sv) k = Some v"
  shows "db_reliable (sv_db (recycle_all e kvs sv)) \<and>
    (\<forall>k. db_get (sv_db (recycle_all e kvs sv)) k \<in> {None, db_get (sv_db sv) k}) \<and>
    (\<forall>(k, v)\<in>set kvs. recycled e v \<longrightarrow> db_get (sv_db (recycle_all e kvs sv)) k = None) \<and>
    (\<forall>k. CHR ''@'' \<notin> set k \<and> (\<forall>v. (k, v) \<in> set kvs \<longrightarrow> \<not> recycled e v) \<longrightarrow>
      db_get (sv_db (recycle_all e kvs sv)) k = db_get (sv_db sv) k)"
  using assms
proof (induct kvs arbitrary: sv)
  case (Cons kv kvs)
  obtain k0 v0 where kv: "kv = (k0, v0)" by (cases kv)
  let ?sv = "fst (recycle_read e k0 v0 sv)"
  note read = recycle_read_spec [OF Cons.prems(1,2), of k0 v0 e]
  have rd: "shrinks k0 (sv_db sv) (sv_db ?sv)" "recycled e v0 \<Longrightarrow> db_get (sv_db ?sv) k0 = None"
    "\<not> recycled e v0 \<Longrightarrow> db_get (sv_db ?sv) k0 = db_get (sv_db sv) k0"
    using read Cons.prems(4,5) by (simp_all add: kv)
  have sub: "db_get (sv_db ?sv) k \<in> {None, db_get (sv_db sv) k}" for k
    using rd(1) by (auto simp: shrinks_def)
  have new: "k0 \<notin> fst ` set kvs" using Cons.prems(3) by (auto simp: kv om_inv_Cons)
  have old: "\<forall>(k, v)\<in>set kvs. db_get (sv_db ?sv) k = None \<or> db_get (sv_db ?sv) k = Some v"
    using Cons.prems(5) sub by fastforce
  have "db_reliable (sv_db ?sv)" "om_inv kvs" "\<forall>kv\<in>set kvs. recyclable kv"
    using Cons.prems(3,4) rd(1) by (auto simp: kv om_inv_Cons shrinks_def)
  note ih = Cons.hyps [OF recycle_read_sv_inv [OF Cons.prems(1)] this old]
  note ih2 = ih [THEN conjunct2, THEN conjunct1, rule_format]
    and ih3 = ih [THEN conjunct2, THEN conjunct2, THEN conjunct1]
    and ih4 = ih [THEN conjunct2, THEN conjunct2, THEN conjunct2, rule_format]
  have keep: "db_get (sv_db ?sv) k = db_get (sv_db sv) k"
    if "CHR ''@'' \<notin> set k" "k = k0 \<longrightarrow> \<not> recycled e v0" for k
    using that rd(3) shrinks_other [OF rd(1), of k] by (cases "k = k0") auto
  have fin: "recycle_all e (kv # kvs) sv = recycle_all e kvs ?sv" by (simp add: kv)
  show ?case
    unfolding fin
  proof (intro conjI allI impI ballI)
    show "db_reliable (sv_db (recycle_all e kvs ?sv))" using ih by simp
    show "db_get (sv_db (recycle_all e kvs ?sv)) k \<in> {None, db_get (sv_db sv) k}" for k
      using ih2 [of k] sub [of k] by (elim insertE) simp_all
    show "case x of (k, v) \<Rightarrow> recycled e v \<longrightarrow> db_get (sv_db (recycle_all e kvs ?sv)) k = None"
      if "x \<in> set (kv # kvs)" for x
      using that ih3 ih2 [of k0] rd(2) by (auto simp: kv)
    show "db_get (sv_db (recycle_all e kvs ?sv)) k = db_get (sv_db sv) k"
      if "CHR ''@'' \<notin> set k \<and> (\<forall>v. (k, v) \<in> set (kv # kvs) \<longrightarrow> \<not> recycled e v)" for k
      using that ih4 [of k] keep [of k] by (simp add: kv)
  qed
qed simp

lemma recycle_db:
  assumes "sv_inv sv" and "db_reliable (sv_db sv)" and "\<forall>kv\<in>set (db_map (sv_db sv)). recyclable kv"
  shows "db_reliable (sv_db (recycle e sv))"
    and "db_get (sv_db (recycle e sv)) k \<in> {None, db_get (sv_db sv) k}"
    and "db_get (sv_db sv) k = Some v \<Longrightarrow> recycled e v \<Longrightarrow> db_get (sv_db (recycle e sv)) k = None"
    and "CHR ''@'' \<notin> set k \<Longrightarrow> \<forall>v. db_get (sv_db sv) k = Some v \<longrightarrow> \<not> recycled e v \<Longrightarrow>
      db_get (sv_db (recycle e sv)) k = db_get (sv_db sv) k"
proof -
  have inv: "om_inv (db_map (sv_db sv))" using assms(2) by (simp add: db_reliable_def db_inv_def)
  then have g: "db_get (sv_db sv) k = Some v \<longleftrightarrow> (k, v) \<in> set (db_map (sv_db sv))" for k v
    by (simp add: db_get_def om_find_iff)
  have "\<forall>(k, v)\<in>set (db_map (sv_db sv)). db_get (sv_db sv) k = None \<or> db_get (sv_db sv) k = Some v"
    by (auto simp: g)
  note s = recycle_all_spec [OF assms(1,2) inv assms(3) this, of e]
  show "db_reliable (sv_db (recycle e sv))" "db_get (sv_db (recycle e sv)) k \<in> {None, db_get (sv_db sv) k}"
    using s by (simp_all add: recycle_def)
  show "db_get (sv_db (recycle e sv)) k = None" if "db_get (sv_db sv) k = Some v" "recycled e v"
    using s that by (auto simp: recycle_def g)
  show "db_get (sv_db (recycle e sv)) k = db_get (sv_db sv) k"
    if "CHR ''@'' \<notin> set k" "\<forall>v. db_get (sv_db sv) k = Some v \<longrightarrow> \<not> recycled e v"
    using s that by (auto simp: recycle_def g)
qed


section \<open>Values without an expiry time\<close>

lemma set_exec_permanent:
  assumes "db_reliable (sv_db sv)" and "istream_get p (index + 1) = Some (ptr, len)"
    and "istream_get p (index + 2) = None" and "v = take (nat len) ptr"
    and "length v + HEAD_LEN \<le> MAX_VALUE_LEN"
  shows "snd (set_exec e key p index sv io) = io_OK io"
    and "sv_db (fst (set_exec e key p index sv io)) =
      fst (db_write (sv_db sv) [Batch_Put key (snd (get_Slice (base_head T_GET_SET) v (time32 e - 1)))])"
proof -
  have m: "PERMANENT_BASE = - 1" by (simp add: PERMANENT_BASE_def)
  have ok: "snd (db_write (sv_db sv) bh)" for bh using db_write_reliable(1) [OF assms(1)] .
  show "snd (set_exec e key p index sv io) = io_OK io"
    "sv_db (fst (set_exec e key p index sv io)) =
      fst (db_write (sv_db sv) [Batch_Put key (snd (get_Slice (base_head T_GET_SET) v (time32 e - 1)))])"
    using assms ok
    by (simp_all add: m set_exec_def set_timeout_def keyword_def base_put_def db_put_def Let_def case_prod_unfold)
qed

text \<open>The record of a value, and what the checks make of it.\<close>

lemma slice_head:
  assumes "v \<noteq> []"
  shows "HEAD_LEN < length (snd (get_Slice (base_head T_GET_SET) v t))"
    and "\<exists>h. mem_head (snd (get_Slice (base_head T_GET_SET) v t)) = h \<and> h_type h = T_GET_SET \<and>
      g_effective h = t \<and> g_crc h = crc16 0 v \<and> check_type h"
    and "drop HEAD_LEN (snd (get_Slice (base_head T_GET_SET) v t)) = v"
  using assms by (cases v, simp_all add: get_Slice_def Let_def check_type_def)

lemma get_value_slice:
  assumes "db_get db key = Some (snd (get_Slice (base_head T_GET_SET) v t))" and "v \<noteq> []"
  shows "\<exists>h. get_value db key = Inr (snd (get_Slice (base_head T_GET_SET) v t), h) \<and> h_type h = T_GET_SET \<and> g_effective h = t"
  using assms slice_head [OF assms(2), of t] by (auto simp: get_value_def base_get_def Let_def)

lemma get_exec_slice:
  assumes "db_get (sv_db sv) key = Some (snd (get_Slice (base_head T_GET_SET) v t))" and "v \<noteq> []"
  shows "get_exec key p index sv io = (sv, os_push_buf (io_OK io) v)"
  using get_value_slice [OF assms] slice_head(3) [OF assms(2)] by (auto simp: get_exec_def)

lemma recycled_slice: "v \<noteq> [] \<Longrightarrow> unat t \<le> now e \<Longrightarrow> recycled e (snd (get_Slice (base_head T_GET_SET) v t))"
  using slice_head [of v t] by (auto simp: recycled_def recycle_keeps_def removable_def ztype_head)

lemma db_reliable_records:
  assumes "db_reliable db" and "\<forall>kv\<in>set (db_map db). recyclable kv" and "recyclable (key, r)"
  shows "\<forall>kv\<in>set (db_map (fst (db_write db [Batch_Put key r]))). recyclable kv"
proof
  fix kv
  assume kv: "kv \<in> set (db_map (fst (db_write db [Batch_Put key r])))"
  have inv: "om_inv (db_map db)" "om_inv (db_map (fst (db_write db [Batch_Put key r])))"
    using assms(1) db_write_reliable(2) [OF assms(1)] by (simp_all add: db_reliable_def db_inv_def)
  have "db_get (fst (db_write db [Batch_Put key r])) (fst kv) = Some (snd kv)"
    using kv inv(2) by (simp add: db_get_def om_find_iff)
  then have "(if fst kv = key then Some r else db_get db (fst kv)) = Some (snd kv)"
    unfolding db_write_reliable(3) [OF assms(1)] by (simp split: if_splits)
  then have "kv = (key, r) \<or> kv \<in> set (db_map db)"
    using inv(1) by (auto simp: db_get_def om_find_iff prod_eq_iff split: if_splits)
  then show "recyclable kv" using assms(2,3) by auto
qed

lemma time32_prev: "0 < now e \<Longrightarrow> now e < 2 ^ 32 \<Longrightarrow> unat (time32 e - 1) = now e - 1"
  using unat_of_nat_u32 [of "now e - 1"] by (simp add: time32_def of_nat_diff)

text \<open>
  C32. A value that is SET without an expiry time is meant to be permanent, and GET returns it.  But
  its expiry time is the present time plus 4294967295, which wraps around to one second ago, so the
  first round of the recycler removes it.
\<close>

theorem recycle_drops_permanent_set:
  assumes "sv_inv sv" and "db_reliable (w_db (sv_w sv))"
    and "\<forall>(k, v)\<in>set (db_map (w_db (sv_w sv))). no_nul k \<and> (ztype v = T_LIST \<longrightarrow> even (length v))"
    and "istream_get p (index + 1) = Some (ptr, len)" and "istream_get p (index + 2) = None"
    and "v = take (nat len) ptr" and "v \<noteq> []" and "length v + HEAD_LEN \<le> MAX_VALUE_LEN"
    and "no_nul key" and "0 < now e" and "now e < 2 ^ 32" and "now e \<le> now e'"
    and "sv1 = fst (set_exec e key p index sv io)"
  shows "snd (set_exec e key p index sv io) = io_OK io \<and>
    get_exec key p' index' sv1 io' = (sv1, os_push_buf (io_OK io') v) \<and>
    get_exec key p' index' (recycle e' sv1) io' = (recycle e' sv1, io_OK io')"
proof -
  let ?r = "snd (get_Slice (base_head T_GET_SET) v (time32 e - 1))"
  note set = set_exec_permanent [where key = key and io = io and e = e, OF assms(2,4,5,6,8)]
  have db1: "sv_db sv1 = fst (db_write (sv_db sv) [Batch_Put key ?r])" using set(2) assms(13) by simp
  then have got: "db_get (sv_db sv1) key = Some ?r" and rel: "db_reliable (sv_db sv1)"
    by (simp_all add: db_write_reliable [OF assms(2)])
  have "\<forall>kv\<in>set (db_map (sv_db sv)). recyclable kv" using assms(3) by (auto simp: recyclable_def)
  moreover have "recyclable (key, ?r)"
    using assms(9) slice_head(1,2) [OF assms(7), of "time32 e - 1"] by (auto simp: recyclable_def ztype_head)
  ultimately have ok: "\<forall>kv\<in>set (db_map (sv_db sv1)). recyclable kv"
    unfolding db1 by (rule db_reliable_records [OF assms(2)])
  have inv: "sv_inv sv1" using sv_inv_set_exec [OF assms(1)] assms(13) by simp
  have "recycled e' ?r" using assms(7,10,11,12) by (intro recycled_slice) (simp_all add: time32_prev)
  then have "db_get (sv_db (recycle e' sv1)) key = None"
    by (rule recycle_db(3) [OF inv rel ok got])
  then show ?thesis
    using set(1) get_exec_slice [OF got assms(7)] by (simp add: get_exec_def)
qed


theorem recycle_drops_permanent_set_witness:
  "\<exists>sv e e' p. let sv1 = fst (set_exec e ''k'' p 0 sv (Os_array [])) in
     get_exec ''k'' p 0 sv1 (Os_array []) = (sv1, os_push_buf (io_OK (Os_array [])) ''v'') \<and>
     snd (get_exec ''k'' p 0 (recycle e' sv1) (Os_array [])) = io_OK (Os_array [])"
proof -
  define e where "e = \<lparr>now = 10, cfg = server_default, junk = 0\<rparr>"
  define p where "p = st_line [''v''] 1"
  define sv where "sv = snd (server_start e \<lparr>db_map = [], db_ok = (\<lambda>_. True), db_tick = 0\<rparr>)"
  have db: "sv_db sv = \<lparr>db_map = [], db_ok = (\<lambda>_. True), db_tick = 0\<rparr>" by (simp add: sv_def server_start_def)
  have inv: "sv_inv sv" by (simp add: sv_def sv_inv_start db_inv_def)
  have p: "istream_get p 1 = Some (''v'' @ [NUL, LF], 1)" "istream_get p 2 = None"
    by (simp_all add: p_def istream_get_def st_line_def unit_of_def pu_pos_def Let_def)
  have "0 < now e" "now e < 2 ^ 32" by (simp_all add: e_def)
  note r = recycle_drops_permanent_set [OF inv, where v = "''v''" and key = "''k''" and e = e and e' = e and p = p
      and index = 0 and io = "Os_array []" and p' = p and index' = 0 and io' = "Os_array []", OF _ _ _ _ _ _ _ _ this _ refl]
  have "get_exec ''k'' p 0 (fst (set_exec e ''k'' p 0 sv (Os_array []))) (Os_array []) =
      (fst (set_exec e ''k'' p 0 sv (Os_array [])), os_push_buf (io_OK (Os_array [])) ''v'') \<and>
     snd (get_exec ''k'' p 0 (recycle e (fst (set_exec e ''k'' p 0 sv (Os_array [])))) (Os_array [])) = io_OK (Os_array [])"
    using r p by (simp add: db db_reliable_def db_inv_def MAX_VALUE_LEN_def numeral_2_eq_2)
  then show ?thesis by (auto simp: Let_def)
qed

end
