(* ===== verification/Account.thy ===== *)
theory Account
  imports Commands
begin

text \<open>
  Accounts of the server (src/zredis/zredis/c_auth.cpp, src/include/zredis/c_auth.h) and the
  commands that edit them (ACCOUNT in src/zredis/zredis/c_object_public.cpp).  The configuration
  file is represented by what the code asks of it: whether it can be loaded, whether it has an
  \<^verbatim>\<open>auth\<close> element, and the \<^verbatim>\<open>user\<close> elements of that, each with the data of its first children
  \<^verbatim>\<open>account\<close>, \<^verbatim>\<open>pwd\<close> and \<^verbatim>\<open>power\<close> where it has them.
\<close>

section \<open>The configuration\<close>

record conf_user =
  cu_account :: "string option"
  cu_pwd :: "string option"
  cu_power :: "string option"

datatype conf = Conf_unreadable | Conf_no_auth | Conf_auth "conf_user list"

section \<open>The account table\<close>

record st_auth =
  a_account :: string
  a_pwd :: string
  a_power :: u8

definition auth_system :: st_auth where
  "auth_system = \<lparr>a_account = ''zsoft'', a_pwd = ''zxcvbnmlkjhgfdsa'', a_power = 255\<rparr>"

definition load_user :: "conf_user \<Rightarrow> st_auth" where
  "load_user u = \<lparr>a_account = (case cu_account u of None \<Rightarrow> '''' | Some s \<Rightarrow> s),
     a_pwd = (case cu_pwd u of None \<Rightarrow> '''' | Some s \<Rightarrow> s),
     a_power = (case cu_power u of None \<Rightarrow> 0 | Some s \<Rightarrow> word_of_int (atoi (cstr s)))\<rparr>"

definition auth_insert :: "st_auth \<Rightarrow> st_auth omap \<Rightarrow> st_auth omap" where
  "auth_insert a m = om_insert (a_account a) a m"

definition load_auth :: "conf \<Rightarrow> st_auth omap \<times> bool" where
  "load_auth cf =
     (let m = auth_insert auth_system []
      in case cf of
           Conf_unreadable \<Rightarrow> (m, False)
         | Conf_no_auth \<Rightarrow> (m, True)
         | Conf_auth us \<Rightarrow> (fold (\<lambda>u. auth_insert (load_user u)) us m, True))"

definition auth_ok :: "st_auth omap \<Rightarrow> string \<Rightarrow> string \<Rightarrow> bool" where
  "auth_ok m account pwd =
     (case om_find m account of None \<Rightarrow> False | Some a \<Rightarrow> if a_pwd a \<noteq> pwd then False else True)"

definition auth_power :: "st_auth omap \<Rightarrow> string \<Rightarrow> u8" where
  "auth_power m account = (case om_find m account of None \<Rightarrow> 0 | Some a \<Rightarrow> a_power a)"

fun auth_list :: "st_auth omap \<Rightarrow> ostream \<Rightarrow> ostream" where
  "auth_list [] os = os"
| "auth_list ((k, a) # m) os =
     (if k = ''zsoft'' then auth_list m os
      else auth_list m (os_push_cstr os (a_account a @ ''@'' @ a_pwd a @ ''*'' @ itostr (int (unat (a_power a))))))"

definition check_account :: "st_auth omap \<Rightarrow> string \<Rightarrow> bool" where
  "check_account m account \<longleftrightarrow> om_find m account \<noteq> None"

section \<open>Editing\<close>

text \<open>
  Each command gives its reply and the new configuration.  The table is not changed: it is loaded
  again by a timer.
\<close>

definition result_ok :: "string \<Rightarrow> ostream" where
  "result_ok s = os_push_cstr (Os_success []) s"

abbreviation add_explain :: string where
  "add_explain \<equiv> ''ACCOUNT [ADD] {account} {password} {power} *result ok add account set account and password and power''"

definition account_add :: "istream \<Rightarrow> conf \<Rightarrow> conf \<times> ostream" where
  "account_add p cf =
     (let account = istream_to_string p 3; password = istream_to_string p 4; power = istream_to_string p 5;
          ipower = word_of_int (atoi power) :: u8
      in if account = [] then (cf, result_error add_explain ''The 3 parameter error.'')
         else if password = [] then (cf, result_error add_explain ''The 4 parameter error.'')
         else if power = [] \<or> ipower \<le> 0 then (cf, result_error add_explain ''The 5 parameter error.'')
         else case cf of
             Conf_unreadable \<Rightarrow> (cf, result_error add_explain ''server open db error.'')
           | Conf_no_auth \<Rightarrow> (cf, result_ok ''OK'')
           | Conf_auth us \<Rightarrow>
               (Conf_auth (us @ [\<lparr>cu_account = Some account, cu_pwd = Some password,
                  cu_power = Some (itostr (int (unat ipower)))\<rparr>]), result_ok ''OK''))"

text \<open>The search for the first user with the account and the element to change.\<close>

fun edit_user :: "string \<Rightarrow> (conf_user \<Rightarrow> bool) \<Rightarrow> (conf_user \<Rightarrow> conf_user list) \<Rightarrow> conf_user list \<Rightarrow> conf_user list" where
  "edit_user account has edit [] = []"
| "edit_user account has edit (u # us) =
     (if cu_account u = Some account \<and> has u then edit u @ us else u # edit_user account has edit us)"

definition edit_conf :: "(conf_user list \<Rightarrow> conf_user list) \<Rightarrow> string \<Rightarrow> conf \<Rightarrow> conf \<times> ostream" where
  "edit_conf f explain cf =
     (case cf of
        Conf_unreadable \<Rightarrow> (cf, result_error explain ''server open db error.'')
      | Conf_no_auth \<Rightarrow> (cf, result_ok ''OK'')
      | Conf_auth us \<Rightarrow> (Conf_auth (f us), result_ok ''OK''))"

abbreviation mpwd_explain :: string where
  "mpwd_explain \<equiv> ''ACCOUNT [MPWD] {account} {password} *result ok modify account password''"

definition account_mpwd :: "st_auth omap \<Rightarrow> istream \<Rightarrow> conf \<Rightarrow> conf \<times> ostream" where
  "account_mpwd m p cf =
     (let account = istream_to_string p 3; password = istream_to_string p 4
      in if account = [] then (cf, result_error mpwd_explain ''The 3 parameter error.'')
         else if password = [] then (cf, result_error mpwd_explain ''The 4 parameter error.'')
         else if \<not> check_account m account then (cf, result_error mpwd_explain ''account is not exists.'')
         else edit_conf (edit_user account (\<lambda>u. cu_pwd u \<noteq> None) (\<lambda>u. [u\<lparr>cu_pwd := Some password\<rparr>])) mpwd_explain cf)"

abbreviation mpower_explain :: string where
  "mpower_explain \<equiv> ''ACCOUNT [MPOWER] {account} {power} *result ok modify account power''"

definition account_mpower :: "st_auth omap \<Rightarrow> istream \<Rightarrow> conf \<Rightarrow> conf \<times> ostream" where
  "account_mpower m p cf =
     (let account = istream_to_string p 3; power = istream_to_string p 4;
          ipower = word_of_int (atoi power) :: u8
      in if account = [] then (cf, result_error mpower_explain ''The 3 parameter error.'')
         else if power = [] then (cf, result_error mpower_explain ''The 4 parameter error.'')
         else if \<not> check_account m account then (cf, result_error mpower_explain ''account is not exists.'')
         else edit_conf (edit_user account (\<lambda>u. cu_power u \<noteq> None)
                (\<lambda>u. [u\<lparr>cu_power := Some (itostr (int (unat ipower)))\<rparr>])) mpower_explain cf)"

abbreviation del_explain :: string where
  "del_explain \<equiv> ''ACCOUNT [DEL] {account} *result ok del account''"

definition account_del :: "st_auth omap \<Rightarrow> istream \<Rightarrow> conf \<Rightarrow> conf \<times> ostream" where
  "account_del m p cf =
     (let account = istream_to_string p 3
      in if account = [] then (cf, result_error del_explain ''The 3 parameter error.'')
         else if \<not> check_account m account then (cf, result_error del_explain ''account is not exists.'')
         else edit_conf (edit_user account (\<lambda>_. True) (\<lambda>_. [])) del_explain cf)"

section \<open>Laws\<close>

lemma om_inv_auth_insert [simp]: "om_inv m \<Longrightarrow> om_inv (auth_insert a m)"
  by (simp add: auth_insert_def)

lemma om_find_auth_fold:
  "om_find (fold (\<lambda>u. auth_insert (load_user u)) us m) k =
     (case om_find m k of
        Some a \<Rightarrow> Some a
      | None \<Rightarrow> map_option load_user (find (\<lambda>u. a_account (load_user u) = k) us))"
  by (induct us arbitrary: m) (auto simp: auth_insert_def split: option.splits)

lemma om_find_load_auth:
  "om_find (fst (load_auth cf)) k =
     (if k = ''zsoft'' then Some auth_system
      else case cf of Conf_auth us \<Rightarrow> map_option load_user (find (\<lambda>u. a_account (load_user u) = k) us) | _ \<Rightarrow> None)"
  by (auto simp: load_auth_def Let_def om_find_auth_fold split: conf.split)
    (auto simp: auth_insert_def auth_system_def split: option.splits)

end
