(* ===== verification/Broadcast.thy ===== *)
theory Broadcast
  imports OrdMap
begin

text \<open>
  Groups of connections (src/zredis/zredis/c_broadcast.cpp): a group is a map from connections to
  types, and the groups have tags.  A connection is its address.  Connections keep pointers to
  groups, so that the groups are objects of their own, numbered in the order of their creation.
\<close>

type_synonym con = nat

type_synonym bcast = "(con, u8) kvmap"

section \<open>Groups\<close>

definition bc_join :: "con \<Rightarrow> u8 \<Rightarrow> bcast \<Rightarrow> bcast" where
  "bc_join con type m = (case om_find m con of None \<Rightarrow> om_insert con type m | Some _ \<Rightarrow> om_put con type m)"

definition bc_leave :: "con \<Rightarrow> bcast \<Rightarrow> bcast" where
  "bc_leave con m = om_erase con m"

text \<open>The members that \<^verbatim>\<open>broadcast\<close> sends to, in this order.\<close>

fun bc_targets :: "u8 \<Rightarrow> bcast \<Rightarrow> con list" where
  "bc_targets type [] = []"
| "bc_targets type ((con, t) # m) = (if t = 0 \<or> type = t then con # bc_targets type m else bc_targets type m)"

text \<open>\<^verbatim>\<open>random\<close>; the argument is what \<^verbatim>\<open>rand()\<close> returns.\<close>

definition bc_random :: "nat \<Rightarrow> bcast \<Rightarrow> con option" where
  "bc_random r m = (if m = [] then None else Some (fst (m ! (r mod length m))))"

definition bc_is_broadcast :: "bcast \<Rightarrow> bool" where
  "bc_is_broadcast m \<longleftrightarrow> m \<noteq> []"

section \<open>The groups of the server\<close>

record bcasts =
  b_tags :: "nat omap"
  b_objs :: "bcast list"

definition bcasts_new :: bcasts where
  "bcasts_new = \<lparr>b_tags = [], b_objs = []\<rparr>"

definition bcast_get :: "string \<Rightarrow> bcasts \<Rightarrow> nat \<times> bcasts" where
  "bcast_get tag b =
     (case om_find (b_tags b) tag of
        Some i \<Rightarrow> (i, b)
      | None \<Rightarrow> (length (b_objs b),
          b\<lparr>b_tags := om_insert tag (length (b_objs b)) (b_tags b), b_objs := b_objs b @ [[]]\<rparr>))"

definition bcast_upd :: "nat \<Rightarrow> (bcast \<Rightarrow> bcast) \<Rightarrow> bcasts \<Rightarrow> bcasts" where
  "bcast_upd i f b = b\<lparr>b_objs := (b_objs b)[i := f (b_objs b ! i)]\<rparr>"

definition bcast_join :: "string \<Rightarrow> con \<Rightarrow> u8 \<Rightarrow> bcasts \<Rightarrow> nat \<times> bcasts" where
  "bcast_join tag con type b = (let (i, b1) = bcast_get tag b in (i, bcast_upd i (bc_join con type) b1))"

definition bcast_leave :: "string \<Rightarrow> con \<Rightarrow> bcasts \<Rightarrow> bcasts" where
  "bcast_leave tag con b =
     (case om_find (b_tags b) tag of None \<Rightarrow> b | Some i \<Rightarrow> bcast_upd i (bc_leave con) b)"

text \<open>The second \<^verbatim>\<open>Leave\<close> drops a tag whose group is empty; the object stays with those who point to it.\<close>

definition bcast_drop :: "string \<Rightarrow> bcasts \<Rightarrow> bcasts" where
  "bcast_drop tag b =
     (case om_find (b_tags b) tag of
        None \<Rightarrow> b
      | Some i \<Rightarrow> if bc_is_broadcast (b_objs b ! i) then b else b\<lparr>b_tags := om_erase tag (b_tags b)\<rparr>)"

section \<open>Laws\<close>

definition bcasts_inv :: "bcasts \<Rightarrow> bool" where
  "bcasts_inv b \<longleftrightarrow> om_inv (b_tags b) \<and> list_all om_inv (b_objs b) \<and>
     (\<forall>tag i. om_find (b_tags b) tag = Some i \<longrightarrow> i < length (b_objs b))"

abbreviation member :: "bcasts \<Rightarrow> nat \<Rightarrow> con \<Rightarrow> bool" where
  "member b i con \<equiv> i < length (b_objs b) \<and> om_find (b_objs b ! i) con \<noteq> None"

lemma bc_join_put: "bc_join con type m = om_put con type m"
  by (simp add: bc_join_def om_insert_def split: option.split)

lemma set_bc_targets: "om_inv m \<Longrightarrow> con \<in> set (bc_targets type m) \<longleftrightarrow> (\<exists>t. om_find m con = Some t \<and> (t = 0 \<or> type = t))"
  by (induct type m rule: bc_targets.induct) (auto simp: om_inv_Cons om_find_below)

lemma bc_random_member: "m \<noteq> [] \<Longrightarrow> \<exists>con. bc_random r m = Some con \<and> om_find m con \<noteq> None"
  by (auto simp: bc_random_def om_find_None intro!: image_eqI)

lemma bcasts_inv_new [simp]: "bcasts_inv bcasts_new"
  by (simp add: bcasts_inv_def bcasts_new_def)

lemma bcast_upd_inv:
  assumes "bcasts_inv b" and "\<And>m. om_inv m \<Longrightarrow> om_inv (f m)"
  shows "bcasts_inv (bcast_upd i f b)"
proof (cases "i < length (b_objs b)")
  case True
  then show ?thesis
    using assms by (auto simp: bcasts_inv_def bcast_upd_def list_all_iff set_update_subset_insert [THEN subsetD]
        dest!: set_update_subset_insert [THEN subsetD])
qed (use assms in \<open>simp add: bcast_upd_def bcasts_inv_def list_update_beyond\<close>)

lemma bcast_get_inv:
  assumes "bcasts_inv b"
  shows "bcasts_inv (snd (bcast_get tag b))" and "fst (bcast_get tag b) < length (b_objs (snd (bcast_get tag b)))"
    and "member (snd (bcast_get tag b)) j con = member b j con"
  using assms
  by (auto simp: bcasts_inv_def bcast_get_def nth_append less_Suc_eq split: option.splits if_splits)

lemma bcast_join_inv:
  assumes "bcasts_inv b"
  shows "bcasts_inv (snd (bcast_join tag con type b))"
    and "member (snd (bcast_join tag con type b)) j c \<longleftrightarrow> member b j c \<or> (j = fst (bcast_join tag con type b) \<and> c = con)"
proof -
  obtain i b1 where g: "bcast_get tag b = (i, b1)" by fastforce
  note get = bcast_get_inv [where tag = tag, OF assms]
  show "bcasts_inv (snd (bcast_join tag con type b))"
    using get(1) by (simp add: bcast_join_def g bcast_upd_inv bc_join_put)
  show "member (snd (bcast_join tag con type b)) j c \<longleftrightarrow> member b j c \<or> (j = fst (bcast_join tag con type b) \<and> c = con)"
    using get(2) get(3) [of j c] by (auto simp: bcast_join_def g bcast_upd_def bc_join_put nth_list_update)
qed

lemma bcast_upd_leave:
  assumes "bcasts_inv b"
  shows "bcasts_inv (bcast_upd i (bc_leave con) b)"
    and "member (bcast_upd i (bc_leave con) b) j c \<longleftrightarrow> member b j c \<and> \<not> (j = i \<and> c = con)"
proof -
  show "bcasts_inv (bcast_upd i (bc_leave con) b)" by (rule bcast_upd_inv [OF assms]) (simp add: bc_leave_def)
  have "om_inv (b_objs b ! j)" if "j < length (b_objs b)" for j
    using assms that by (auto simp: bcasts_inv_def list_all_length)
  then show "member (bcast_upd i (bc_leave con) b) j c \<longleftrightarrow> member b j c \<and> \<not> (j = i \<and> c = con)"
    by (cases "j = i") (auto simp: bcast_upd_def bc_leave_def split: if_splits)
qed

end
