(* ===== verification/Connect.thy ===== *)
theory Connect
  imports Account Broadcast
begin

text \<open>
  The connections of the server and the commands every server of the zredis library has
  (src/zredis/zredis/c_zredis_connect.cpp, c_command.cpp, c_object.cpp, c_object_public.cpp and the
  headers in src/include/zredis): sending with flow control, copies of the traffic to monitors,
  permissions, and the dispatch of a request to its command.  \<^verbatim>\<open>ITag\<close> and \<^verbatim>\<open>IBind\<close>, which this
  server does not use, and the socket options are left out.
\<close>

section \<open>State\<close>

text \<open>
  A connection.  \<open>c_sent\<close> lists the packets the network has accepted, \<open>c_tries\<close> counts the calls of
  \<^verbatim>\<open>_send\<close>, \<open>c_signal\<close> tells that \<^verbatim>\<open>_signal\<close> is pending and \<open>c_closed\<close> that \<^verbatim>\<open>_disconnect\<close> was called.
\<close>

record zconn =
  c_power :: u8
  c_ip :: string
  c_port :: u16
  c_ring :: ringq
  c_stream :: cstream
  c_bcast :: nat
  c_subscribe :: "nat list"
  c_tid :: nat
  c_waits :: "(u32, u32) kvmap"
  c_asyn_disconnect :: bool
  c_signal :: bool
  c_closed :: bool
  c_tries :: nat
  c_sent :: "bytes list"

text \<open>
  The server: the live connections by address, the two registers of connections, the groups, the
  accounts with the configuration they come from, and the storage.
\<close>

record znet =
  n_cons :: "(con, zconn) kvmap"
  n_iplist :: "(con, unit) kvmap"
  n_admin :: "(con, unit) kvmap"
  n_bcasts :: bcasts
  n_auth :: "st_auth omap"
  n_conf :: conf
  n_sv :: zserver

text \<open>
  What a command reads of its surroundings, besides what the storage does: the running thread, whether the
  \<open>i\<close>-th \<^verbatim>\<open>_send\<close> on a connection succeeds, \<^verbatim>\<open>gettimeofday\<close>, the configured version, the bytes of the
  configuration file with the memory behind the buffer they are read to, and the output of a shell
  command in pieces.
\<close>

record nenv =
  ne_z :: zenv
  ne_local :: zlocal
  ne_ms :: u64
  ne_tid :: nat
  ne_ok :: "con \<Rightarrow> nat \<Rightarrow> bool"
  ne_sec :: nat
  ne_usec :: nat
  ne_ver :: string
  ne_file :: "bytes option"
  ne_stack :: bytes
  ne_popen :: "string \<Rightarrow> bytes list option"

definition upd_con :: "con \<Rightarrow> (zconn \<Rightarrow> zconn) \<Rightarrow> znet \<Rightarrow> znet" where
  "upd_con con f n = (case om_find (n_cons n) con of
     None \<Rightarrow> n | Some c \<Rightarrow> n\<lparr>n_cons := om_put con (f c) (n_cons n)\<rparr>)"

section \<open>Sending\<close>

definition g_max_send_buffer :: nat where "g_max_send_buffer = 1024 * 1024 * 64"

text \<open>One window of the queue, as \<^verbatim>\<open>on_transmit\<close> takes it.\<close>

definition ring_window :: "ringq \<Rightarrow> (ringq \<times> bytes) option" where
  "ring_window q = (case rq_attach 4096 q (min (rq_count q) 1024) of (q', Some buf) \<Rightarrow> Some (q', buf) | _ \<Rightarrow> None)"

definition ansy_disconnect :: "zconn \<Rightarrow> zconn" where
  "ansy_disconnect c = c\<lparr>c_asyn_disconnect := True, c_signal := True\<rparr>"

text \<open>The loop ends with the fuel of the number of queued bytes (\<open>on_transmit_loop\<close>).\<close>

definition on_transmit :: "(nat \<Rightarrow> bool) \<Rightarrow> zconn \<Rightarrow> zconn" where
  "on_transmit ok c =
     (if rq_count (c_ring c) > g_max_send_buffer then ansy_disconnect c
      else case send_loop ring_window rq_advance rq_count ok (rq_count (c_ring c)) (c_tries c) (c_ring c) of
             None \<Rightarrow> c
           | Some (q, sent) \<Rightarrow> c\<lparr>c_ring := q, c_sent := c_sent c @ sent,
               c_tries := c_tries c + length sent + (if rq_count q = 0 then 0 else 1)\<rparr>)"

text \<open>\<^verbatim>\<open>send\<close> and \<^verbatim>\<open>asyn_send\<close>, which do the same.\<close>

definition con_send :: "nenv \<Rightarrow> con \<Rightarrow> bytes \<Rightarrow> znet \<Rightarrow> znet" where
  "con_send v con d n = upd_con con (\<lambda>c.
     let c1 = c\<lparr>c_ring := rq_append 4096 (c_ring c) d\<rparr>
     in if c_tid c = ne_tid v then on_transmit (ne_ok v con) c1 else c1\<lparr>c_signal := True\<rparr>) n"

definition con_asyn_send :: "nenv \<Rightarrow> con \<Rightarrow> bytes \<Rightarrow> znet \<Rightarrow> znet" where
  "con_asyn_send v con d n = upd_con con (\<lambda>c.
     let c1 = c\<lparr>c_ring := rq_append 4096 (c_ring c) d\<rparr>
     in if c_tid c = ne_tid v then on_transmit (ne_ok v con) c1 else c1\<lparr>c_signal := True\<rparr>) n"

definition on_signal :: "nenv \<Rightarrow> con \<Rightarrow> znet \<Rightarrow> znet" where
  "on_signal v con n = upd_con con (\<lambda>c.
     let c1 = c\<lparr>c_signal := False\<rparr>
     in if c_asyn_disconnect c then c1\<lparr>c_closed := True, c_asyn_disconnect := False\<rparr>
        else on_transmit (ne_ok v con) c1) n"

definition on_write :: "nenv \<Rightarrow> con \<Rightarrow> znet \<Rightarrow> znet" where
  "on_write v con n = upd_con con (on_transmit (ne_ok v con)) n"

section \<open>Monitors\<close>

text \<open>\<^verbatim>\<open>c_broadcast::broadcast\<close> and the method of the connection.\<close>

definition bcast_send :: "nenv \<Rightarrow> nat \<Rightarrow> bytes \<Rightarrow> u8 \<Rightarrow> znet \<Rightarrow> znet" where
  "bcast_send v i d type n = fold (\<lambda>con. con_asyn_send v con d) (bc_targets type (b_objs (n_bcasts n) ! i)) n"

definition con_bcast :: "nenv \<Rightarrow> con \<Rightarrow> bytes \<Rightarrow> u8 \<Rightarrow> znet \<Rightarrow> znet" where
  "con_bcast v con d type n =
     (case om_find (n_cons n) con of None \<Rightarrow> n | Some c \<Rightarrow> bcast_send v (c_bcast c) d type n)"

definition con_random :: "nenv \<Rightarrow> nat \<Rightarrow> con \<Rightarrow> bytes \<Rightarrow> znet \<Rightarrow> znet" where
  "con_random v r con d n =
     (case om_find (n_cons n) con of
        None \<Rightarrow> n
      | Some c \<Rightarrow> (case bc_random r (b_objs (n_bcasts n) ! c_bcast c) of
                     None \<Rightarrow> n | Some con' \<Rightarrow> con_asyn_send v con' d n))"

text \<open>What the request parser sees of the connection.\<close>

definition con_view :: "con \<Rightarrow> znet \<Rightarrow> conn_view option" where
  "con_view con n =
     (case om_find (n_cons n) con of
        None \<Rightarrow> None
      | Some c \<Rightarrow> Some \<lparr>cv_is_broadcast = bc_is_broadcast (b_objs (n_bcasts n) ! c_bcast c), cv_ip = c_ip c, cv_port = c_port c\<rparr>)"

definition bcast_all :: "nenv \<Rightarrow> con \<Rightarrow> bytes list \<Rightarrow> znet \<Rightarrow> znet" where
  "bcast_all v con ds n = fold (\<lambda>d. con_bcast v con d 0) ds n"

text \<open>\<^verbatim>\<open>RESULT_PARAM\<close>: an empty array is not sent.\<close>

definition result_param :: "nenv \<Rightarrow> ostream \<Rightarrow> con \<Rightarrow> znet \<Rightarrow> znet" where
  "result_param v os con n =
     (case os_serialize os rq_new of
        (ring, False) \<Rightarrow> n
      | (ring, True) \<Rightarrow>
          let blocks = (case result_send ring of None \<Rightarrow> [] | Some (_, sent) \<Rightarrow> sent);
              n1 = fold (\<lambda>d n. con_bcast v con d 0 (con_send v con d n)) blocks n
          in bcast_all v con (send_ipaddr (con_view con n1) ''RECV'') n1)"

definition ansy_packag :: "nenv \<Rightarrow> bytes \<Rightarrow> con \<Rightarrow> znet \<Rightarrow> znet" where
  "ansy_packag v d con n = result_param v (os_push_buf (Os_data []) d) con n"

definition con_subscribe :: "string \<Rightarrow> u8 \<Rightarrow> con \<Rightarrow> znet \<Rightarrow> znet" where
  "con_subscribe tag type con n =
     (let (i, b) = bcast_join tag con type (n_bcasts n)
      in upd_con con (\<lambda>c. c\<lparr>c_subscribe := c_subscribe c @ [i]\<rparr>) (n\<lparr>n_bcasts := b\<rparr>))"

definition con_unsubscribe :: "string \<Rightarrow> con \<Rightarrow> znet \<Rightarrow> znet" where
  "con_unsubscribe tag con n = n\<lparr>n_bcasts := bcast_leave tag con (n_bcasts n)\<rparr>"

section \<open>Commands\<close>

datatype zobject = O_exit | O_ping | O_auth | O_ver | O_monitor | O_ipconfig | O_time | O_list | O_iplist
  | O_system | O_command | O_account | O_ttl | O_check

datatype zchild = Ch_config | Ch_account_ls | Ch_account_add | Ch_account_mpwd

fun obj_name :: "zobject \<Rightarrow> string" where
  "obj_name O_exit = ''EXIT''"
| "obj_name O_ping = ''PING''"
| "obj_name O_auth = ''AUTH''"
| "obj_name O_ver = ''!''"
| "obj_name O_monitor = ''@''"
| "obj_name O_ipconfig = ''IPCONFIG''"
| "obj_name O_time = ''TIME''"
| "obj_name O_list = ''LS''"
| "obj_name O_iplist = ''IPLIST''"
| "obj_name O_system = ''SYSTEM''"
| "obj_name O_command = ''#''"
| "obj_name O_account = ''ACCOUNT''"
| "obj_name O_ttl = ''TTL''"
| "obj_name O_check = ''CHECK''"

fun obj_power :: "zobject \<Rightarrow> u8" where
  "obj_power O_monitor = 4"
| "obj_power O_system = 128"
| "obj_power O_account = 128"
| "obj_power O_command = 8"
| "obj_power _ = 1"

fun obj_explain :: "zobject \<Rightarrow> string" where
  "obj_explain O_exit = ''EXIT *result disconnect''"
| "obj_explain O_ping = ''PING [] *result '' @ [CHR 0x27] @ ''PONG'' @ [CHR 0x27]"
| "obj_explain O_auth = ''AUTH [account] [password] *result '' @ [CHR 0x27] @ ''OK'' @ [CHR 0x27]"
| "obj_explain O_ver = ''! [] *result service ver''"
| "obj_explain O_monitor = ''@ [ip|userId] *monitro ip or userId message''"
| "obj_explain O_ipconfig = ''IPCONFIG [] *result local ip''"
| "obj_explain O_time = ''TIME [] *result server time''"
| "obj_explain O_list = ''LS [] *result command explain''"
| "obj_explain O_iplist = ''IPLIST [] *result zredis client list''"
| "obj_explain O_system = ''LS SYSTEM''"
| "obj_explain O_command = ''# [cmd] *result cmd result''"
| "obj_explain O_account = ''LS ACCOUNT''"
| "obj_explain O_ttl = ''TTL *Command routing''"
| "obj_explain O_check = ''CHECK *Command routing''"

fun child_explain :: "zchild \<Rightarrow> string" where
  "child_explain Ch_config = ''SYSTEM CONFIG *result config''"
| "child_explain Ch_account_ls = ''ACCOUNT LS *result account list''"
| "child_explain Ch_account_add = add_explain"
| "child_explain Ch_account_mpwd = mpwd_explain"

text \<open>The children that are registered; \<^verbatim>\<open>ACCOUNT_MPOWER\<close> and \<^verbatim>\<open>ACCOUNT_DEL\<close> are not.\<close>

fun obj_children :: "zobject \<Rightarrow> zchild omap" where
  "obj_children O_system = [(''CONFIG'', Ch_config)]"
| "obj_children O_account = [(''ADD'', Ch_account_add), (''LS'', Ch_account_ls), (''MPWD'', Ch_account_mpwd)]"
| "obj_children _ = []"

definition cmd_push :: "zobject \<Rightarrow> zobject omap \<Rightarrow> zobject omap" where
  "cmd_push c m = om_insert (obj_name c) c m"

definition m_object :: "zobject omap" where
  "m_object = fold cmd_push [O_system, O_command, O_exit, O_ping, O_auth, O_monitor, O_ipconfig, O_time,
     O_list, O_iplist, O_account, O_ver, O_ttl, O_check] []"

subsection \<open>Help\<close>

definition explain_child :: "zobject \<Rightarrow> ostream \<Rightarrow> ostream" where
  "explain_child c os =
     (if c = O_system \<or> c = O_account
      then fold (\<lambda>(_, ch) os. os_push_str os (child_explain ch)) (obj_children c) os
      else os_push_str os (obj_explain c))"

definition cmd_help :: "ostream \<Rightarrow> ostream" where
  "cmd_help os = fold (\<lambda>(_, c) os. os_push_str os (obj_explain c)) m_object os"

definition cmd_help1 :: "string \<Rightarrow> ostream \<Rightarrow> ostream option" where
  "cmd_help1 command os = map_option (\<lambda>c. explain_child c os) (om_find m_object command)"

subsection \<open>Execution\<close>

text \<open>
  A command gives the new state and, where it answers, its reply, which is the last thing it does.
\<close>

type_synonym exec = "istream \<Rightarrow> con \<Rightarrow> znet \<Rightarrow> znet \<times> ostream option"

definition reply :: "ostream \<Rightarrow> znet \<Rightarrow> znet \<times> ostream option" where
  "reply os n = (n, Some os)"

definition auth_execute :: exec where
  "auth_execute p con n =
     (let account = istream_to_string p 2; pwd = istream_to_string p 3
      in if \<not> auth_ok (n_auth n) account pwd
         then reply (result_error (obj_explain O_auth) ''Account or password error.'') n
         else reply (result_ok ''ok'') (upd_con con (\<lambda>c. c\<lparr>c_power := auth_power (n_auth n) account\<rparr>) n))"

definition monitor_execute :: exec where
  "monitor_execute p con n =
     (let monitor = istream_to_string p 2
      in if monitor = [] then reply (result_error (obj_explain O_monitor) ''The 2 parameter error.'') n
         else (con_subscribe monitor (ucast (param_u32 p 3)) con n, None))"

definition list_execute :: exec where
  "list_execute p con n =
     (case keyword p 2 of
        None \<Rightarrow> reply (cmd_help (Os_array [])) n
      | Some kw \<Rightarrow>
         (case cmd_help1 kw (Os_array []) of
            None \<Rightarrow> reply (result_error (obj_explain O_list) ''The 2 parameter is not command.'') n
          | Some os \<Rightarrow> reply os n))"

definition ip_port :: "zconn \<Rightarrow> string" where
  "ip_port c = c_ip c @ '':'' @ itostr (int (unat (c_port c)))"

definition iplist_line :: "zconn \<Rightarrow> string" where
  "iplist_line c = ip_port c @ ''*'' @ itostr (int (unat (c_power c)))"

definition iplist_execute :: exec where
  "iplist_execute p con n =
     reply (fold (\<lambda>(a, _) os. case om_find (n_cons n) a of None \<Rightarrow> os | Some c \<Rightarrow> os_push_cstr os (iplist_line c))
       (n_iplist n) (Os_array [])) n"

fun join_params :: "istream \<Rightarrow> nat list \<Rightarrow> string" where
  "join_params p [] = []"
| "join_params p (i # is) =
     (let s = istream_to_string p i in if s = [] then [] else s @ '' '' @ join_params p is)"

text \<open>The shell command; parameters beyond the last are empty and end the line.\<close>

definition command_execute :: "nenv \<Rightarrow> exec" where
  "command_execute v p con n =
     (let command = join_params p [2..<length (is_vp p) + 2];
          os = os_push_cstr (Os_array []) (replicate 34 (CHR ''#'') @ CRLF)
      in case ne_popen v command of
           None \<Rightarrow> (n, None)
         | Some pieces \<Rightarrow> reply (foldl os_push_buf os pieces) n)"

definition system_config :: "nenv \<Rightarrow> ostream" where
  "system_config v =
     (case ne_file v of
        None \<Rightarrow> result_error (child_explain Ch_config) ''conf/config.xml is not exists.''
      | Some f \<Rightarrow> result_ok (take 81960 f @ ne_stack v))"

fun child_execute :: "nenv \<Rightarrow> zchild \<Rightarrow> exec" where
  "child_execute v Ch_config p con n = reply (system_config v) n"
| "child_execute v Ch_account_ls p con n = reply (auth_list (n_auth n) (Os_array [])) n"
| "child_execute v Ch_account_add p con n =
     (let (cf, os) = account_add p (n_conf n) in reply os (n\<lparr>n_conf := cf\<rparr>))"
| "child_execute v Ch_account_mpwd p con n =
     (let (cf, os) = account_mpwd (n_auth n) p (n_conf n) in reply os (n\<lparr>n_conf := cf\<rparr>))"

definition parent_execute :: "nenv \<Rightarrow> zobject \<Rightarrow> exec" where
  "parent_execute v ob p con n =
     (case keyword p 2 of
        None \<Rightarrow> reply (result_error (obj_explain ob) ''The second parameter error.'') n
      | Some kw \<Rightarrow>
         (case om_find (obj_children ob) kw of
            None \<Rightarrow> reply (result_error (obj_explain ob) ''second method unknown command.'') n
          | Some ch \<Rightarrow> child_execute v ch p con n))"

fun obj_execute :: "nenv \<Rightarrow> zobject \<Rightarrow> exec" where
  "obj_execute v O_exit p con n = (upd_con con ansy_disconnect n, None)"
| "obj_execute v O_ping p con n = reply (result_ok ''PONG'') n"
| "obj_execute v O_auth p con n = auth_execute p con n"
| "obj_execute v O_ver p con n =
     reply (os_push_cstr (Os_success [])
       (''zredis version 1.0 author zensoft updated 2014.1.24'' @ [CHR 0x09] @ ne_ver v)) n"
| "obj_execute v O_monitor p con n = monitor_execute p con n"
| "obj_execute v O_ipconfig p con n =
     (case om_find (n_cons n) con of None \<Rightarrow> (n, None) | Some c \<Rightarrow> reply (result_ok (ip_port c)) n)"
| "obj_execute v O_time p con n =
     reply (os_push_str (os_push_str (Os_array []) (itostr (int (ne_sec v)))) (itostr (int (ne_usec v)))) n"
| "obj_execute v O_list p con n = list_execute p con n"
| "obj_execute v O_iplist p con n = iplist_execute p con n"
| "obj_execute v O_system p con n = parent_execute v O_system p con n"
| "obj_execute v O_command p con n = command_execute v p con n"
| "obj_execute v O_account p con n = parent_execute v O_account p con n"
| "obj_execute v O_ttl p con n =
     (let (sv, os) = ttl_execute (ne_ms v) (ne_local v) (ne_z v) p (n_sv n) in reply os (n\<lparr>n_sv := sv\<rparr>))"
| "obj_execute v O_check p con n = (n\<lparr>n_sv := check_execute (ne_z v) (n_sv n)\<rparr>, None)"

definition obj_allowed :: "u8 \<Rightarrow> zobject \<Rightarrow> bool" where
  "obj_allowed pw ob \<longleftrightarrow> and pw (obj_power ob) > 0"

definition obj_deal :: "nenv \<Rightarrow> zobject \<Rightarrow> istream \<Rightarrow> con \<Rightarrow> znet \<Rightarrow> znet" where
  "obj_deal v ob p con n =
     (case om_find (n_cons n) con of
        None \<Rightarrow> n
      | Some c \<Rightarrow>
          if \<not> obj_allowed (c_power c) ob
          then result_param v (os_push_cstr (Os_error []) ''permission denied.'') con n
          else (case obj_execute v ob p con n of
                  (n1, None) \<Rightarrow> n1 | (n1, Some os) \<Rightarrow> result_param v os con n1))"

definition on_command :: "nenv \<Rightarrow> istream \<Rightarrow> con \<Rightarrow> znet \<Rightarrow> znet" where
  "on_command v p con n =
     (case keyword p 1 of
        None \<Rightarrow> result_param v (os_push_cstr (Os_error []) ''The first parameter error.'') con n
      | Some kw \<Rightarrow>
         (case om_find m_object kw of
            None \<Rightarrow> result_param v (os_push_cstr (Os_error []) ''Unknown command.'') con n
          | Some ob \<Rightarrow> obj_deal v ob p con n))"

section \<open>Life of a connection\<close>

definition con_new :: "nat \<Rightarrow> string \<Rightarrow> u16 \<Rightarrow> nat \<Rightarrow> zconn" where
  "con_new tid ip port bc = \<lparr>c_power = 1, c_ip = ip, c_port = port, c_ring = rq_new, c_stream = cstream_new,
     c_bcast = bc, c_subscribe = [], c_tid = tid, c_waits = [], c_asyn_disconnect = False, c_signal = False,
     c_closed = False, c_tries = 0, c_sent = []\<rparr>"

definition con_open :: "nat \<Rightarrow> string \<Rightarrow> u16 \<Rightarrow> con \<Rightarrow> znet \<Rightarrow> znet" where
  "con_open tid ip port con n =
     (let (i, b) = bcast_get (ip @ '':'' @ itostr (int (unat port))) (n_bcasts n)
      in n\<lparr>n_admin := om_insert con () (n_admin n), n_iplist := om_insert con () (n_iplist n), n_bcasts := b,
           n_cons := om_put con (con_new tid ip port i) (n_cons n)\<rparr>)"

definition con_release :: "con \<Rightarrow> znet \<Rightarrow> znet" where
  "con_release con n =
     (case om_find (n_cons n) con of
        None \<Rightarrow> n
      | Some c \<Rightarrow> n\<lparr>n_admin := om_erase con (n_admin n),
          n_bcasts := fold (\<lambda>i. bcast_upd i (bc_leave con)) (c_subscribe c) (n_bcasts n),
          n_iplist := om_erase con (n_iplist n), n_cons := om_erase con (n_cons n)\<rparr>)"

text \<open>
  \<^verbatim>\<open>on_read\<close>: as in \<^const>\<open>on_read\<close> the requests are handed out until the stream is partial or in error,
  but now each one is executed before the next is read, and what the parser reports goes to the monitors.
\<close>

fun con_read_loop :: "nat \<Rightarrow> nenv \<Rightarrow> con \<Rightarrow> znet \<Rightarrow> znet option" where
  "con_read_loop 0 v con n = None"
| "con_read_loop (Suc fuel) v con n =
     (case om_find (n_cons n) con of
        None \<Rightarrow> Some n
      | Some c \<Rightarrow>
         (case analyze (rq_count (cs_ring (c_stream c))) (con_view con n) (c_stream c) of
            None \<Rightarrow> None
          | Some (s', r, req, lg) \<Rightarrow>
              let n1 = bcast_all v con lg (upd_con con (\<lambda>c. c\<lparr>c_stream := s'\<rparr>) n)
              in case req of
                   None \<Rightarrow> Some (if r = - 2 then upd_con con (\<lambda>c. c\<lparr>c_closed := True\<rparr>) n1 else n1)
                 | Some p \<Rightarrow> con_read_loop fuel v con (on_command v p con n1)))"

definition con_read :: "nenv \<Rightarrow> con \<Rightarrow> bytes \<Rightarrow> znet \<Rightarrow> znet option" where
  "con_read v con d n =
     (if d = [] then Some n
      else let n1 = upd_con con (\<lambda>c. c\<lparr>c_stream := recv_pieces (c_stream c) d\<rparr>) n
           in case om_find (n_cons n1) con of
                None \<Rightarrow> Some n1
              | Some c \<Rightarrow> con_read_loop (rq_count (cs_ring (c_stream c)) + 1) v con n1)"

text \<open>Requests that are answered later.\<close>

definition set_seq_num :: "zenv \<Rightarrow> u32 \<Rightarrow> con \<Rightarrow> znet \<Rightarrow> znet" where
  "set_seq_num e seqNum con n = upd_con con (\<lambda>c. c\<lparr>c_waits := om_insert seqNum (time32 e) (c_waits c)\<rparr>) n"

definition check_seq_num :: "u32 \<Rightarrow> zconn \<Rightarrow> bool" where
  "check_seq_num seqNum c \<longleftrightarrow> om_find (c_waits c) seqNum \<noteq> None"

definition erase_seq_num :: "u32 \<Rightarrow> con \<Rightarrow> znet \<Rightarrow> znet" where
  "erase_seq_num seqNum con n = upd_con con (\<lambda>c. c\<lparr>c_waits := om_erase seqNum (c_waits c)\<rparr>) n"

definition admin_check :: "con \<Rightarrow> znet \<Rightarrow> bool" where
  "admin_check con n \<longleftrightarrow> om_find (n_admin n) con \<noteq> None"

definition admin_ansy_send :: "nenv \<Rightarrow> u32 \<Rightarrow> con \<Rightarrow> bytes \<Rightarrow> znet \<Rightarrow> znet" where
  "admin_ansy_send v seqNum con d n =
     (if admin_check con n \<and> (\<exists>c \<in> set_option (om_find (n_cons n) con). check_seq_num seqNum c)
      then erase_seq_num seqNum con (result_param v (os_push_buf (Os_data []) d) con n)
      else n)"

definition admin_erase_seq_num :: "u32 \<Rightarrow> con \<Rightarrow> znet \<Rightarrow> znet" where
  "admin_erase_seq_num seqNum con n = (if admin_check con n then erase_seq_num seqNum con n else n)"

text \<open>The timer of the accounts, every ten seconds.\<close>

definition auth_timer :: "znet \<Rightarrow> znet" where
  "auth_timer n = n\<lparr>n_auth := fst (load_auth (n_conf n))\<rparr>"

end
