(* ===== verification/Transmit.thy ===== *)
theory Transmit
  imports Connect ServerInv
begin

text \<open>
  The sending side of a connection: \<^verbatim>\<open>on_transmit\<close> hands windows of at most 1024 bytes to the network.
  As long as the network accepts them, all bytes arrive in order; a refused window may leave the
  queue in another order.
\<close>

section \<open>Windows\<close>

lemma length_concat_rev: "length (concat (map f (rev xs))) = length (concat (map f xs))"
  by (induct xs) simp_all

text \<open>Peeking may reorder blocks, but only those that lie in the window as a whole.\<close>

lemma rq_attach_gather:
  assumes "rq_inv T q" and "0 < n" and "n \<le> T" and "n \<le> length (contents q)"
  shows "\<exists>q'. rq_attach T q n = (q', Some (take n (contents q))) \<and> rq_inv T q' \<and>
    length (contents q') = length (contents q) \<and> drop n (contents q') = drop n (contents q)"
proof -
  have sz: "m_size q = length (contents q)" using assms(1) by (simp add: rq_inv_def)
  have ne: "m_q q \<noteq> []" using assms by (auto simp: contents_def)
  show ?thesis
  proof (cases "blk_len (last (m_q q)) < n")
    case True
    obtain p r where a: "attach_loop n [] [] (rev (m_q q)) = (take n (contents q), p, r)"
        "rev (m_q q) = p @ r" "length (concat (map blk_buffer p)) < n"
      using attach_loop_spec [OF assms(2), of "rev (m_q q)" "[]" "[]"] assms(4) by (auto simp: contents_def)
    let ?q = "q\<lparr>m_q := rev r @ p\<rparr>"
    have mq: "m_q q = rev r @ rev p" using a(2) by (metis rev_append rev_rev_ident)
    have c: "contents q = concat (map blk_buffer p) @ concat (map blk_buffer r)"
      "contents ?q = concat (map blk_buffer (rev p)) @ concat (map blk_buffer r)"
      by (simp_all add: contents_def mq)
    have "length (contents ?q) = length (contents q)" by (simp add: c length_concat_rev)
    moreover have "drop n (contents ?q) = drop n (contents q)" using a(3) by (simp add: c length_concat_rev)
    moreover have "rq_inv T ?q" using assms(1) calculation(1) by (auto simp: rq_inv_def mq)
    ultimately show ?thesis using True assms ne sz a(1) by (simp add: rq_attach_def)
  next
    case False
    have "take n (contents q) = take n (blk_buffer (last (m_q q)))"
      using False ne by (simp add: contents_def rev_map [symmetric]) (cases "m_q q" rule: rev_cases; simp)
    then show ?thesis using False assms ne sz by (simp add: rq_attach_def)
  qed
qed

lemma ring_window_spec:
  assumes "rq_inv 4096 q" and "contents q \<noteq> []"
  shows "\<exists>q'. ring_window q = Some (q', take 1024 (contents q)) \<and> rq_inv 4096 q' \<and>
    length (contents q') = length (contents q) \<and> drop 1024 (contents q') = drop 1024 (contents q)"
proof -
  let ?n = "min (length (contents q)) 1024"
  have c: "rq_count q = length (contents q)" by (rule rq_count_contents [OF assms(1)])
  have "0 < ?n" "?n \<le> 4096" "?n \<le> length (contents q)" using assms(2) by auto
  from rq_attach_gather [OF assms(1) this] obtain q' where
    "rq_attach 4096 q ?n = (q', Some (take ?n (contents q)))" "rq_inv 4096 q'"
    "length (contents q') = length (contents q)" "drop ?n (contents q') = drop ?n (contents q)" by blast
  then show ?thesis by (cases "1024 \<le> length (contents q)") (auto simp: ring_window_def c min_def)
qed

text \<open>
  One call of the loop: the accepted packets are the beginning of the queue; if a packet is
  refused, the bytes behind it are as before, and its own bytes are still there, in some order.
\<close>

lemma transmit_loop_spec:
  assumes "rq_inv 4096 q" and "length (contents q) \<le> fuel"
  shows "\<exists>q' sent. send_loop ring_window rq_advance rq_count ok fuel i q = Some (q', sent) \<and> rq_inv 4096 q' \<and>
    (\<exists>rest. contents q = concat sent @ rest \<and> length rest = length (contents q') \<and>
       drop 1024 rest = drop 1024 (contents q') \<and> (contents q' = [] \<or> \<not> ok (i + length sent))) \<and>
    (\<forall>d\<in>set sent. d \<noteq> [] \<and> length d \<le> 1024) \<and> (\<forall>j<length sent. ok (i + j))"
  using assms
proof (induct fuel arbitrary: i q)
  case 0
  then show ?case using rq_count_contents [OF 0(1)] by simp
next
  case (Suc fuel)
  show ?case
  proof (cases "contents q = []")
    case True
    then show ?thesis using Suc.prems rq_count_contents [OF Suc.prems(1)] by simp
  next
    case False
    have c: "rq_count q \<noteq> 0" using False by (simp add: rq_count_contents [OF Suc.prems(1)])
    from ring_window_spec [OF Suc.prems(1) False] obtain q1 where w:
      "ring_window q = Some (q1, take 1024 (contents q))" "rq_inv 4096 q1"
      "length (contents q1) = length (contents q)" "drop 1024 (contents q1) = drop 1024 (contents q)" by blast
    let ?d = "take 1024 (contents q)"
    show ?thesis
    proof (cases "ok i")
      case True
      let ?q2 = "rq_advance q1 (length ?d)"
      have q2: "rq_inv 4096 ?q2" "contents ?q2 = drop 1024 (contents q)"
        using rq_advance_spec [OF w(2), of "length ?d"] w(3,4) by (auto simp: min_def split: if_splits)
      have "length (contents ?q2) \<le> fuel" using False Suc.prems(2) q2(2) by (cases "contents q") auto
      from Suc.hyps [OF q2(1) this, of "Suc i"] obtain q' sent rest where ih:
        "send_loop ring_window rq_advance rq_count ok fuel (Suc i) ?q2 = Some (q', sent)" "rq_inv 4096 q'"
        "contents ?q2 = concat sent @ rest" "length rest = length (contents q')"
        "drop 1024 rest = drop 1024 (contents q')" "contents q' = [] \<or> \<not> ok (Suc i + length sent)"
        "\<forall>d\<in>set sent. d \<noteq> [] \<and> length d \<le> 1024" "\<forall>j<length sent. ok (Suc i + j)" by blast
      have "contents q = concat (?d # sent) @ rest" using ih(3) q2(2) append_take_drop_id [of 1024 "contents q"] by simp
      moreover have "\<forall>j<length (?d # sent). ok (i + j)" using True ih(8) by (auto simp: less_Suc_eq_0_disj)
      ultimately show ?thesis
        using c w True ih False by (intro exI [of _ q'] exI [of _ "?d # sent"]) auto
    next
      case nok: False
      then show ?thesis using c w by (intro exI [of _ q1] exI [of _ "[]"]) auto
    qed
  qed
qed

section \<open>Transmission\<close>

lemma on_transmit_spec:
  assumes "rq_inv 4096 (c_ring c)" and "rq_count (c_ring c) \<le> g_max_send_buffer"
  shows "\<exists>q sent rest. on_transmit ok c = c\<lparr>c_ring := q, c_sent := c_sent c @ sent,
      c_tries := c_tries c + length sent + (if rq_count q = 0 then 0 else 1)\<rparr> \<and> rq_inv 4096 q \<and>
    contents (c_ring c) = concat sent @ rest \<and> length rest = length (contents q) \<and>
    drop 1024 rest = drop 1024 (contents q) \<and> (contents q = [] \<or> \<not> ok (c_tries c + length sent)) \<and>
    (\<forall>d\<in>set sent. d \<noteq> [] \<and> length d \<le> 1024)"
proof -
  have "length (contents (c_ring c)) \<le> rq_count (c_ring c)" by (simp add: rq_count_contents [OF assms(1)])
  from transmit_loop_spec [OF assms(1) this, of ok "c_tries c"] obtain q sent rest where
    "send_loop ring_window rq_advance rq_count ok (rq_count (c_ring c)) (c_tries c) (c_ring c) = Some (q, sent)"
    "rq_inv 4096 q" "contents (c_ring c) = concat sent @ rest" "length rest = length (contents q)"
    "drop 1024 rest = drop 1024 (contents q)" "contents q = [] \<or> \<not> ok (c_tries c + length sent)"
    "\<forall>d\<in>set sent. d \<noteq> [] \<and> length d \<le> 1024" by blast
  then show ?thesis using assms(2)
    by (intro exI [of _ q] exI [of _ sent] exI [of _ rest]) (simp add: on_transmit_def)
qed



text \<open>
  C33. When the packet that is refused reaches over the two oldest blocks of the queue into a third,
  these two have changed places afterwards, so that the receiver gets their bytes in the wrong order.
\<close>

theorem refused_packet_reorders:
  assumes "rq_inv 4096 (c_ring c)" and "rq_count (c_ring c) \<le> g_max_send_buffer"
    and "m_q (c_ring c) = r @ [z, y, x]" and "blk_len x + blk_len y < min (rq_count (c_ring c)) 1024"
    and "min (rq_count (c_ring c)) 1024 \<le> blk_len x + blk_len y + blk_len z"
    and "\<not> ok (c_tries c)"
  shows "contents (c_ring c) = blk_buffer x @ blk_buffer y @ blk_buffer z @ concat (map blk_buffer (rev r)) \<and>
    c_sent (on_transmit ok c) = c_sent c \<and>
    contents (c_ring (on_transmit ok c)) =
      blk_buffer y @ blk_buffer x @ blk_buffer z @ concat (map blk_buffer (rev r))"
proof -
  let ?n = "min (rq_count (c_ring c)) 1024"
  have cnt: "rq_count (c_ring c) = length (contents (c_ring c))" by (rule rq_count_contents [OF assms(1)])
  have n: "?n \<le> 4096" "?n \<le> m_size (c_ring c)" "rq_count (c_ring c) \<noteq> 0"
    using assms(4) by (auto simp: rq_count_def)
  have "m_q (fst (rq_attach 4096 (c_ring c) ?n)) = r @ [z, x, y]"
    by (rule rq_attach_swap [OF assms(3,4,5) n(1,2)])
  moreover have "contents (c_ring c) \<noteq> []" using n(3) cnt by auto
  then obtain q' where w: "ring_window (c_ring c) = Some (q', take 1024 (contents (c_ring c)))"
    using ring_window_spec [OF assms(1)] by blast
  moreover have "fst (rq_attach 4096 (c_ring c) ?n) = q'"
    using w by (auto simp: ring_window_def split: prod.splits option.splits)
  ultimately have q': "contents q' = blk_buffer y @ blk_buffer x @ blk_buffer z @ concat (map blk_buffer (rev r))"
    by (simp add: contents_def)
  have "send_loop ring_window rq_advance rq_count ok (rq_count (c_ring c)) (c_tries c) (c_ring c) = Some (q', [])"
    using n(3) w assms(6) by (cases "rq_count (c_ring c)") simp_all
  then show ?thesis using q' assms(2,3) by (simp add: on_transmit_def contents_def)
qed

theorem refused_packet_reorders_witness:
  "\<exists>c. c_ring c = rq_advance (foldl (rq_append 4096) rq_new
        [replicate 1000 CHR ''w'', replicate 3500 CHR ''x'', replicate 600 CHR ''y'', replicate 3600 CHR ''z'']) 4096 \<and>
     contents (c_ring c) = replicate 404 CHR ''x'' @ replicate 600 CHR ''y'' @ replicate 3600 CHR ''z'' \<and>
     contents (c_ring (on_transmit (\<lambda>_. False) c)) =
       replicate 600 CHR ''y'' @ replicate 404 CHR ''x'' @ replicate 3600 CHR ''z''"
proof -
  define w where "w = replicate 1000 CHR ''w''"
  define x where "x = replicate 3500 CHR ''x''"
  define y where "y = replicate 600 CHR ''y''"
  define z where "z = replicate 3600 CHR ''z''"
  have len: "length w = 1000" "length x = 3500" "length y = 600" "length z = 3600"
    by (simp_all add: w_def x_def y_def z_def)
  have nz: "w \<noteq> []" "x \<noteq> []" "y \<noteq> []" "z \<noteq> []" using len by auto
  define q where "q = foldl (rq_append 4096) rq_new [w, x, y, z]"
  have q: "q = \<lparr>m_q = [\<lparr>blk_T = z, blk_b = 0\<rparr>, \<lparr>blk_T = y, blk_b = 0\<rparr>, \<lparr>blk_T = x, blk_b = 0\<rparr>, \<lparr>blk_T = w, blk_b = 0\<rparr>], m_size = 8700\<rparr>"
    by (simp add: q_def rq_append.simps nz len rq_append1_def rq_new_def blk_append_def blk_new_def)
  have a: "rq_advance q 4096 = \<lparr>m_q = [\<lparr>blk_T = z, blk_b = 0\<rparr>, \<lparr>blk_T = y, blk_b = 0\<rparr>, \<lparr>blk_T = x, blk_b = 3096\<rparr>], m_size = 4604\<rparr>"
    by (simp add: q rq_advance_def blk_len_def blk_advance_def len Let_def)
  let ?c = "con_new 0 ''h'' 1 0\<lparr>c_ring := rq_advance q 4096\<rparr>"
  have c: "contents (rq_advance q 4096) = drop 3096 x @ y @ z" by (simp add: a contents_def blk_buffer_def)
  have inv: "rq_inv 4096 (c_ring ?c)" by (simp add: a rq_inv_def blk_inv_def len contents_def blk_buffer_def)
  have cnt: "rq_count (c_ring ?c) = 4604" by (simp add: a rq_count_def)
  have "contents (c_ring (on_transmit (\<lambda>_. False) ?c)) = y @ drop 3096 x @ z"
    using refused_packet_reorders [OF inv, of "[]" "\<lparr>blk_T = z, blk_b = 0\<rparr>" "\<lparr>blk_T = y, blk_b = 0\<rparr>"
        "\<lparr>blk_T = x, blk_b = 3096\<rparr>" "\<lambda>_. False"] cnt
    by (simp add: a blk_len_def len blk_buffer_def g_max_send_buffer_def)
  moreover have "drop 3096 x = replicate 404 CHR ''x''" by (simp add: x_def)
  ultimately show ?thesis
    using c by (intro exI [of _ ?c]) (simp add: q_def w_def x_def y_def z_def)
qed

end
