(* ===== verification/NetInv.thy ===== *)
theory NetInv
  imports Transmit
begin

text \<open>
  Safety of the connection layer: the groups and the registers hold no connection that is gone,
  what a request may change depends on the permissions of its connection, and the invariant of the
  storage holds in every reachable state.
\<close>

section \<open>What sending leaves alone\<close>

text \<open>
  Sending, to the client or to monitors, changes neither the registers and groups nor, of a
  connection, its group, subscriptions, permissions and address.
\<close>

definition con_shape :: "zconn \<Rightarrow> nat \<times> nat list \<times> u8 \<times> cstream" where
  "con_shape c = (c_bcast c, c_subscribe c, c_power c, c_stream c)"

definition same_shape :: "znet \<Rightarrow> znet \<Rightarrow> bool" where
  "same_shape n n' \<longleftrightarrow> n_iplist n' = n_iplist n \<and> n_admin n' = n_admin n \<and> n_bcasts n' = n_bcasts n \<and>
     n_auth n' = n_auth n \<and> n_conf n' = n_conf n \<and> n_sv n' = n_sv n \<and> (om_inv (n_cons n) \<longrightarrow> om_inv (n_cons n')) \<and>
     (\<forall>a. map_option con_shape (om_find (n_cons n') a) = map_option con_shape (om_find (n_cons n) a))"

lemma same_shape_refl [simp]: "same_shape n n"
  by (simp add: same_shape_def)

lemma same_shape_trans: "same_shape n1 n2 \<Longrightarrow> same_shape n2 n3 \<Longrightarrow> same_shape n1 n3"
  by (auto simp: same_shape_def)

lemma same_shape_upd:
  "(\<And>c. con_shape (f c) = con_shape c) \<Longrightarrow> same_shape n (upd_con con f n)"
  by (auto simp: same_shape_def upd_con_def split: option.split)

lemma same_shape_fold: "(\<And>x n. same_shape n (f x n)) \<Longrightarrow> same_shape n (fold f xs n)"
  by (induct xs arbitrary: n) (auto intro: same_shape_trans)

lemma on_transmit_shape [simp]: "con_shape (on_transmit ok c) = con_shape c"
  by (auto simp: on_transmit_def con_shape_def ansy_disconnect_def split: option.split)

lemma con_send_shape: "same_shape n (con_send v con d n)" "same_shape n (con_asyn_send v con d n)"
  by (auto simp: con_send_def con_asyn_send_def Let_def intro!: same_shape_upd) (simp_all add: con_shape_def)

lemma bcast_shape: "same_shape n (con_bcast v con d type n)" "same_shape n (bcast_all v con ds n)"
  by (auto simp: con_bcast_def bcast_send_def bcast_all_def con_send_shape split: option.split intro!: same_shape_fold)

lemma result_param_shape: "same_shape n (result_param v os con n)"
  unfolding result_param_def Let_def
  by (auto split: prod.split bool.split option.split intro!: same_shape_fold
      intro: same_shape_trans [OF _ bcast_shape(2)] same_shape_trans [OF con_send_shape(1) bcast_shape(1)])

section \<open>The invariant\<close>

text \<open>
  Every member of a group is a live connection that knows about its membership; the registers list
  the live connections; pointers to groups are valid.
\<close>

definition net_inv :: "znet \<Rightarrow> bool" where
  "net_inv n \<longleftrightarrow> bcasts_inv (n_bcasts n) \<and> om_inv (n_cons n) \<and> om_inv (n_iplist n) \<and> om_inv (n_admin n) \<and>
     (\<forall>a. om_find (n_iplist n) a = None \<longleftrightarrow> om_find (n_cons n) a = None) \<and>
     (\<forall>a. om_find (n_admin n) a = None \<longleftrightarrow> om_find (n_cons n) a = None) \<and>
     (\<forall>a c. om_find (n_cons n) a = Some c \<longrightarrow> c_bcast c < length (b_objs (n_bcasts n))) \<and>
     (\<forall>i a. member (n_bcasts n) i a \<longrightarrow> (\<exists>c. om_find (n_cons n) a = Some c \<and> i \<in> set (c_subscribe c))) \<and>
     sv_inv (n_sv n)"

lemma same_shape_Some:
  assumes "same_shape n n'" and "om_find (n_cons n') a = Some c'"
  obtains c where "om_find (n_cons n) a = Some c" "con_shape c' = con_shape c"
proof -
  have "map_option con_shape (om_find (n_cons n) a) = Some (con_shape c')"
    using assms unfolding same_shape_def by (metis option.simps(9))
  then show thesis using that by (cases "om_find (n_cons n) a") auto
qed

lemma net_inv_same_shape:
  assumes "net_inv n" and "same_shape n n'"
  shows "net_inv n'"
proof -
  have f: "map_option con_shape (om_find (n_cons n') a) = map_option con_shape (om_find (n_cons n) a)" for a
    using assms(2) by (simp add: same_shape_def)
  have none: "om_find (n_cons n') a = None \<longleftrightarrow> om_find (n_cons n) a = None" for a
    using f [of a] by (metis map_option_is_None)
  have "c_bcast c' < length (b_objs (n_bcasts n))" if "om_find (n_cons n') a = Some c'" for a c'
    by (rule same_shape_Some [OF assms(2) that]) (use assms(1) in \<open>auto simp: net_inv_def con_shape_def\<close>)
  moreover have "\<exists>c. om_find (n_cons n') a = Some c \<and> i \<in> set (c_subscribe c)" if "member (n_bcasts n) i a" for i a
    using that assms(1) f [of a] by (fastforce simp: net_inv_def con_shape_def)
  ultimately show ?thesis
    using assms none by (auto simp: net_inv_def same_shape_def)
qed

text \<open>Steps that change only the storage, the accounts or the configuration.\<close>

lemma net_inv_fields [simp]:
  "net_inv (n\<lparr>n_conf := cf\<rparr>) = net_inv n" "net_inv (n\<lparr>n_auth := au\<rparr>) = net_inv n"
  "sv_inv sv \<Longrightarrow> net_inv n \<Longrightarrow> net_inv (n\<lparr>n_sv := sv\<rparr>)"
  by (simp_all add: net_inv_def)

lemma net_inv_upd:
  assumes "net_inv n" and "\<And>c. c_bcast (f c) = c_bcast c \<and> set (c_subscribe c) \<subseteq> set (c_subscribe (f c))"
  shows "net_inv (upd_con con f n)"
  using assms by (fastforce simp: net_inv_def upd_con_def split: option.split)

lemma bcast_length:
  "length (b_objs b) \<le> length (b_objs (snd (bcast_get tag b)))"
  "length (b_objs b) \<le> length (b_objs (snd (bcast_join tag con type b)))"
  "length (b_objs (bcast_upd i f b)) = length (b_objs b)"
  by (auto simp: bcast_get_def bcast_join_def bcast_upd_def split: option.split)

lemma net_inv_subscribe:
  assumes "net_inv n" and "om_find (n_cons n) con = Some c"
  shows "net_inv (con_subscribe tag type con n)"
proof -
  obtain i b where j: "bcast_join tag con type (n_bcasts n) = (i, b)" by fastforce
  have b: "bcasts_inv (n_bcasts n)" using assms(1) by (simp add: net_inv_def)
  have join: "bcasts_inv b" "member b k a \<longleftrightarrow> member (n_bcasts n) k a \<or> (k = i \<and> a = con)" for k a
    using bcast_join_inv [where tag = tag and con = con and type = type, OF b] j by simp_all
  have len: "length (b_objs (n_bcasts n)) \<le> length (b_objs b)"
    using bcast_length(2) [of "n_bcasts n" tag con type] j by simp
  let ?n = "con_subscribe tag type con n"
  have n': "?n = n\<lparr>n_bcasts := b, n_cons := om_put con (c\<lparr>c_subscribe := c_subscribe c @ [i]\<rparr>) (n_cons n)\<rparr>"
    using assms(2) by (simp add: con_subscribe_def j upd_con_def)
  have "\<exists>c. om_find (n_cons ?n) a = Some c \<and> k \<in> set (c_subscribe c)" if "member b k a" for k a
  proof (cases "member (n_bcasts n) k a")
    case True
    then obtain c0 where "om_find (n_cons n) a = Some c0" "k \<in> set (c_subscribe c0)"
      using assms(1) unfolding net_inv_def by blast
    then show ?thesis using assms(2) by (cases "a = con") (auto simp: n')
  next
    case False
    then show ?thesis using that join(2) [of k a] by (auto simp: n')
  qed
  moreover have "c_bcast c' < length (b_objs b)" if "om_find (n_cons ?n) a = Some c'" for a c'
    using that assms len unfolding net_inv_def n' by (fastforce split: if_splits)
  ultimately show ?thesis
    using assms join(1) by (auto simp: net_inv_def n')
qed

lemma net_inv_open:
  assumes "net_inv n" and "om_find (n_cons n) con = None"
  shows "net_inv (con_open tid ip port con n)"
proof -
  obtain i b where g: "bcast_get (ip @ '':'' @ itostr (int (unat port))) (n_bcasts n) = (i, b)" by fastforce
  have b: "bcasts_inv (n_bcasts n)" using assms(1) by (simp add: net_inv_def)
  have get: "bcasts_inv b" "i < length (b_objs b)" "member b k a \<longleftrightarrow> member (n_bcasts n) k a" for k a
    using bcast_get_inv [where tag = "ip @ '':'' @ itostr (int (unat port))", OF b] g by simp_all
  have len: "length (b_objs (n_bcasts n)) \<le> length (b_objs b)"
    using bcast_length(1) [of "n_bcasts n" "ip @ '':'' @ itostr (int (unat port))"] g by simp
  let ?n = "con_open tid ip port con n"
  have n': "?n = n\<lparr>n_admin := om_insert con () (n_admin n), n_iplist := om_insert con () (n_iplist n), n_bcasts := b,
       n_cons := om_put con (con_new tid ip port i) (n_cons n)\<rparr>"
    using g by (simp add: con_open_def)
  have "\<exists>c. om_find (n_cons ?n) a = Some c \<and> k \<in> set (c_subscribe c)" if m: "member b k a" for k a
  proof -
    obtain c0 where "om_find (n_cons n) a = Some c0" "k \<in> set (c_subscribe c0)"
      using assms(1) m get(3) [of k a] unfolding net_inv_def by blast
    then show ?thesis using assms(2) by (cases "a = con") (auto simp: n')
  qed
  moreover have "c_bcast c' < length (b_objs b)" if "om_find (n_cons ?n) a = Some c'" for a c'
    using that assms len get(2) unfolding net_inv_def n' by (fastforce simp: con_new_def split: if_splits)
  ultimately show ?thesis
    using assms get(1) by (auto simp: net_inv_def n' split: option.split)
qed

lemma leave_all:
  assumes "bcasts_inv b"
  shows "bcasts_inv (fold (\<lambda>i. bcast_upd i (bc_leave con)) gs b)"
    and "length (b_objs (fold (\<lambda>i. bcast_upd i (bc_leave con)) gs b)) = length (b_objs b)"
    and "member (fold (\<lambda>i. bcast_upd i (bc_leave con)) gs b) k a \<longleftrightarrow> member b k a \<and> \<not> (k \<in> set gs \<and> a = con)"
proof -
  have "bcasts_inv (fold (\<lambda>i. bcast_upd i (bc_leave con)) gs b) \<and>
      length (b_objs (fold (\<lambda>i. bcast_upd i (bc_leave con)) gs b)) = length (b_objs b) \<and>
      (member (fold (\<lambda>i. bcast_upd i (bc_leave con)) gs b) k a \<longleftrightarrow> member b k a \<and> \<not> (k \<in> set gs \<and> a = con))"
    using assms
  proof (induct gs arbitrary: b)
    case (Cons i gs)
    note up = bcast_upd_leave [where i = i and con = con, OF Cons.prems]
    show ?case using Cons.hyps [OF up(1)] up(2) [of k a] by (auto simp: bcast_length)
  qed simp
  then show "bcasts_inv (fold (\<lambda>i. bcast_upd i (bc_leave con)) gs b)"
    and "length (b_objs (fold (\<lambda>i. bcast_upd i (bc_leave con)) gs b)) = length (b_objs b)"
    and "member (fold (\<lambda>i. bcast_upd i (bc_leave con)) gs b) k a \<longleftrightarrow> member b k a \<and> \<not> (k \<in> set gs \<and> a = con)"
    by blast+
qed

lemma net_inv_release:
  assumes "net_inv n"
  shows "net_inv (con_release con n)"
proof (cases "om_find (n_cons n) con")
  case (Some c)
  have b: "bcasts_inv (n_bcasts n)" using assms by (simp add: net_inv_def)
  let ?b = "fold (\<lambda>i. bcast_upd i (bc_leave con)) (c_subscribe c) (n_bcasts n)"
  note lv = leave_all [where con = con and gs = "c_subscribe c", OF b]
  have n': "con_release con n = n\<lparr>n_admin := om_erase con (n_admin n), n_bcasts := ?b,
      n_iplist := om_erase con (n_iplist n), n_cons := om_erase con (n_cons n)\<rparr>"
    using Some by (simp add: con_release_def)
  have inv: "om_inv (n_cons n)" using assms by (simp add: net_inv_def)
  have "\<exists>c. om_find (om_erase con (n_cons n)) a = Some c \<and> k \<in> set (c_subscribe c)" if m: "member ?b k a" for k a
  proof -
    obtain c0 where "om_find (n_cons n) a = Some c0" "k \<in> set (c_subscribe c0)"
      using assms m lv(3) [of k a] unfolding net_inv_def by blast
    then show ?thesis using m lv(3) [of k a] Some inv by (cases "a = con") auto
  qed
  then show ?thesis
    using assms lv(1,2) by (auto simp: net_inv_def n' split: if_splits)
qed (use assms in \<open>simp add: con_release_def\<close>)

lemma net_inv_unsubscribe:
  assumes "net_inv n"
  shows "net_inv (con_unsubscribe tag con n)"
proof (cases "om_find (b_tags (n_bcasts n)) tag")
  case (Some i)
  have b: "bcasts_inv (n_bcasts n)" using assms by (simp add: net_inv_def)
  note up = bcast_upd_leave [where i = i and con = con, OF b]
  have u: "con_unsubscribe tag con n = n\<lparr>n_bcasts := bcast_upd i (bc_leave con) (n_bcasts n)\<rparr>"
    using Some by (simp add: con_unsubscribe_def bcast_leave_def)
  have "\<exists>c. om_find (n_cons n) a = Some c \<and> k \<in> set (c_subscribe c)"
    if "member (bcast_upd i (bc_leave con) (n_bcasts n)) k a" for k a
    using assms that up(2) [of k a] unfolding net_inv_def by blast
  then show ?thesis using assms up(1) by (auto simp: net_inv_def u bcast_length)
qed (use assms in \<open>simp add: con_unsubscribe_def bcast_leave_def\<close>)

section \<open>Commands\<close>

lemma net_inv_result_param: "net_inv n \<Longrightarrow> net_inv (result_param v os con n)"
  by (rule net_inv_same_shape [OF _ result_param_shape])

lemma net_inv_bcast_all: "net_inv n \<Longrightarrow> net_inv (bcast_all v con ds n)"
  by (rule net_inv_same_shape [OF _ bcast_shape(2)])

lemma net_inv_execute:
  assumes "net_inv n" and "om_find (n_cons n) con = Some c"
  shows "net_inv (fst (obj_execute v ob p con n))"
proof -
  have child: "net_inv (fst (child_execute v ch p con n))" for ch
    using assms(1) by (cases ch) (auto simp: reply_def case_prod_unfold Let_def split: option.split)
  have "sv_inv (n_sv n)" using assms(1) by (simp add: net_inv_def)
  then show ?thesis
    using assms child
    by (cases ob) (auto simp: reply_def auth_execute_def monitor_execute_def list_execute_def iplist_execute_def
        command_execute_def parent_execute_def Let_def case_prod_unfold net_inv_upd ansy_disconnect_def
        net_inv_subscribe sv_inv_ttl check_execute_def sv_inv_recycle split: option.split)
qed

lemma net_inv_on_command: "net_inv n \<Longrightarrow> net_inv (on_command v p con n)"
  using net_inv_execute [of n con _ v _ p]
  by (auto simp: on_command_def obj_deal_def net_inv_result_param case_prod_unfold split: option.split)

lemma net_inv_read_loop: "net_inv n \<Longrightarrow> con_read_loop fuel v con n = Some n' \<Longrightarrow> net_inv n'"
proof (induct fuel v con n arbitrary: n' rule: con_read_loop.induct)
  case (2 fuel v con n)
  show ?case
  proof (cases "om_find (n_cons n) con")
    case None
    then show ?thesis using 2 by simp
  next
    case (Some c)
    obtain s' r req lg where a: "analyze (rq_count (cs_ring (c_stream c))) (con_view con n) (c_stream c) = Some (s', r, req, lg)"
      using 2(3) Some by (auto split: option.splits)
    let ?n1 = "bcast_all v con lg (upd_con con (\<lambda>c. c\<lparr>c_stream := s'\<rparr>) n)"
    have n1: "net_inv ?n1" using 2(2) by (simp add: net_inv_bcast_all net_inv_upd)
    show ?thesis
    proof (cases req)
      case None
      then show ?thesis using 2(3) Some a n1 by (auto simp: Let_def net_inv_upd split: if_splits)
    next
      case (Some p)
      then show ?thesis
        using 2(1) [OF \<open>om_find (n_cons n) con = Some c\<close> a refl refl refl refl Some net_inv_on_command [OF n1]] 2(3)
          \<open>om_find (n_cons n) con = Some c\<close> a by (simp add: Let_def)
    qed
  qed
qed simp

section \<open>Runs\<close>

text \<open>
  The events of a running server: connections come, with an address that is not in use, and go;
  bytes arrive; the network is ready to send or delivers a signal; a connection leaves a group; the
  timer loads the accounts; the refresh thread runs.  The surroundings may be anything.
\<close>

inductive net_step :: "znet \<Rightarrow> znet \<Rightarrow> bool" where
  net_open: "om_find (n_cons n) con = None \<Longrightarrow> net_step n (con_open tid ip port con n)"
| net_read: "con_read v con d n = Some n' \<Longrightarrow> net_step n n'"
| net_write: "net_step n (on_write v con n)"
| net_signal: "net_step n (on_signal v con n)"
| net_release: "net_step n (con_release con n)"
| net_unsubscribe: "net_step n (con_unsubscribe tag con n)"
| net_answer: "net_step n (admin_ansy_send v seqNum con d n)"
| net_timer: "net_step n (auth_timer n)"
| net_refresh: "net_step n (n\<lparr>n_sv := snd (refresh_step e (tick, n_sv n))\<rparr>)"

definition net_start :: "zenv \<Rightarrow> conf \<Rightarrow> dbase \<Rightarrow> znet" where
  "net_start e cf db = \<lparr>n_cons = [], n_iplist = [], n_admin = [], n_bcasts = bcasts_new,
     n_auth = fst (load_auth cf), n_conf = cf, n_sv = snd (server_start e db)\<rparr>"

inductive net_reach :: "znet \<Rightarrow> bool" where
  net_reach_start: "db_inv db \<Longrightarrow> net_reach (net_start e cf db)"
| net_reach_step: "net_reach n \<Longrightarrow> net_step n n' \<Longrightarrow> net_reach n'"

lemma net_inv_start: "db_inv db \<Longrightarrow> net_inv (net_start e cf db)"
  by (simp add: net_inv_def net_start_def sv_inv_start bcasts_new_def bcasts_inv_def)

lemma net_inv_read:
  assumes "net_inv n" and "con_read v con d n = Some n'"
  shows "net_inv n'"
proof -
  have "net_inv (upd_con con (\<lambda>c. c\<lparr>c_stream := recv_pieces (c_stream c) d\<rparr>) n)"
    using assms(1) by (simp add: net_inv_upd)
  then show ?thesis
    using assms net_inv_read_loop
    by (auto simp: con_read_def Let_def simp del: con_read_loop.simps split: if_splits option.splits)
qed

lemma on_transmit_keeps: "c_bcast (on_transmit ok c) = c_bcast c" "c_subscribe (on_transmit ok c) = c_subscribe c"
  using on_transmit_shape [of ok c] by (simp_all add: con_shape_def)

lemma net_inv_step: "net_step n n' \<Longrightarrow> net_inv n \<Longrightarrow> net_inv n'"
proof (induct rule: net_step.induct)
  case (net_refresh n e tick)
  then show ?case by (simp add: net_inv_def sv_inv_refresh)
next
  case (net_read v con d n n')
  then show ?case by (blast intro: net_inv_read)
next
  case (net_signal n v con)
  then show ?case unfolding on_signal_def by (rule net_inv_upd) (simp add: Let_def on_transmit_keeps)
next
  case (net_write n v con)
  then show ?case unfolding on_write_def by (rule net_inv_upd) (simp add: on_transmit_keeps)
next
  case (net_answer n v seqNum con d)
  then show ?case by (simp add: admin_ansy_send_def erase_seq_num_def net_inv_upd net_inv_result_param)
qed (simp_all add: net_inv_open net_inv_release net_inv_unsubscribe auth_timer_def)

lemma net_inv_reach: "net_reach n \<Longrightarrow> net_inv n"
  by (induct rule: net_reach.induct) (auto simp: net_inv_start intro: net_inv_step)

text \<open>
  C4. In every reachable state, whatever happened before, all members of all groups and all
  entries of the registers are live connections, so that no broadcast and no late answer uses the
  memory of a connection that was released; and the storage keeps its invariant.
\<close>

theorem no_dangling_connections:
  assumes "net_reach n"
  shows "(\<forall>i con. i < length (b_objs (n_bcasts n)) \<and> om_find (b_objs (n_bcasts n) ! i) con \<noteq> None \<longrightarrow>
      om_find (n_cons n) con \<noteq> None) \<and>
    (\<forall>con. om_find (n_iplist n) con \<noteq> None \<longleftrightarrow> om_find (n_cons n) con \<noteq> None) \<and>
    (\<forall>con. om_find (n_admin n) con \<noteq> None \<longleftrightarrow> om_find (n_cons n) con \<noteq> None) \<and>
    sv_inv (n_sv n)"
proof -
  have inv: "net_inv n" by (rule net_inv_reach [OF assms])
  have "om_find (n_cons n) con \<noteq> None" if "member (n_bcasts n) i con" for i con
    using inv that unfolding net_inv_def by blast
  moreover have "\<forall>con. om_find (n_iplist n) con = None \<longleftrightarrow> om_find (n_cons n) con = None"
    "\<forall>con. om_find (n_admin n) con = None \<longleftrightarrow> om_find (n_cons n) con = None" "sv_inv (n_sv n)"
    using inv by (simp_all add: net_inv_def)
  ultimately show ?thesis by simp
qed

theorem no_dangling_connections_witness:
  "\<exists>n. net_reach n \<and> om_find (n_cons n) 4 \<noteq> None \<and> om_find (n_iplist n) 4 \<noteq> None"
proof -
  define e where "e = \<lparr>now = 1000, cfg = server_default, junk = 0\<rparr>"
  let ?s = "net_start e Conf_no_auth \<lparr>db_map = [], db_ok = (\<lambda>_. True), db_tick = 0\<rparr>"
  let ?n = "con_open 0 ''10.0.0.1'' 80 4 ?s"
  have "net_reach ?s" by (rule net_reach_start) (simp add: db_inv_def)
  then have r: "net_reach ?n" by (rule net_reach_step [OF _ net_open]) (simp add: net_start_def)
  have "om_find (n_cons ?n) 4 \<noteq> None" by (simp add: con_open_def case_prod_unfold Let_def)
  with r no_dangling_connections [OF r] show ?thesis by blast
qed

section \<open>Permissions\<close>

lemma m_object_eq: "m_object =
  [(''!'', O_ver), (''#'', O_command), (''@'', O_monitor), (''ACCOUNT'', O_account), (''AUTH'', O_auth),
   (''CHECK'', O_check), (''EXIT'', O_exit), (''IPCONFIG'', O_ipconfig), (''IPLIST'', O_iplist), (''LS'', O_list),
   (''PING'', O_ping), (''SYSTEM'', O_system), (''TIME'', O_time), (''TTL'', O_ttl)]"
  by code_simp

lemma m_object_name: "om_find m_object kw = Some ob \<Longrightarrow> kw = obj_name ob"
  by (auto simp: m_object_eq split: if_splits)

text \<open>What a command changes, apart from what its reply does to the queues.\<close>

lemma execute_quiet:
  "ob \<notin> {O_exit, O_auth, O_monitor, O_account, O_ttl, O_check} \<Longrightarrow> fst (obj_execute v ob p con n) = n"
  by (cases ob) (simp_all add: reply_def list_execute_def iplist_execute_def command_execute_def parent_execute_def
      Let_def split: option.split)

lemma execute_child:
  "fst (child_execute v ch p con n) = n\<lparr>n_conf := (case ch of
     Ch_account_add \<Rightarrow> fst (account_add p (n_conf n))
   | Ch_account_mpwd \<Rightarrow> fst (account_mpwd (n_auth n) p (n_conf n)) | _ \<Rightarrow> n_conf n)\<rparr>"
  by (cases ch) (simp_all add: reply_def case_prod_unfold Let_def split: option.split)

lemma execute_account:
  obtains cf where "fst (obj_execute v O_account p con n) = n\<lparr>n_conf := cf\<rparr>"
proof (cases "keyword p 2")
  case None
  then show ?thesis using that [of "n_conf n"] by (simp add: parent_execute_def reply_def)
next
  case (Some kw)
  show ?thesis
  proof (cases "om_find (obj_children O_account) kw")
    case None
    with Some show ?thesis using that [of "n_conf n"] by (simp add: parent_execute_def reply_def del: obj_children.simps)
  next
    case ch: (Some ch)
    show ?thesis by (rule that) (use Some ch execute_child [of v ch p con n] in \<open>simp add: parent_execute_def del: obj_children.simps\<close>)
  qed
qed

lemma execute_auth:
  "fst (obj_execute v O_auth p con n) =
     (if auth_ok (n_auth n) (istream_to_string p 2) (istream_to_string p 3)
      then upd_con con (\<lambda>c. c\<lparr>c_power := auth_power (n_auth n) (istream_to_string p 2)\<rparr>) n else n)"
  by (simp add: auth_execute_def reply_def Let_def)

lemma execute_monitor:
  "fst (obj_execute v O_monitor p con n) =
     (if istream_to_string p 2 = [] then n else con_subscribe (istream_to_string p 2) (ucast (param_u32 p 3)) con n)"
  by (simp add: monitor_execute_def reply_def Let_def)

lemma upd_con_fields [simp]:
  "n_conf (upd_con a f n) = n_conf n" "n_bcasts (upd_con a f n) = n_bcasts n" "n_sv (upd_con a f n) = n_sv n"
  "n_auth (upd_con a f n) = n_auth n"
  "om_find (n_cons (upd_con a f n)) k = (if k = a then map_option f (om_find (n_cons n) k) else om_find (n_cons n) k)"
  by (simp_all add: upd_con_def split: option.split)

lemma subscribe_fields:
  "n_conf (con_subscribe t y con n) = n_conf n" "n_sv (con_subscribe t y con n) = n_sv n"
  "map_option c_power (om_find (n_cons (con_subscribe t y con n)) a) = map_option c_power (om_find (n_cons n) a)"
  by (auto simp: con_subscribe_def case_prod_unfold Let_def option.map_comp comp_def)

lemma execute_cases:
  obtains (quiet) "fst (obj_execute v ob p con n) = n"
    | (exit) "fst (obj_execute v ob p con n) = upd_con con ansy_disconnect n"
    | (auth) "ob = O_auth" "auth_ok (n_auth n) (istream_to_string p 2) (istream_to_string p 3)"
        "fst (obj_execute v ob p con n) = upd_con con (\<lambda>c. c\<lparr>c_power := auth_power (n_auth n) (istream_to_string p 2)\<rparr>) n"
    | (monitor) t y where "ob = O_monitor" "fst (obj_execute v ob p con n) = con_subscribe t y con n"
    | (account) cf where "ob = O_account" "fst (obj_execute v ob p con n) = n\<lparr>n_conf := cf\<rparr>"
    | (sv) sv where "ob = O_ttl \<or> ob = O_check" "fst (obj_execute v ob p con n) = n\<lparr>n_sv := sv\<rparr>"
proof (cases "ob \<in> {O_exit, O_auth, O_monitor, O_account, O_ttl, O_check}")
  case False
  then show ?thesis by (rule quiet [OF execute_quiet])
next
  case True
  then consider "ob = O_exit" | "ob = O_auth" | "ob = O_monitor" | "ob = O_account" | "ob = O_ttl" | "ob = O_check"
    by blast
  then show ?thesis
  proof cases
    case 1
    show ?thesis by (rule exit) (simp add: 1)
  next
    case 2
    show ?thesis
    proof (cases "auth_ok (n_auth n) (istream_to_string p 2) (istream_to_string p 3)")
      case True
      show ?thesis by (rule auth [OF 2 True]) (simp add: 2 execute_auth True del: obj_execute.simps)
    next
      case False
      show ?thesis by (rule quiet) (simp add: 2 execute_auth False del: obj_execute.simps)
    qed
  next
    case 3
    show ?thesis
    proof (cases "istream_to_string p 2 = []")
      case True
      show ?thesis by (rule quiet) (simp add: 3 execute_monitor True del: obj_execute.simps)
    next
      case False
      show ?thesis by (rule monitor [OF 3]) (simp add: 3 execute_monitor False del: obj_execute.simps)
    qed
  next
    case 4
    obtain cf where "fst (obj_execute v O_account p con n) = n\<lparr>n_conf := cf\<rparr>" by (rule execute_account)
    then show ?thesis by (intro account [OF 4, of cf]) (simp only: 4)
  next
    case 5
    show ?thesis by (rule sv [OF disjI1 [OF 5]]) (simp add: 5 case_prod_unfold reply_def Let_def)
  next
    case 6
    show ?thesis by (rule sv [OF disjI2 [OF 6]]) (simp add: 6)
  qed
qed

lemma execute_effects:
  defines "n1 v ob p con n \<equiv> fst (obj_execute v ob p con n)"
  shows "n_conf (n1 v ob p con n) \<noteq> n_conf n \<Longrightarrow> ob = O_account"
    and "n_bcasts (n1 v ob p con n) \<noteq> n_bcasts n \<Longrightarrow> ob = O_monitor"
    and "n_sv (n1 v ob p con n) \<noteq> n_sv n \<Longrightarrow> ob = O_ttl \<or> ob = O_check"
    and "map_option c_power (om_find (n_cons (n1 v ob p con n)) a) \<noteq> map_option c_power (om_find (n_cons n) a) \<Longrightarrow>
      ob = O_auth \<and> a = con \<and> auth_ok (n_auth n) (istream_to_string p 2) (istream_to_string p 3) \<and>
      map_option c_power (om_find (n_cons (n1 v ob p con n)) a) =
        map_option (\<lambda>_. auth_power (n_auth n) (istream_to_string p 2)) (om_find (n_cons n) a)"
  unfolding n1_def
  by (cases rule: execute_cases [of v ob p con n]; simp add: subscribe_fields del: obj_execute.simps)
    (cases rule: execute_cases [of v ob p con n]; simp add: subscribe_fields ansy_disconnect_def option.map_comp comp_def
      split: if_splits del: obj_execute.simps)+

lemma same_shape_power:
  "same_shape n n' \<Longrightarrow> map_option c_power (om_find (n_cons n') a) = map_option c_power (om_find (n_cons n) a)"
proof -
  assume "same_shape n n'"
  then have "map_option con_shape (om_find (n_cons n') a) = map_option con_shape (om_find (n_cons n) a)"
    by (simp add: same_shape_def)
  then have "map_option (fst \<circ> snd \<circ> snd) (map_option con_shape (om_find (n_cons n') a)) =
      map_option (fst \<circ> snd \<circ> snd) (map_option con_shape (om_find (n_cons n) a))" by (simp only:)
  then show ?thesis by (simp add: option.map_comp comp_def con_shape_def)
qed

text \<open>
  A request either only sends an error, or it names a registered command that the permissions of
  the connection allow, and which is executed.
\<close>

lemma on_command_cases:
  assumes "om_find (n_cons n) con = Some c"
  obtains (refused) "same_shape n (on_command v p con n)"
    | (run) ob where "keyword p 1 = Some (obj_name ob)" "obj_allowed (c_power c) ob"
        "same_shape (fst (obj_execute v ob p con n)) (on_command v p con n)"
proof (cases "keyword p 1")
  case None
  then show ?thesis by (intro refused) (simp add: on_command_def result_param_shape)
next
  case (Some kw)
  show ?thesis
  proof (cases "om_find m_object kw")
    case None
    with Some show ?thesis by (intro refused) (simp add: on_command_def result_param_shape)
  next
    case ob: (Some ob)
    show ?thesis
    proof (cases "obj_allowed (c_power c) ob")
      case True
      have "same_shape (fst (obj_execute v ob p con n)) (on_command v p con n)"
        using Some ob True assms
        by (cases "obj_execute v ob p con n")
          (simp add: on_command_def obj_deal_def result_param_shape del: obj_execute.simps split: option.split)
      then show ?thesis using run True Some m_object_name [OF ob] by simp
    next
      case False
      then show ?thesis using Some ob assms
        by (intro refused) (simp add: on_command_def obj_deal_def result_param_shape del: obj_execute.simps)
    qed
  qed
qed

text \<open>
  C3. Permissions are enforced.  A request changes the storage only by TTL or CHECK on a connection
  with permission 1, the groups of monitors only with permission 4, and the configured accounts only
  with permission 128.  The permissions of a connection change only when this connection itself
  authenticates with the password of an account, and then become those of the account.
\<close>

theorem command_authorized:
  assumes "om_find (n_cons n) con = Some c"
  shows "(n_conf (on_command v p con n) \<noteq> n_conf n \<longrightarrow> and (c_power c) 128 > 0) \<and>
    (n_bcasts (on_command v p con n) \<noteq> n_bcasts n \<longrightarrow> and (c_power c) 4 > 0) \<and>
    (n_sv (on_command v p con n) \<noteq> n_sv n \<longrightarrow>
       and (c_power c) 1 > 0 \<and> keyword p 1 \<in> {Some ''TTL'', Some ''CHECK''}) \<and>
    (\<forall>a c1 c2. om_find (n_cons n) a = Some c1 \<and> om_find (n_cons (on_command v p con n)) a = Some c2 \<and>
       c_power c2 \<noteq> c_power c1 \<longrightarrow>
       a = con \<and> keyword p 1 = Some ''AUTH'' \<and>
       (\<exists>s. om_find (n_auth n) (istream_to_string p 2) = Some s \<and> a_pwd s = istream_to_string p 3 \<and>
          c_power c2 = a_power s))"
proof (rule on_command_cases [OF assms, of v p])
  assume "same_shape n (on_command v p con n)"
  then have sh: "same_shape n (on_command v p con n)" .
  have "c_power c2 = c_power c1"
    if "om_find (n_cons n) a = Some c1" "om_find (n_cons (on_command v p con n)) a = Some c2" for a c1 c2
    using same_shape_power [OF sh, of a] that by simp
  then show ?thesis using sh by (auto simp: same_shape_def)
next
  fix ob
  assume kw: "keyword p 1 = Some (obj_name ob)" and al: "obj_allowed (c_power c) ob"
    and sh: "same_shape (fst (obj_execute v ob p con n)) (on_command v p con n)"
  let ?n1 = "fst (obj_execute v ob p con n)"
  have eq: "n_conf (on_command v p con n) = n_conf ?n1" "n_bcasts (on_command v p con n) = n_bcasts ?n1"
    "n_sv (on_command v p con n) = n_sv ?n1"
    using sh by (simp_all add: same_shape_def)
  note eff = execute_effects [of v ob p con n]
  have "and (c_power c) 128 > 0" if "n_conf ?n1 \<noteq> n_conf n"
    using eff(1) [OF that] al by (simp add: obj_allowed_def)
  moreover have "and (c_power c) 4 > 0" if "n_bcasts ?n1 \<noteq> n_bcasts n"
    using eff(2) [OF that] al by (simp add: obj_allowed_def)
  moreover have "and (c_power c) 1 > 0 \<and> keyword p 1 \<in> {Some ''TTL'', Some ''CHECK''}" if "n_sv ?n1 \<noteq> n_sv n"
    using eff(3) [OF that] al kw by (auto simp: obj_allowed_def)
  moreover have "a = con \<and> keyword p 1 = Some ''AUTH'' \<and>
       (\<exists>s. om_find (n_auth n) (istream_to_string p 2) = Some s \<and> a_pwd s = istream_to_string p 3 \<and> c_power c2 = a_power s)"
    if "om_find (n_cons n) a = Some c1" "om_find (n_cons (on_command v p con n)) a = Some c2" "c_power c2 \<noteq> c_power c1"
    for a c1 c2
  proof -
    have p1: "map_option c_power (om_find (n_cons ?n1) a) = Some (c_power c2)"
      using same_shape_power [OF sh, of a] that(2) by simp
    then have "map_option c_power (om_find (n_cons ?n1) a) \<noteq> map_option c_power (om_find (n_cons n) a)"
      unfolding p1 using that(1,3) by simp
    from eff(4) [OF this] p1 that(1) kw show ?thesis
      by (auto simp: auth_ok_def auth_power_def split: option.splits if_splits)
  qed
  ultimately show ?thesis unfolding eq by blast
qed

theorem command_authorized_witness:
  "\<exists>n c v p. om_find (n_cons n) 4 = Some c \<and> c_power c = 1 \<and>
     n_bcasts (on_command v p 4 n) = n_bcasts n \<and> n_conf (on_command v p 4 n) = n_conf n"
proof -
  define e where "e = \<lparr>now = 1000, cfg = server_default, junk = 0\<rparr>"
  let ?s = "net_start e Conf_no_auth \<lparr>db_map = [], db_ok = (\<lambda>_. True), db_tick = 0\<rparr>"
  let ?n = "con_open 0 ''10.0.0.1'' 80 4 ?s"
  have c: "om_find (n_cons ?n) 4 = Some (con_new 0 ''10.0.0.1'' 80 0)"
    by (simp add: con_open_def net_start_def bcast_get_def bcasts_new_def)
  have no: "\<not> and (1 :: u8) 128 > 0" "\<not> and (1 :: u8) 4 > 0" by code_simp+
  have "n_conf (on_command v istream_new 4 ?n) = n_conf ?n" "n_bcasts (on_command v istream_new 4 ?n) = n_bcasts ?n" for v
    using command_authorized [OF c, of v istream_new] no by (simp_all add: con_new_def)
  with c show ?thesis
    by (intro exI [of _ ?n] exI [of _ "con_new 0 ''10.0.0.1'' 80 0"] exI [of _ istream_new] exI conjI) (simp_all add: con_new_def)
qed

text \<open>
  C34. Whatever the configuration file says, also when it cannot be read, the account \<open>zsoft\<close> exists
  with a password fixed in the source and all permissions, among them those for running shell
  commands and editing accounts; a \<open>zsoft\<close> in the file is ignored, and \<^verbatim>\<open>ACCOUNT LS\<close> does not show it.
\<close>

theorem builtin_account:
  "auth_ok (fst (load_auth cf)) ''zsoft'' ''zxcvbnmlkjhgfdsa'' \<and>
   (\<forall>ob. obj_allowed (auth_power (fst (load_auth cf)) ''zsoft'') ob) \<and>
   auth_list m os = auth_list (filter (\<lambda>(k, _). k \<noteq> ''zsoft'') m) os"
proof -
  have "auth_list m os = auth_list (filter (\<lambda>(k, _). k \<noteq> ''zsoft'') m) os"
    by (induct m os rule: auth_list.induct) simp_all
  moreover have "obj_allowed 255 ob" for ob by (cases ob; simp add: obj_allowed_def; code_simp)
  ultimately show ?thesis by (simp add: auth_ok_def auth_power_def om_find_load_auth auth_system_def)
qed

end
