(* ===== verification/EndToEnd.thy ===== *)
theory EndToEnd
  imports NetInv Recycle
begin

text \<open>
  From the bytes a client sends to the bytes it receives: parsing, permissions, dispatch, storage,
  serialization and transmission together.
\<close>

section \<open>A connection that is ready\<close>

text \<open>
  The connection \<open>con\<close> has an empty queue, belongs to the running thread, may use TTL, has no
  monitors and a network that accepts what is sent.
\<close>

definition ready :: "nenv \<Rightarrow> con \<Rightarrow> znet \<Rightarrow> zconn \<Rightarrow> bool" where
  "ready v con n c \<longleftrightarrow> om_find (n_cons n) con = Some c \<and> rq_inv 4096 (c_ring c) \<and> contents (c_ring c) = [] \<and>
     c_tid c = ne_tid v \<and> obj_allowed (c_power c) O_ttl \<and> b_objs (n_bcasts n) ! c_bcast c = [] \<and>
     (\<forall>i. ne_ok v con i)"

text \<open>The connection after it has sent \<open>d\<close>.\<close>

definition sent_by :: "zconn \<Rightarrow> bytes \<Rightarrow> zconn \<Rightarrow> bool" where
  "sent_by c d c' \<longleftrightarrow> (\<exists>q sent t. c' = c\<lparr>c_ring := q, c_sent := c_sent c @ sent, c_tries := t\<rparr> \<and>
     rq_inv 4096 q \<and> contents q = [] \<and> concat sent = d)"

abbreviation put_con :: "con \<Rightarrow> zconn \<Rightarrow> znet \<Rightarrow> znet" where
  "put_con con c n \<equiv> n\<lparr>n_cons := om_put con c (n_cons n)\<rparr>"

lemma om_put_same: "om_find m k = Some v \<Longrightarrow> om_inv m \<Longrightarrow> om_put k v m = m"
  by (induct k v m rule: om_put.induct) (auto simp: om_inv_Cons split: if_splits dest!: om_find_SomeD)

lemma om_put_put [simp]: "om_put k v (om_put k w m) = om_put k v m"
  by (induct k w m rule: om_put.induct) auto

lemma sent_by_trans: "sent_by c d c1 \<Longrightarrow> sent_by c1 d' c2 \<Longrightarrow> sent_by c (d @ d') c2"
proof -
  assume "sent_by c d c1" and "sent_by c1 d' c2"
  then obtain q s t q' s' t' where "c1 = c\<lparr>c_ring := q, c_sent := c_sent c @ s, c_tries := t\<rparr>" "concat s = d"
      "c2 = c1\<lparr>c_ring := q', c_sent := c_sent c1 @ s', c_tries := t'\<rparr>" "rq_inv 4096 q'" "contents q' = []" "concat s' = d'"
    by (auto simp: sent_by_def)
  then show "sent_by c (d @ d') c2"
    unfolding sent_by_def by (intro exI [of _ q'] exI [of _ "s @ s'"] exI [of _ t']) simp
qed

lemma ready_put: "ready v con n c \<Longrightarrow> sent_by c d c' \<Longrightarrow> ready v con (put_con con c' n) c'"
  by (auto simp: ready_def sent_by_def)

lemma con_send_ready:
  assumes "ready v con n c" and "length d \<le> 4096"
  shows "\<exists>c'. con_send v con d n = put_con con c' n \<and> sent_by c d c'"
proof -
  let ?c = "c\<lparr>c_ring := rq_append 4096 (c_ring c) d\<rparr>"
  have r: "om_find (n_cons n) con = Some c" "rq_inv 4096 (c_ring c)" "contents (c_ring c) = []" "c_tid c = ne_tid v"
    "\<And>i. ne_ok v con i" using assms(1) by (simp_all add: ready_def)
  have q: "rq_inv 4096 (c_ring ?c)" "contents (c_ring ?c) = d"
    using rq_append_spec [of 4096 "c_ring c" d] r(2,3) by simp_all
  have "rq_count (c_ring ?c) \<le> g_max_send_buffer"
    unfolding rq_count_contents [OF q(1)] q(2) using assms(2) by (simp add: g_max_send_buffer_def)
  from on_transmit_spec [OF q(1) this, of "ne_ok v con"] q(2) r(5)
  have "sent_by c d (on_transmit (ne_ok v con) ?c)" by (fastforce simp: sent_by_def intro!: exI)
  moreover have "con_send v con d n = put_con con (on_transmit (ne_ok v con) ?c) n"
    using r(1,4) by (simp add: con_send_def upd_con_def Let_def)
  ultimately show ?thesis by blast
qed

lemma bcast_quiet:
  assumes "ready v con n c"
  shows "con_bcast v con d type n = n" and "bcast_all v con ds n = n"
proof -
  show *: "con_bcast v con d type n = n" for d type
    using assms by (simp add: con_bcast_def bcast_send_def ready_def)
  show "bcast_all v con ds n = n" unfolding bcast_all_def by (induct ds) (simp_all add: *)
qed

lemma send_all_ready:
  assumes "ready v con n c" and "\<forall>d\<in>set ds. length d \<le> 4096" and "om_inv (n_cons n)"
  shows "\<exists>c'. fold (\<lambda>d n. con_bcast v con d 0 (con_send v con d n)) ds n = put_con con c' n \<and> sent_by c (concat ds) c'"
  using assms
proof (induct ds arbitrary: n c)
  case Nil
  then have "put_con con c n = n" by (simp add: ready_def om_put_same)
  moreover have "sent_by c [] c" using Nil(1)
    by (auto simp: sent_by_def ready_def intro!: exI [of _ "c_ring c"] exI [of _ "[]"] exI [of _ "c_tries c"])
  ultimately show ?case by (intro exI [of _ c]) simp
next
  case (Cons d ds)
  then obtain c1 where c1: "con_send v con d n = put_con con c1 n" "sent_by c d c1"
    using con_send_ready [of v con n c d] by auto
  note r1 = ready_put [OF Cons.prems(1) c1(2)]
  obtain c2 where "fold (\<lambda>d n. con_bcast v con d 0 (con_send v con d n)) ds (put_con con c1 n) = put_con con c2 (put_con con c1 n)"
    "sent_by c1 (concat ds) c2"
    using Cons.hyps [OF r1] Cons.prems(2,3) by auto
  then show ?case
    using c1 bcast_quiet(1) [OF r1] sent_by_trans [OF c1(2)] by auto
qed

section \<open>Replies\<close>

lemma send_loop_pieces:
  "rq_inv T q \<Longrightarrow> send_loop rq_attach_block rq_advance rq_count ok fuel i q = Some (q', sent) \<Longrightarrow>
    \<forall>d\<in>set sent. length d \<le> T"
proof (induct fuel arbitrary: i q q' sent)
  case (Suc fuel)
  show ?case
  proof (cases "contents q = []")
    case True
    then show ?thesis using Suc.prems rq_count_contents [OF Suc.prems(1)] by auto
  next
    case False
    have m: "m_q q \<noteq> []" using Suc.prems(1) False contents_empty_iff by blast
    then have l: "blk_inv T (last (m_q q))" using Suc.prems(1) by (simp add: rq_inv_def)
    let ?b = "blk_buffer (last (m_q q))"
    have a: "rq_attach_block q = Some (q, ?b)" using m blk_inv_len [OF l] by (simp add: rq_attach_block_def)
    have b: "length ?b \<le> T" using blk_inv_len [OF l] by simp
    have c: "rq_count q \<noteq> 0" using False rq_count_contents [OF Suc.prems(1)] by simp
    have "length ?b \<le> length (contents q)" using contents_snoc [OF m refl] by simp
    then have inv: "rq_inv T (rq_advance q (length ?b))" using rq_advance_spec [OF Suc.prems(1)] by blast
    show ?thesis
      using Suc.prems(2) a b c Suc.hyps [OF inv] by (auto split: if_splits option.splits)
  qed
qed (auto split: if_splits)

lemma result_send_spec:
  assumes "rq_inv 4096 q"
  obtains q' blocks where "result_send q = Some (q', blocks)" "concat blocks = contents q" "\<forall>d\<in>set blocks. length d \<le> 4096"
proof -
  obtain q' blocks where s: "send_loop rq_attach_block rq_advance rq_count (\<lambda>_. True) (rq_count q) 0 q = Some (q', blocks)"
      "concat blocks @ contents q' = contents q" "contents q' = []"
    using rq.send_loop_spec [OF assms, of "rq_count q" "\<lambda>_. True" 0] rq_count_contents [OF assms] by auto
  then show thesis
    using that [of q' blocks] send_loop_pieces [OF assms s(1)] by (simp add: result_send_def do_write_def)
qed

lemma result_param_ready:
  assumes "ready v con n c" and "om_inv (n_cons n)"
  shows "\<exists>c'. result_param v os con n = put_con con c' n \<and> sent_by c (reply_bytes os) c'"
proof (cases "os = Os_array []")
  case True
  then show ?thesis using send_all_ready [OF assms(1), of "[]"] assms(2) by (simp add: result_param_def)
next
  case False
  obtain q where q: "os_serialize os rq_new = (q, True)"
    using os_serialize_refused [of os rq_new] False by (cases "os_serialize os rq_new") auto
  have inv: "rq_inv 4096 q" "contents q = reply_bytes os"
    using os_serialize_spec [of rq_new os] q by simp_all
  obtain q' blocks where b: "result_send q = Some (q', blocks)" "concat blocks = contents q"
      "\<forall>d\<in>set blocks. length d \<le> 4096"
    by (rule result_send_spec [OF inv(1)])
  obtain c' where c': "fold (\<lambda>d n. con_bcast v con d 0 (con_send v con d n)) blocks n = put_con con c' n"
      "sent_by c (concat blocks) c'"
    using send_all_ready [OF assms(1) b(3) assms(2)] by blast
  then show ?thesis
    using q b(1,2) inv(2) bcast_quiet(2) [OF ready_put [OF assms(1) c'(2)]] by (auto simp: result_param_def Let_def)
qed

section \<open>Commands\<close>

text \<open>A sequence of TTL requests, executed one after the other.\<close>

fun ttl_runs :: "nenv \<Rightarrow> istream list \<Rightarrow> zserver \<Rightarrow> zserver \<times> bytes" where
  "ttl_runs v [] sv = (sv, [])"
| "ttl_runs v (p # ps) sv =
     (let (sv1, os) = ttl_execute (ne_ms v) (ne_local v) (ne_z v) p sv; (sv2, ds) = ttl_runs v ps sv1
      in (sv2, reply_bytes os @ ds))"

lemma on_command_ttl:
  assumes "ready v con n c" and "om_inv (n_cons n)" and "keyword p 1 = Some ''TTL''"
    and "ttl_execute (ne_ms v) (ne_local v) (ne_z v) p (n_sv n) = (sv, os)"
  shows "\<exists>c'. on_command v p con n = put_con con c' (n\<lparr>n_sv := sv\<rparr>) \<and> sent_by c (reply_bytes os) c'"
proof -
  have r: "ready v con (n\<lparr>n_sv := sv\<rparr>) c" using assms(1) by (simp add: ready_def)
  have c: "om_find (n_cons n) con = Some c" "obj_allowed (c_power c) O_ttl" using assms(1) by (simp_all add: ready_def)
  have "om_find m_object ''TTL'' = Some O_ttl" by (simp add: m_object_eq)
  then have "on_command v p con n = result_param v os con (n\<lparr>n_sv := sv\<rparr>)"
    using assms(3,4) c by (simp add: on_command_def obj_deal_def reply_def)
  then show ?thesis using result_param_ready [OF r, of os] assms(2) by simp
qed

lemma ready_stream: "ready v con n c \<Longrightarrow> ready v con (put_con con (c\<lparr>c_stream := s\<rparr>) n) (c\<lparr>c_stream := s\<rparr>)"
  by (simp add: ready_def)

text \<open>The connection after it has sent \<open>d\<close> and its parser is in state \<open>s\<close>.\<close>

definition after :: "zconn \<Rightarrow> bytes \<Rightarrow> cstream \<Rightarrow> zconn \<Rightarrow> bool" where
  "after c d s c' \<longleftrightarrow> (\<exists>q sent t. c' = c\<lparr>c_ring := q, c_sent := c_sent c @ sent, c_tries := t, c_stream := s\<rparr> \<and>
     rq_inv 4096 q \<and> contents q = [] \<and> concat sent = d)"

lemma after_ready:
  assumes "ready v con n c" and "after c d s c'"
  shows "ready v con (put_con con c' (n\<lparr>n_sv := sv\<rparr>)) c'" and "con_view con (put_con con c' (n\<lparr>n_sv := sv\<rparr>)) = con_view con n"
  using assms by (auto simp: ready_def after_def con_view_def)

lemma after_refl: "ready v con n c \<Longrightarrow> after c [] s (c\<lparr>c_stream := s\<rparr>)"
  by (auto simp: after_def ready_def intro!: exI [of _ "c_ring c"] exI [of _ "[]"] exI [of _ "c_tries c"])

lemma after_sent: "after c d s c1 \<Longrightarrow> sent_by c1 d' c2 \<Longrightarrow> after c (d @ d') s c2"
proof -
  assume "after c d s c1" and "sent_by c1 d' c2"
  then obtain q ss t q' ss' t' where "c1 = c\<lparr>c_ring := q, c_sent := c_sent c @ ss, c_tries := t, c_stream := s\<rparr>" "concat ss = d"
      "c2 = c1\<lparr>c_ring := q', c_sent := c_sent c1 @ ss', c_tries := t'\<rparr>" "rq_inv 4096 q'" "contents q' = []" "concat ss' = d'"
    by (auto simp: sent_by_def after_def)
  then show "after c (d @ d') s c2"
    unfolding after_def by (intro exI [of _ q'] exI [of _ "ss @ ss'"] exI [of _ t']) simp
qed

lemma after_trans: "after c d s c1 \<Longrightarrow> after c1 d' s' c2 \<Longrightarrow> after c (d @ d') s' c2"
proof -
  assume "after c d s c1" and "after c1 d' s' c2"
  then obtain q ss t q' ss' t' where "c1 = c\<lparr>c_ring := q, c_sent := c_sent c @ ss, c_tries := t, c_stream := s\<rparr>" "concat ss = d"
      "c2 = c1\<lparr>c_ring := q', c_sent := c_sent c1 @ ss', c_tries := t', c_stream := s'\<rparr>" "rq_inv 4096 q'" "contents q' = []" "concat ss' = d'"
    by (auto simp: after_def)
  then show "after c (d @ d') s' c2"
    unfolding after_def by (intro exI [of _ q'] exI [of _ "ss @ ss'"] exI [of _ t']) simp
qed

lemma upd_con_put: "om_find (n_cons n) con = Some c \<Longrightarrow> upd_con con f n = put_con con (f c) n"
  by (simp add: upd_con_def)

section \<open>Reading\<close>

lemma read_loop_ttl:
  assumes "ready v con n c" and "om_inv (n_cons n)" and "\<forall>p\<in>set ps. keyword p 1 = Some ''TTL''"
    and "on_read_loop fuel (con_view con n) (c_stream c) = Some (s', r', ps)" and "r' \<noteq> - 2"
  shows "\<exists>c'. con_read_loop fuel v con n = Some (put_con con c' (n\<lparr>n_sv := fst (ttl_runs v ps (n_sv n))\<rparr>)) \<and>
    after c (snd (ttl_runs v ps (n_sv n))) s' c'"
  using assms
proof (induct fuel arbitrary: n c ps)
  case (Suc fuel)
  have c: "om_find (n_cons n) con = Some c" using Suc.prems(1) by (simp add: ready_def)
  obtain s1 r req lg where a: "analyze (rq_count (cs_ring (c_stream c))) (con_view con n) (c_stream c) = Some (s1, r, req, lg)"
    using Suc.prems(4) by (auto split: option.splits)
  let ?c1 = "c\<lparr>c_stream := s1\<rparr>" and ?n1 = "put_con con (c\<lparr>c_stream := s1\<rparr>) n"
  have n1: "bcast_all v con lg (upd_con con (\<lambda>c. c\<lparr>c_stream := s1\<rparr>) n) = ?n1"
    using bcast_quiet(2) [OF ready_stream [OF Suc.prems(1)]] by (simp add: upd_con_put [OF c])
  note a1 = after_refl [OF Suc.prems(1), of s1]
  show ?case
  proof (cases req)
    case None
    with Suc.prems(4) a have e: "s' = s1" "r = r'" "ps = []" by auto
    then have "con_read_loop (Suc fuel) v con n = Some ?n1" using c a n1 None Suc.prems(5) by (simp add: Let_def)
    then show ?thesis using a1 e by (intro exI [of _ ?c1]) simp
  next
    case (Some p)
    with Suc.prems(4) a obtain ps' where ps: "ps = p # ps'" "on_read_loop fuel (con_view con n) s1 = Some (s', r', ps')"
      by (auto split: option.splits)
    obtain sv os where t: "ttl_execute (ne_ms v) (ne_local v) (ne_z v) p (n_sv n) = (sv, os)" by fastforce
    obtain c2 where c2: "on_command v p con ?n1 = put_con con c2 (?n1\<lparr>n_sv := sv\<rparr>)" "sent_by ?c1 (reply_bytes os) c2"
      using on_command_ttl [OF ready_stream [OF Suc.prems(1)], of s1 p sv os] Suc.prems(2,3) ps(1) t by auto
    have a2: "after c (reply_bytes os) s1 c2" using after_sent [OF a1 c2(2)] by simp
    let ?n2 = "put_con con c2 (n\<lparr>n_sv := sv\<rparr>)"
    have st: "c_stream c2 = s1" using a2 by (auto simp: after_def)
    note r2 = after_ready [where sv = sv, OF Suc.prems(1) a2]
    obtain c3 where c3: "con_read_loop fuel v con ?n2 = Some (put_con con c3 (?n2\<lparr>n_sv := fst (ttl_runs v ps' sv)\<rparr>))"
        "after c2 (snd (ttl_runs v ps' sv)) s' c3"
      using Suc.hyps [OF r2(1), of ps'] Suc.prems(2,3,5) ps r2(2) st by auto
    have "con_read_loop (Suc fuel) v con n = con_read_loop fuel v con ?n2"
      using c a n1 Some c2(1) by (simp add: Let_def)
    then show ?thesis
      using c3(1) after_trans [OF a2 c3(2)] t ps(1) by (intro exI [of _ c3]) (simp add: case_prod_unfold Let_def)
  qed
qed simp

lemma read_ttl:
  assumes "ready v con n c" and "om_inv (n_cons n)" and "\<forall>p\<in>set ps. keyword p 1 = Some ''TTL''"
    and "on_read (con_view con n) (c_stream c) d = Some (s', r', ps)" and "r' \<noteq> - 2"
  shows "\<exists>c'. con_read v con d n = Some (put_con con c' (n\<lparr>n_sv := fst (ttl_runs v ps (n_sv n))\<rparr>)) \<and>
    after c (snd (ttl_runs v ps (n_sv n))) s' c'"
proof (cases "d = []")
  case True
  have "put_con con c n = n" using assms(1,2) by (simp add: ready_def om_put_same)
  then show ?thesis using True assms(4) after_refl [OF assms(1), of "c_stream c"]
    by (intro exI [of _ c]) (auto simp: on_read_def con_read_def)
next
  case False
  let ?s = "recv_pieces (c_stream c) d"
  let ?n = "put_con con (c\<lparr>c_stream := ?s\<rparr>) n"
  have c: "om_find (n_cons n) con = Some c" using assms(1) by (simp add: ready_def)
  have view: "con_view con ?n = con_view con n" by (simp add: con_view_def c)
  have l: "on_read_loop (rq_count (cs_ring ?s) + 1) (con_view con ?n) (c_stream (c\<lparr>c_stream := ?s\<rparr>)) = Some (s', r', ps)"
    using assms(4) False unfolding view by (simp add: on_read_def Let_def del: on_read_loop.simps)
  obtain c' where c': "con_read_loop (rq_count (cs_ring ?s) + 1) v con ?n =
      Some (put_con con c' (?n\<lparr>n_sv := fst (ttl_runs v ps (n_sv n))\<rparr>))"
      "after (c\<lparr>c_stream := ?s\<rparr>) (snd (ttl_runs v ps (n_sv n))) s' c'"
    using read_loop_ttl [OF ready_stream [OF assms(1)] _ assms(3) l assms(5)] assms(2)
    by (auto simp del: con_read_loop.simps)
  have "con_read v con d n = con_read_loop (rq_count (cs_ring ?s) + 1) v con ?n"
    using False c by (simp add: con_read_def upd_con_put del: con_read_loop.simps)
  moreover have "after c (snd (ttl_runs v ps (n_sv n))) s' c'"
    using after_trans [OF after_refl [OF assms(1), of ?s] c'(2)] by simp
  ultimately show ?thesis using c'(1) by (intro exI [of _ c']) (simp del: con_read_loop.simps)
qed

text \<open>The chunks that arrive on a connection, one after the other.\<close>

fun con_reads :: "nenv \<Rightarrow> con \<Rightarrow> bytes list \<Rightarrow> znet \<Rightarrow> znet option" where
  "con_reads v con [] n = Some n"
| "con_reads v con (d # ds) n = (case con_read v con d n of None \<Rightarrow> None | Some n' \<Rightarrow> con_reads v con ds n')"

lemma ttl_runs_append:
  "ttl_runs v (ps @ qs) sv =
     (fst (ttl_runs v qs (fst (ttl_runs v ps sv))), snd (ttl_runs v ps sv) @ snd (ttl_runs v qs (fst (ttl_runs v ps sv))))"
  by (induct ps arbitrary: sv) (simp_all add: case_prod_unfold Let_def)

lemma reads_ttl:
  assumes "ready v con n c" and "om_inv (n_cons n)" and "\<forall>p\<in>set ps. keyword p 1 = Some ''TTL''"
    and "on_reads (con_view con n) (c_stream c) ds = Some (s', - 1, ps)"
  shows "\<exists>c'. con_reads v con ds n = Some (put_con con c' (n\<lparr>n_sv := fst (ttl_runs v ps (n_sv n))\<rparr>)) \<and>
    after c (snd (ttl_runs v ps (n_sv n))) s' c'"
  using assms
proof (induct ds arbitrary: n c ps)
  case Nil
  then have "put_con con c n = n" by (simp add: ready_def om_put_same)
  then show ?case using Nil after_refl [OF Nil.prems(1), of "c_stream c"] by (intro exI [of _ c]) auto
next
  case (Cons d ds)
  obtain s1 r1 ps1 where r: "on_read (con_view con n) (c_stream c) d = Some (s1, r1, ps1)"
    using Cons.prems(4) by (auto split: option.splits)
  have r1: "r1 \<noteq> - 2" using Cons.prems(4) r by auto
  obtain ps2 where ps: "ps = ps1 @ ps2" "on_reads (con_view con n) s1 ds = Some (s', - 1, ps2)"
    using Cons.prems(4) r r1 by (auto split: option.splits)
  let ?sv = "fst (ttl_runs v ps1 (n_sv n))"
  obtain c1 where c1: "con_read v con d n = Some (put_con con c1 (n\<lparr>n_sv := ?sv\<rparr>))"
      "after c (snd (ttl_runs v ps1 (n_sv n))) s1 c1"
    using read_ttl [OF Cons.prems(1,2) _ r r1] Cons.prems(3) ps(1) by auto
  let ?n1 = "put_con con c1 (n\<lparr>n_sv := ?sv\<rparr>)"
  note rd = after_ready [where sv = ?sv, OF Cons.prems(1) c1(2)]
  have "c_stream c1 = s1" using c1(2) by (auto simp: after_def)
  then obtain c2 where "con_reads v con ds ?n1 = Some (put_con con c2 (?n1\<lparr>n_sv := fst (ttl_runs v ps2 ?sv)\<rparr>))"
      "after c1 (snd (ttl_runs v ps2 ?sv)) s' c2"
    using Cons.hyps [OF rd(1), of ps2] Cons.prems(2,3) ps rd(2) by auto
  then show ?case
    using c1 after_trans [OF c1(2)] by (intro exI [of _ c2]) (simp add: ps(1) ttl_runs_append)
qed

section \<open>Requests and replies\<close>

lemma get_request:
  "i < length args \<Longrightarrow> istream_get (request args) (Suc i) = Some (args ! i @ [NUL, LF], int (length (args ! i)))"
  "length args \<le> i \<Longrightarrow> istream_get (request args) (Suc i) = None"
  by (simp_all add: istream_get_def st_line_def unit_of_def pu_pos_def Let_def)

lemma request_string: "i < length args \<Longrightarrow> no_nul (args ! i) \<Longrightarrow> istream_to_string (request args) (Suc i) = args ! i"
  by (simp add: istream_to_string_def get_request)

lemma length_itostr_u32: "n < 2 ^ 32 \<Longrightarrow> length (itostr (int n)) \<le> 10"
  using length_zltoa_rec [of n 10] by (simp add: itostr_nat)

lemma request_param:
  "i < length args \<Longrightarrow> args ! i = itostr (int k) \<Longrightarrow> k < 2 ^ 32 \<Longrightarrow> param_u32 (request args) (Suc i) = of_nat k"
  using atol_itostr [of "[]" k] by (simp add: param_u32_def istream_to_integer_def request_string unsigned_of_nat take_bit_nat_eq_self)

lemma strupr_upper: "no_nul a \<Longrightarrow> strupr_mem (a @ [NUL, LF]) = map toupper a @ [NUL, LF]"
  by (simp add: strupr_mem_def strupr_def)

lemma toupper_NUL: "toupper c = NUL \<longleftrightarrow> c = NUL"
proof -
  have "char_of n \<noteq> NUL" if "65 \<le> n" "n \<le> 90" for n :: nat
  proof
    assume "char_of n = NUL"
    then have "of_char (char_of n) = (of_char NUL :: nat)" by (rule arg_cong)
    with that show False by simp
  qed
  then have "toupper c \<noteq> NUL \<and> c \<noteq> NUL" if "97 \<le> (of_char c :: nat)" "(of_char c :: nat) \<le> 122"
    using that by (auto simp: toupper_def)
  then show ?thesis by (cases "97 \<le> (of_char c :: nat) \<and> (of_char c :: nat) \<le> 122") (auto simp: toupper_def)
qed

lemma no_nul_upper [simp]: "no_nul (map toupper a) \<longleftrightarrow> no_nul a"
  by (induct a) (auto simp: toupper_NUL)

lemma request_keyword:
  "i < length args \<Longrightarrow> no_nul (args ! i) \<Longrightarrow> map toupper (args ! i) = kw \<Longrightarrow> keyword (request args) (Suc i) = Some kw"
  by (auto simp: keyword_def get_request strupr_upper)

lemma reply_array:
  assumes "wf_args xs"
  shows "reply_bytes (foldl os_push_str (Os_array []) xs) = wire xs"
  using request_bytes_wire [OF assms] os_serialize_spec [of rq_new "foldl os_push_str (Os_array []) xs"]
  by (simp add: request_bytes_def)

lemma io_OK_push: "io_OK (Os_array us) = os_push_str (Os_array us) ''OK''"
  by (simp add: io_OK_def os_push_cstr_def cstr_def)

lemma push_buf_str: "d \<noteq> [] \<Longrightarrow> os_push_buf (os_push_str (Os_array us) a) d = os_push_str (os_push_str (Os_array us) a) d"
  by simp

text \<open>SET without an expiry time, and GET, as requests.\<close>

definition set_request :: "nat \<Rightarrow> string \<Rightarrow> bytes \<Rightarrow> bytes list" where
  "set_request s k d = [''TTL'', itostr (int s), ''KEY'', k, ''SET'', d]"

definition get_request_of :: "nat \<Rightarrow> string \<Rightarrow> bytes list" where
  "get_request_of s k = [''TTL'', itostr (int s), ''KEY'', k, ''GET'']"

lemma ttl_prefix:
  assumes "args = [''TTL'', itostr (int s), ''KEY'', k, kw] @ rest" and "s < 2 ^ 32" and "no_nul k" and "k \<noteq> []"
    and "no_nul kw" and "map toupper kw = kw" and "get_cmdId kw = Some cm"
  shows "ttl_execute ms lc e (request args) sv = cmd_exec ms lc e cm k (request args) 5 sv (os_push_str (Os_array []) (itostr (int s)))"
proof -
  have len: "length args = 5 + length rest" using assms(1) by simp
  have a3: "istream_get (request args) 3 = Some (''KEY'' @ [NUL, LF], 3)"
    using get_request(1) [of 2 args] len by (simp add: assms(1))
  have a4: "istream_to_string (request args) 4 = k"
    using request_string [of 3 args] len assms(3) by (simp add: assms(1))
  have a5: "keyword (request args) 5 = Some kw"
    using request_keyword [of 4 args kw] len assms(5,6) by (simp add: assms(1))
  have a2: "param_u32 (request args) 2 = of_nat s"
    using request_param [of 1 args s] len assms(2) by (simp add: assms(1) numeral_2_eq_2)
  have "is_key_word (take (nat 3) (strupr_mem (''KEY'' @ [NUL, LF])))" by code_simp
  then show ?thesis
    using assms(2,4,7) unfolding ttl_execute_def a2 a3 a4 a5 Let_def option.case prod.case by (simp add: unat_of_nat_u32)
qed

lemma set_runs:
  assumes "ttl_execute ms lc e (request (set_request s k d)) sv = (sv1, os)" and "db_reliable (sv_db sv)"
    and "s < 2 ^ 32" and "no_nul k" and "k \<noteq> []" and "length d + HEAD_LEN \<le> MAX_VALUE_LEN"
  shows "os = foldl os_push_str (Os_array []) [itostr (int s), ''OK'']"
    and "sv_db sv1 = fst (db_write (sv_db sv) [Batch_Put k (snd (get_Slice (base_head T_GET_SET) d (time32 e - 1)))])"
proof -
  let ?p = "request (set_request s k d)" and ?io = "os_push_str (Os_array []) (itostr (int s))"
  have g: "get_cmdId ''SET'' = Some C_set" by code_simp
  have t: "ttl_execute ms lc e ?p sv = set_exec e k ?p 5 sv ?io"
    using ttl_prefix [of "set_request s k d" s k "''SET''" "[d]", OF _ assms(3-5) _ _ g]
    by (simp add: set_request_def toupper_def)
  have "istream_get ?p (5 + 1) = Some (d @ [NUL, LF], int (length d))"
    using get_request(1) [of 5 "set_request s k d"] by (simp add: set_request_def)
  moreover have "istream_get ?p (5 + 2) = None"
    using get_request(2) [of "set_request s k d" 6] by (simp add: set_request_def)
  ultimately have r: "snd (set_exec e k ?p 5 sv ?io) = io_OK ?io"
    "sv_db (fst (set_exec e k ?p 5 sv ?io)) =
      fst (db_write (sv_db sv) [Batch_Put k (snd (get_Slice (base_head T_GET_SET) d (time32 e - 1)))])"
    using set_exec_permanent [OF assms(2), of ?p 5 "d @ [NUL, LF]" "int (length d)" d] assms(6) by simp_all
  show "os = foldl os_push_str (Os_array []) [itostr (int s), ''OK'']"
    using r(1) assms(1) t by (simp add: io_OK_push)
  show "sv_db sv1 = fst (db_write (sv_db sv) [Batch_Put k (snd (get_Slice (base_head T_GET_SET) d (time32 e - 1)))])"
    using r(2) assms(1) t by simp
qed

lemma get_runs:
  assumes "db_get (sv_db sv) k = Some (snd (get_Slice (base_head T_GET_SET) d t))" and "d \<noteq> []"
    and "s < 2 ^ 32" and "no_nul k" and "k \<noteq> []"
  shows "ttl_execute ms lc e (request (get_request_of s k)) sv =
    (sv, foldl os_push_str (Os_array []) [itostr (int s), ''OK'', d])"
proof -
  have g: "get_cmdId ''GET'' = Some C_get" by code_simp
  have "ttl_execute ms lc e (request (get_request_of s k)) sv =
      get_exec k (request (get_request_of s k)) 5 sv (os_push_str (Os_array []) (itostr (int s)))"
    using ttl_prefix [of "get_request_of s k" s k "''GET''" "[]", OF _ assms(3-5) _ _ g]
    by (simp add: get_request_of_def toupper_def)
  then show ?thesis using get_exec_slice [OF assms(1,2)] assms(2) by (simp add: io_OK_push)
qed

lemma reads_requests:
  assumes "net_reach n" and "ready v con n c" and "c_stream c = cstream_new"
    and "list_all (\<lambda>args. wf_args args \<and> map toupper (hd args) = ''TTL'') cmds"
    and "list_all (\<lambda>d. d \<noteq> [] \<and> length d \<le> 3072) chunks" and "concat chunks = concat (map request_bytes cmds)"
  shows "\<exists>n' c'. con_reads v con chunks n = Some n' \<and> om_find (n_cons n') con = Some c' \<and>
    n_sv n' = fst (ttl_runs v (map request cmds) (n_sv n)) \<and>
    concat (c_sent c') = concat (c_sent c) @ snd (ttl_runs v (map request cmds) (n_sv n))"
proof -
  have wf: "list_all wf_args cmds" using assms(4) by (simp add: list_all_iff)
  then have "map request_bytes cmds = map wire cmds" by (simp add: list_all_iff request_bytes_wire)
  with assms(6) have w: "concat chunks = concat (map wire cmds)" by (simp only:)
  have "cmds = [] \<or> chunks \<noteq> []" using w by (cases cmds) (auto simp: wire_def)
  from on_reads_requests [OF _ wf assms(5) this, of "c_stream c" "con_view con n"] w assms(3)
  obtain s' where s': "on_reads (con_view con n) (c_stream c) chunks = Some (s', - 1, map request cmds)" by blast
  have k: "keyword (request args) 1 = Some ''TTL''" if "args \<in> set cmds" for args
  proof -
    have a: "args \<noteq> []" "map toupper (hd args) = ''TTL''" using that assms(4) by (auto simp: list_all_iff wf_args_def)
    have "no_nul (map toupper (hd args))" unfolding a(2) by simp
    then show ?thesis using request_keyword [of 0 args "''TTL''"] a by (simp add: hd_conv_nth)
  qed
  have "om_inv (n_cons n)" using net_inv_reach [OF assms(1)] by (simp add: net_inv_def)
  from reads_ttl [OF assms(2) this _ s'] k obtain c' where
    "con_reads v con chunks n = Some (put_con con c' (n\<lparr>n_sv := fst (ttl_runs v (map request cmds) (n_sv n))\<rparr>))"
    "after c (snd (ttl_runs v (map request cmds) (n_sv n))) s' c'" by auto
  then show ?thesis by (auto simp: after_def)
qed

lemma ready_example:
  "\<exists>n c v. net_reach n \<and> ready v 4 n c \<and> c_stream c = cstream_new \<and> c_sent c = [] \<and> db_reliable (w_db (sv_w (n_sv n)))"
proof -
  define e where "e = \<lparr>now = 1000, cfg = server_default, junk = 0\<rparr>"
  define v where "v = \<lparr>ne_z = e, ne_local = \<lparr>lc_stamp = (\<lambda>_. ''t''), lc_unix = (\<lambda>_. 0)\<rparr>, ne_ms = 0, ne_tid = 0,
    ne_ok = (\<lambda>_ _. True), ne_sec = 1000, ne_usec = 0, ne_ver = ''1'', ne_file = None, ne_stack = [], ne_popen = (\<lambda>_. None)\<rparr>"
  let ?s = "net_start e Conf_no_auth \<lparr>db_map = [], db_ok = (\<lambda>_. True), db_tick = 0\<rparr>"
  let ?n = "con_open 0 ''10.0.0.1'' 80 4 ?s" and ?c = "con_new 0 ''10.0.0.1'' 80 0"
  have "net_reach ?s" by (rule net_reach_start) (simp add: db_inv_def)
  then have r: "net_reach ?n" by (rule net_reach_step [OF _ net_open]) (simp add: net_start_def)
  have "obj_allowed 1 O_ttl" by code_simp
  then have "ready v 4 ?n ?c"
    by (simp add: ready_def v_def con_open_def net_start_def bcast_get_def bcasts_new_def con_new_def)
  moreover have "db_reliable (w_db (sv_w (n_sv ?n)))"
    by (simp add: db_reliable_def db_inv_def con_open_def net_start_def server_start_def bcast_get_def bcasts_new_def)
  ultimately show ?thesis
    using r by (intro exI [of _ ?n] exI [of _ ?c] exI [of _ v]) (simp add: con_new_def)
qed

end
