(* ===== verification/LdbCoding.thy ===== *)
theory LdbCoding
  imports Prelude
begin

text \<open>
  The encodings of the leveldb library (src/zcloud/leveldb/util/coding.cc and coding.h): fixed-width
  integers, variable-length integers and length-prefixed strings.  A pointer with its limit is the list
  of the bytes between them; the host is little-endian.
\<close>

section \<open>Fixed width\<close>

definition encode_fixed32 :: "u32 \<Rightarrow> bytes" where
  "encode_fixed32 value = le_bytes 4 (unat value)"

definition encode_fixed64 :: "u64 \<Rightarrow> bytes" where
  "encode_fixed64 value = le_bytes 8 (unat value)"

definition decode_fixed32 :: "bytes \<Rightarrow> u32" where
  "decode_fixed32 ptr = of_nat (le_val (take 4 ptr))"

definition decode_fixed64 :: "bytes \<Rightarrow> u64" where
  "decode_fixed64 ptr = of_nat (le_val (take 8 ptr))"

definition put_fixed32 :: "bytes \<Rightarrow> u32 \<Rightarrow> bytes" where
  "put_fixed32 dst value = dst @ encode_fixed32 value"

definition put_fixed64 :: "bytes \<Rightarrow> u64 \<Rightarrow> bytes" where
  "put_fixed64 dst value = dst @ encode_fixed64 value"

section \<open>Variable width\<close>

text \<open>Storing an integer through a pointer to \<^verbatim>\<open>unsigned char\<close> keeps its low eight bits.\<close>

definition uchar :: "'a :: len word \<Rightarrow> char" where
  "uchar w = char_of (unat w)"

definition encode_varint32 :: "u32 \<Rightarrow> bytes" where
  "encode_varint32 v =
     (if v < 2 ^ 7 then [uchar v]
      else if v < 2 ^ 14 then [uchar (v OR 128), uchar (drop_bit 7 v)]
      else if v < 2 ^ 21 then [uchar (v OR 128), uchar (drop_bit 7 v OR 128), uchar (drop_bit 14 v)]
      else if v < 2 ^ 28 then
        [uchar (v OR 128), uchar (drop_bit 7 v OR 128), uchar (drop_bit 14 v OR 128), uchar (drop_bit 21 v)]
      else [uchar (v OR 128), uchar (drop_bit 7 v OR 128), uchar (drop_bit 14 v OR 128),
        uchar (drop_bit 21 v OR 128), uchar (drop_bit 28 v)])"

definition put_varint32 :: "bytes \<Rightarrow> u32 \<Rightarrow> bytes" where
  "put_varint32 dst v = dst @ encode_varint32 v"

function encode_varint64 :: "u64 \<Rightarrow> bytes" where
  "encode_varint64 v =
     (if v \<ge> 128 then uchar ((v AND 127) OR 128) # encode_varint64 (drop_bit 7 v) else [uchar v])"
  by pat_completeness auto
termination
proof (relation "measure unat")
  fix v :: u64
  assume "128 \<le> v"
  then have "128 \<le> unat v" by (simp add: word_le_nat_alt)
  then show "(drop_bit 7 v, v) \<in> measure unat" by (simp add: unat_drop_bit_eq drop_bit_nat_def)
qed simp

declare encode_varint64.simps [simp del]

definition put_varint64 :: "bytes \<Rightarrow> u64 \<Rightarrow> bytes" where
  "put_varint64 dst v = dst @ encode_varint64 v"

function varint_length_loop :: "u64 \<Rightarrow> nat \<Rightarrow> nat" where
  "varint_length_loop v len = (if v \<ge> 128 then varint_length_loop (drop_bit 7 v) (len + 1) else len)"
  by pat_completeness auto
termination
proof (relation "measure (unat \<circ> fst)")
  fix v :: u64 and len :: nat
  assume "128 \<le> v"
  then have "128 \<le> unat v" by (simp add: word_le_nat_alt)
  then show "((drop_bit 7 v, len + 1), v, len) \<in> measure (unat \<circ> fst)"
    by (simp add: unat_drop_bit_eq drop_bit_nat_def)
qed simp

declare varint_length_loop.simps [simp del]

definition varint_length :: "u64 \<Rightarrow> nat" where
  "varint_length v = varint_length_loop v 1"

fun get_varint32_loop :: "nat \<Rightarrow> u32 \<Rightarrow> bytes \<Rightarrow> (u32 \<times> bytes) option" where
  "get_varint32_loop shift result [] = None"
| "get_varint32_loop shift result (c # p) =
     (if shift \<le> 28 then
        let byte = of_char c :: u32
        in if byte AND 128 \<noteq> 0 then get_varint32_loop (shift + 7) (result OR push_bit shift (byte AND 127)) p
           else Some (result OR push_bit shift byte, p)
      else None)"

definition get_varint32_ptr_fallback :: "bytes \<Rightarrow> (u32 \<times> bytes) option" where
  "get_varint32_ptr_fallback p = get_varint32_loop 0 0 p"

definition get_varint32_ptr :: "bytes \<Rightarrow> (u32 \<times> bytes) option" where
  "get_varint32_ptr p =
     (case p of
        [] \<Rightarrow> get_varint32_ptr_fallback p
      | c # q \<Rightarrow> if (of_char c :: u32) AND 128 = 0 then Some (of_char c, q) else get_varint32_ptr_fallback p)"

fun get_varint64_loop :: "nat \<Rightarrow> u64 \<Rightarrow> bytes \<Rightarrow> (u64 \<times> bytes) option" where
  "get_varint64_loop shift result [] = None"
| "get_varint64_loop shift result (c # p) =
     (if shift \<le> 63 then
        let byte = of_char c :: u64
        in if byte AND 128 \<noteq> 0 then get_varint64_loop (shift + 7) (result OR push_bit shift (byte AND 127)) p
           else Some (result OR push_bit shift byte, p)
      else None)"

definition get_varint64_ptr :: "bytes \<Rightarrow> (u64 \<times> bytes) option" where
  "get_varint64_ptr p = get_varint64_loop 0 0 p"

section \<open>Length-prefixed strings\<close>

definition put_length_prefixed_slice :: "bytes \<Rightarrow> bytes \<Rightarrow> bytes" where
  "put_length_prefixed_slice dst value = put_varint32 dst (of_nat (length value)) @ value"

definition get_length_prefixed_slice :: "bytes \<Rightarrow> (bytes \<times> bytes) option" where
  "get_length_prefixed_slice input =
     (case get_varint32_ptr input of
        None \<Rightarrow> None
      | Some (len, input') \<Rightarrow>
          if length input' \<ge> unat len then Some (take (unat len) input', drop (unat len) input') else None)"

section \<open>Reference encoding\<close>

text \<open>Base 128, least significant digit first, with the high bit on all digits but the last.\<close>

fun varint :: "nat \<Rightarrow> bytes" where
  "varint n = (if n < 128 then [char_of n] else char_of (n mod 128 + 128) # varint (n div 128))"

declare varint.simps [simp del]

lemma varint_small: "n < 128 \<Longrightarrow> varint n = [char_of n]"
  by (simp add: varint.simps [of n])

lemma varint_step: "128 \<le> n \<Longrightarrow> varint n = char_of (n mod 128 + 128) # varint (n div 128)"
  by (simp add: varint.simps [of n])

lemma uchar_low: "uchar w = char_of (unat w mod 256)"
  by (simp add: uchar_def)

lemma or_128_add:
  assumes "(m :: nat) < 128"
  shows "m OR 128 = m + 128"
proof -
  have "bit (128 :: nat) n \<longleftrightarrow> n = 7" for n
    using bit_exp_iff [of 7 n, where 'a = nat] by simp
  moreover have "\<not> bit m 7" using assms by (simp add: bit_iff_odd)
  ultimately have "m AND 128 = 0" by (auto intro!: bit_eqI simp: bit_and_iff)
  then show ?thesis by (simp add: disjunctive_add_eq_or)
qed

lemma or_128_mod: "(n OR 128) mod 256 = n mod 128 + (128 :: nat)"
proof -
  have "(n OR 128) mod 256 = take_bit 8 (n OR 128)" by (simp add: take_bit_eq_mod)
  also have "\<dots> = take_bit 8 n OR take_bit 8 128" by (rule take_bit_or)
  also have "\<dots> = (n mod 256) OR 128" by (simp only: take_bit_eq_mod) simp
  also have "\<dots> = n mod 128 + 128"
  proof (cases "n mod 256 < 128")
    case True
    then have "n mod 256 = n mod 128" by (metis mod_less mod_mod_cancel dvd_def numeral_Bit0 mult_2_right mult_2)
    then show ?thesis using or_128_add [of "n mod 128"] by simp
  next
    case False
    have "n mod 256 = n mod 128 + 128 * (n div 128 mod 2)" using mod_mult2_eq [of n 128 2] by simp
    moreover from this have "n div 128 mod 2 = 1" using False by (cases "n div 128 mod 2") auto
    ultimately have "n mod 256 = n mod 128 OR 128" using or_128_add [of "n mod 128"] by simp
    then have "n mod 256 OR 128 = n mod 128 OR 128" by (simp only: or.assoc or.idem)
    then show ?thesis using or_128_add [of "n mod 128"] by simp
  qed
  finally show ?thesis .
qed

lemma uchar_or_128: "uchar (v OR 128 :: u32) = char_of (unat v mod 128 + 128)"
proof -
  have "unat (v OR 128) = unat v OR 128" by (simp add: unsigned_or_eq)
  then show ?thesis unfolding uchar_low by (simp add: or_128_mod)
qed

text \<open>The unrolled routine and the loop both compute the reference encoding.\<close>

lemma encode_varint32_eq: "encode_varint32 v = varint (unat v)"
proof -
  have d: "unat (drop_bit k v) = unat v div 2 ^ k" for k
    by (simp add: unat_drop_bit_eq drop_bit_nat_def)
  have u: "uchar (drop_bit k v) = char_of (unat v div 2 ^ k)" for k by (simp only: uchar_def d)
  have s: "varint n = char_of (n mod 128 + 128) # varint (n div 128)" if "128 \<le> n" for n
    using that by (rule varint_step)
  have b: "unat v < 2 ^ 32" using unsigned_less [of v] by simp
  consider "unat v < 2 ^ 7" | "2 ^ 7 \<le> unat v" "unat v < 2 ^ 14" | "2 ^ 14 \<le> unat v" "unat v < 2 ^ 21"
    | "2 ^ 21 \<le> unat v" "unat v < 2 ^ 28" | "2 ^ 28 \<le> unat v" by linarith
  then show ?thesis
  proof cases
    case 1
    then show ?thesis by (simp add: encode_varint32_def word_less_nat_alt varint_small uchar_def)
  next
    case 2
    then show ?thesis
      by (simp add: encode_varint32_def word_less_nat_alt s varint_small uchar_or_128 d u)
  next
    case 3
    then show ?thesis
      by (simp add: encode_varint32_def word_less_nat_alt s varint_small uchar_or_128 d u
          flip: div_mult2_eq)
  next
    case 4
    then show ?thesis
      by (simp add: encode_varint32_def word_less_nat_alt s varint_small uchar_or_128 d u
          flip: div_mult2_eq)
  next
    case 5
    then show ?thesis using b
      by (simp add: encode_varint32_def word_less_nat_alt s varint_small uchar_or_128 d u
          flip: div_mult2_eq)
  qed
qed

lemma encode_varint64_eq: "encode_varint64 v = varint (unat v)"
proof (induct v rule: encode_varint64.induct)
  case (1 v)
  have d: "unat (drop_bit 7 v) = unat v div 128" by (simp add: unat_drop_bit_eq drop_bit_nat_def)
  show ?case
  proof (cases "v \<ge> 128")
    case True
    have "unat ((v AND 127) OR 128) mod 256 = unat v mod 128 + 128"
    proof -
      have "v AND 127 = take_bit 7 v" by (simp add: take_bit_eq_mask mask_eq_exp_minus_1)
      then have "unat ((v AND 127) OR 128) = (unat v mod 128) OR 128"
        by (simp add: unsigned_or_eq unsigned_take_bit_eq take_bit_eq_mod [of 7 "unat v"])
      then show ?thesis using or_128_mod [of "unat v mod 128"] by simp
    qed
    then have "uchar ((v AND 127) OR 128) = char_of (unat v mod 128 + 128)" by (simp only: uchar_low)
    then show ?thesis
      using 1 [OF True] True
      by (simp add: encode_varint64.simps [of v] varint_step word_le_nat_alt d)
  next
    case False
    then show ?thesis
      by (simp add: encode_varint64.simps [of v] varint_small word_le_nat_alt uchar_def)
  qed
qed

section \<open>Decoding\<close>

lemma of_char_of_nat: "n < 256 \<Longrightarrow> (of_char (char_of n) :: 'a :: len word) = of_nat n"
proof -
  assume "n < 256"
  then have "of_char (char_of n) = (n :: nat)" by simp
  then show ?thesis by (metis of_nat_of_char)
qed

lemma and_128_word:
  assumes "8 < LENGTH('a :: len)" and "n < 256"
  shows "(of_nat n :: 'a word) AND 128 = 0 \<longleftrightarrow> n < 128"
proof -
  have "bit (128 :: 'a word) k \<longleftrightarrow> k = 7" for k
    using bit_exp_iff [of 7 k, where 'a = "'a word"] assms(1) by auto
  then have b: "bit (x AND 128) k \<longleftrightarrow> bit x 7 \<and> k = 7" for x :: "'a word" and k
    by (auto simp only: bit_and_iff)
  have "(of_nat n :: 'a word) AND 128 = 0 \<longleftrightarrow> \<not> bit (of_nat n :: 'a word) 7"
    using b [of "of_nat n" 7] b [of "of_nat n"] by (metis bit_0_eq bit_eqI bot_apply bot_bool_def)
  also have "\<dots> \<longleftrightarrow> even (n div 128)" using assms(1) by (simp add: bit_of_nat_iff bit_iff_odd [of n])
  also have "\<dots> \<longleftrightarrow> n < 128"
  proof -
    have "n div 128 < 2" using assms(2) by simp
    then show ?thesis by (cases "n < 128") (auto simp: less_2_cases_iff div_eq_0_iff)
  qed
  finally show ?thesis .
qed

lemma and_127_word: "(of_nat n :: 'a :: len word) AND 127 = of_nat (n mod 128)"
  if "7 < LENGTH('a)"
proof -
  have "(of_nat n :: 'a word) AND 127 = take_bit 7 (of_nat n)"
    by (simp add: take_bit_eq_mask mask_eq_exp_minus_1)
  also have "\<dots> = of_nat (take_bit 7 n)" by (simp add: take_bit_of_nat)
  finally show ?thesis by (simp add: take_bit_nat_def)
qed

text \<open>A number is its low seven bits together with the rest.\<close>

lemma word_split7:
  "(of_nat (n mod 128) :: 'a :: len word) OR push_bit 7 (of_nat (n div 128)) = of_nat n"
proof -
  have "take_bit 7 n OR push_bit 7 (drop_bit 7 n) = n"
  proof (rule bit_eqI)
    fix k
    show "bit (take_bit 7 n OR push_bit 7 (drop_bit 7 n)) k \<longleftrightarrow> bit n k"
      by (cases "k < 7") (simp_all add: bit_or_iff bit_take_bit_iff bit_push_bit_iff bit_drop_bit_eq)
  qed
  then have "(of_nat n :: 'a word) = of_nat (take_bit 7 n OR push_bit 7 (drop_bit 7 n))" by simp
  then show ?thesis
    by (simp only: of_nat_or_eq of_nat_push_bit) (simp add: take_bit_nat_def drop_bit_nat_def)
qed

lemma get_varint32_loop_varint:
  "n < 2 ^ (32 - 7 * j) \<Longrightarrow> 7 * j \<le> 28 \<Longrightarrow>
    get_varint32_loop (7 * j) r (varint n @ rest) = Some (r OR push_bit (7 * j) (of_nat n), rest)"
proof (induct n arbitrary: j r rule: varint.induct)
  case (1 n)
  show ?case
  proof (cases "n < 128")
    case True
    then show ?thesis
      using 1(3) by (simp add: varint_small of_char_of_nat and_128_word Let_def)
  next
    case False
    have "2 ^ 7 < (2 :: nat) ^ (32 - 7 * j)" using False 1(2) by simp
    then have "7 < 32 - 7 * j" by (rule power_less_imp_less_exp [rotated]) simp
    then have j: "7 * Suc j \<le> 28" "32 - 7 * j = 7 + (32 - 7 * Suc j)" by simp_all
    have m: "n div 128 < 2 ^ (32 - 7 * Suc j)"
      using 1(2) unfolding j(2) power_add by (simp add: less_mult_imp_div_less mult.commute)
    let ?d = "n mod 128 + 128" and ?r = "r OR push_bit (7 * j) (of_nat (n mod 128))"
    have d: "(of_char (char_of ?d) :: u32) = of_nat ?d" by (rule of_char_of_nat) simp
    have a: "(of_nat ?d :: u32) AND 128 \<noteq> 0" "(of_nat ?d :: u32) AND 127 = of_nat (n mod 128)"
      using and_128_word [of ?d, where 'a = 32] and_127_word [of ?d, where 'a = 32] by simp_all
    have "get_varint32_loop (7 * j) r (varint n @ rest) = get_varint32_loop (7 * Suc j) ?r (varint (n div 128) @ rest)"
      using False 1(3) a unfolding varint_step [OF leI [OF False]]
      by (simp only: append_Cons get_varint32_loop.simps d Let_def) (simp add: add.commute)
    also have "\<dots> = Some (?r OR push_bit (7 * Suc j) (of_nat (n div 128)), rest)"
      using 1(1) [OF False m] j(1) by simp
    also have "?r OR push_bit (7 * Suc j) (of_nat (n div 128)) = r OR push_bit (7 * j) (of_nat n)"
    proof -
      have "push_bit (7 * Suc j) (of_nat (n div 128)) = push_bit (7 * j) (push_bit 7 (of_nat (n div 128) :: u32))"
        by (simp add: push_bit_push_bit add.commute)
      then show ?thesis
        by (simp only: or.assoc push_bit_or [symmetric] word_split7)
    qed
    finally show ?thesis .
  qed
qed

lemma get_varint64_loop_varint:
  "n < 2 ^ (64 - 7 * j) \<Longrightarrow> 7 * j \<le> 63 \<Longrightarrow>
    get_varint64_loop (7 * j) r (varint n @ rest) = Some (r OR push_bit (7 * j) (of_nat n), rest)"
proof (induct n arbitrary: j r rule: varint.induct)
  case (1 n)
  show ?case
  proof (cases "n < 128")
    case True
    then show ?thesis
      using 1(3) by (simp add: varint_small of_char_of_nat and_128_word Let_def)
  next
    case False
    have "2 ^ 7 < (2 :: nat) ^ (64 - 7 * j)" using False 1(2) by simp
    then have "7 < 64 - 7 * j" by (rule power_less_imp_less_exp [rotated]) simp
    then have j: "7 * Suc j \<le> 63" "64 - 7 * j = 7 + (64 - 7 * Suc j)" by simp_all
    have m: "n div 128 < 2 ^ (64 - 7 * Suc j)"
      using 1(2) unfolding j(2) power_add by (simp add: less_mult_imp_div_less mult.commute)
    let ?d = "n mod 128 + 128" and ?r = "r OR push_bit (7 * j) (of_nat (n mod 128))"
    have d: "(of_char (char_of ?d) :: u64) = of_nat ?d" by (rule of_char_of_nat) simp
    have a: "(of_nat ?d :: u64) AND 128 \<noteq> 0" "(of_nat ?d :: u64) AND 127 = of_nat (n mod 128)"
      using and_128_word [of ?d, where 'a = 64] and_127_word [of ?d, where 'a = 64] by simp_all
    have "get_varint64_loop (7 * j) r (varint n @ rest) = get_varint64_loop (7 * Suc j) ?r (varint (n div 128) @ rest)"
      using False 1(3) a unfolding varint_step [OF leI [OF False]]
      by (simp only: append_Cons get_varint64_loop.simps d Let_def) (simp add: add.commute)
    also have "\<dots> = Some (?r OR push_bit (7 * Suc j) (of_nat (n div 128)), rest)"
      using 1(1) [OF False m] j(1) by simp
    also have "?r OR push_bit (7 * Suc j) (of_nat (n div 128)) = r OR push_bit (7 * j) (of_nat n)"
    proof -
      have "push_bit (7 * Suc j) (of_nat (n div 128)) = push_bit (7 * j) (push_bit 7 (of_nat (n div 128) :: u64))"
        by (simp add: push_bit_push_bit add.commute)
      then show ?thesis
        by (simp only: or.assoc push_bit_or [symmetric] word_split7)
    qed
    finally show ?thesis .
  qed
qed

lemma get_varint32_ptr_eq: "get_varint32_ptr p = get_varint32_ptr_fallback p"
  by (cases p) (simp_all add: get_varint32_ptr_def get_varint32_ptr_fallback_def)

lemma get_varint32_encode [simp]: "get_varint32_ptr (encode_varint32 v @ rest) = Some (v, rest)"
proof -
  have "unat v < 2 ^ (32 - 7 * 0)" using unsigned_less [of v] by simp
  from get_varint32_loop_varint [OF this, of 0 rest] show ?thesis
    by (simp add: get_varint32_ptr_eq get_varint32_ptr_fallback_def encode_varint32_eq)
qed

lemma get_varint64_encode [simp]: "get_varint64_ptr (encode_varint64 v @ rest) = Some (v, rest)"
proof -
  have "unat v < 2 ^ (64 - 7 * 0)" using unsigned_less [of v] by simp
  from get_varint64_loop_varint [OF this, of 0 rest] show ?thesis
    by (simp add: get_varint64_ptr_def encode_varint64_eq)
qed

lemma length_varint: "0 < j \<Longrightarrow> n < 128 ^ j \<Longrightarrow> length (varint n) \<le> j"
proof (induct j arbitrary: n)
  case (Suc j)
  show ?case
  proof (cases "n < 128")
    case False
    with Suc.prems have "0 < j" by (cases j) simp_all
    with Suc False show ?thesis by (simp add: varint_step less_mult_imp_div_less mult.commute)
  qed (simp add: varint_small)
qed simp

lemma varint_nonempty [simp]: "varint n \<noteq> []"
  by (simp add: varint.simps [of n])

lemma unat_u64_less: "unat (w :: u64) < 18446744073709551616"
  using unsigned_less [of w] by simp

lemma length_encode_varint32: "0 < length (encode_varint32 v)" "length (encode_varint32 v) \<le> 5"
  using unat_bounds(3) [of v] length_varint [of 5 "unat v"] by (simp_all add: encode_varint32_eq)

lemma varint_length_loop_eq: "varint_length_loop v len + 1 = len + length (varint (unat v))"
proof (induct v len rule: varint_length_loop.induct)
  case (1 v len)
  have d: "unat (drop_bit 7 v) = unat v div 128" by (simp add: unat_drop_bit_eq drop_bit_nat_def)
  show ?case
  proof (cases "v \<ge> 128")
    case True
    then have "128 \<le> unat v" by (simp add: word_le_nat_alt)
    then have "length (varint (unat v)) = Suc (length (varint (unat (drop_bit 7 v))))"
      unfolding d by (subst varint_step) simp_all
    moreover have "varint_length_loop v len = varint_length_loop (drop_bit 7 v) (len + 1)"
      using True by (subst varint_length_loop.simps) simp
    ultimately show ?thesis using 1 [OF True] by linarith
  next
    case False
    then have "varint_length_loop v len = len" by (subst varint_length_loop.simps) simp
    moreover have "unat v < 128" using False by (simp add: word_le_nat_alt)
    ultimately show ?thesis by (simp add: varint_small)
  qed
qed

lemma varint_length_eq: "varint_length v = length (encode_varint64 v)"
  using varint_length_loop_eq [of v 1] by (simp add: varint_length_def encode_varint64_eq)

lemma fixed_length [simp]: "length (encode_fixed32 a) = 4" "length (encode_fixed64 b) = 8"
  by (simp_all add: encode_fixed32_def encode_fixed64_def)

lemma fixed_roundtrip [simp]:
  "decode_fixed32 (encode_fixed32 a @ rest) = a" "decode_fixed64 (encode_fixed64 b @ rest) = b"
  "decode_fixed32 (encode_fixed32 a) = a" "decode_fixed64 (encode_fixed64 b) = b"
  using unat_bounds(3) [of a] unat_u64_less [of b]
  by (simp_all add: decode_fixed32_def decode_fixed64_def encode_fixed32_def encode_fixed64_def codec_simps)

lemma length_prefixed_roundtrip:
  "length value < 2 ^ 32 \<Longrightarrow>
    get_length_prefixed_slice (put_length_prefixed_slice [] value @ rest) = Some (value, rest)"
  by (simp add: get_length_prefixed_slice_def put_length_prefixed_slice_def put_varint32_def unat_of_nat)

lemma put_length_prefixed_append:
  "put_length_prefixed_slice dst value = dst @ put_length_prefixed_slice [] value"
  by (simp add: put_length_prefixed_slice_def put_varint32_def)

end
