(* ===== verification/SkipList.thy ===== *)
theory SkipList
  imports Prelude
begin

text \<open>
  The skip list of leveldb (src/zcloud/leveldb/db/skiplist.h with util/random.h) over an explicit store
  of nodes: the address of a node is its index, the head is node 0, and a link is the address of a node
  or \<^const>\<open>None\<close> for \<^verbatim>\<open>NULL\<close>.  The comparator is an argument.  The memory barriers are left out: one
  thread writes, and a reader sees the state between two insertions.
\<close>

section \<open>Random numbers\<close>

definition random_new :: "u32 \<Rightarrow> u32" where
  "random_new s = (let seed = s AND 0x7fffffff in if seed = 0 \<or> seed = 2147483647 then 1 else seed)"

definition random_next :: "u32 \<Rightarrow> u32" where
  "random_next seed =
     (let product = (ucast seed :: u64) * 16807;
          seed' = ucast (drop_bit 31 product + (product AND 2147483647)) :: u32
      in if seed' > 2147483647 then seed' - 2147483647 else seed')"

section \<open>Nodes\<close>

abbreviation kMaxHeight :: nat where "kMaxHeight \<equiv> 12"

record 'k sknode =
  nd_key :: 'k
  nd_next :: "nat option list"

record 'k skiplist =
  sk_nodes :: "'k sknode list"
  sk_max_height :: nat
  sk_rnd :: u32

definition new_node :: "'k \<Rightarrow> nat \<Rightarrow> 'k sknode" where
  "new_node key height = \<lparr>nd_key = key, nd_next = replicate height None\<rparr>"

text \<open>The key of the head is never read.\<close>

definition sk_new :: "'k \<Rightarrow> 'k skiplist" where
  "sk_new any = \<lparr>sk_nodes = [new_node any kMaxHeight], sk_max_height = 1, sk_rnd = random_new 0xdeadbeef\<rparr>"

abbreviation sk_key :: "'k skiplist \<Rightarrow> nat \<Rightarrow> 'k" where
  "sk_key s x \<equiv> nd_key (sk_nodes s ! x)"

definition sk_next :: "'k skiplist \<Rightarrow> nat \<Rightarrow> nat \<Rightarrow> nat option" where
  "sk_next s x n = nd_next (sk_nodes s ! x) ! n"

definition set_next :: "nat \<Rightarrow> nat \<Rightarrow> nat option \<Rightarrow> 'k sknode list \<Rightarrow> 'k sknode list" where
  "set_next x n y nodes = nodes[x := (nodes ! x)\<lparr>nd_next := (nd_next (nodes ! x))[n := y]\<rparr>]"

fun random_height_loop :: "nat \<Rightarrow> nat \<Rightarrow> u32 \<Rightarrow> nat \<times> u32" where
  "random_height_loop 0 height rnd = (height, rnd)"
| "random_height_loop (Suc left) height rnd =
     (let rnd' = random_next rnd
      in if rnd' mod 4 = 0 then random_height_loop left (height + 1) rnd' else (height, rnd'))"

definition random_height :: "u32 \<Rightarrow> nat \<times> u32" where
  "random_height rnd = random_height_loop (kMaxHeight - 1) 1 rnd"

section \<open>Searching\<close>

definition key_is_after_node :: "('k \<Rightarrow> 'k \<Rightarrow> int) \<Rightarrow> 'k skiplist \<Rightarrow> 'k \<Rightarrow> nat option \<Rightarrow> bool" where
  "key_is_after_node cmp s key n = (case n of None \<Rightarrow> False | Some a \<Rightarrow> cmp (sk_key s a) key < 0)"

text \<open>
  The loops are bounded by the number of nodes and levels: each step advances to a later node or goes
  down one level.  \<open>None\<close> outside means that the bound is exhausted, which does not happen.
\<close>

fun find_ge_loop :: "nat \<Rightarrow> ('k \<Rightarrow> 'k \<Rightarrow> int) \<Rightarrow> 'k skiplist \<Rightarrow> 'k \<Rightarrow> nat \<Rightarrow> nat \<Rightarrow> nat list \<Rightarrow> (nat option \<times> nat list) option" where
  "find_ge_loop 0 cmp s key x level prev = None"
| "find_ge_loop (Suc fuel) cmp s key x level prev =
     (let next = sk_next s x level
      in if key_is_after_node cmp s key next then find_ge_loop fuel cmp s key (the next) level prev
         else let prev' = prev[level := x]
              in if level = 0 then Some (next, prev') else find_ge_loop fuel cmp s key x (level - 1) prev')"

definition sk_bound :: "'k skiplist \<Rightarrow> nat" where
  "sk_bound s = length (sk_nodes s) + sk_max_height s"

definition find_greater_or_equal :: "('k \<Rightarrow> 'k \<Rightarrow> int) \<Rightarrow> 'k skiplist \<Rightarrow> 'k \<Rightarrow> nat list \<Rightarrow> (nat option \<times> nat list) option" where
  "find_greater_or_equal cmp s key prev = find_ge_loop (sk_bound s) cmp s key 0 (sk_max_height s - 1) prev"

fun find_lt_loop :: "nat \<Rightarrow> ('k \<Rightarrow> 'k \<Rightarrow> int) \<Rightarrow> 'k skiplist \<Rightarrow> 'k \<Rightarrow> nat \<Rightarrow> nat \<Rightarrow> nat option" where
  "find_lt_loop 0 cmp s key x level = None"
| "find_lt_loop (Suc fuel) cmp s key x level =
     (let next = sk_next s x level
      in if next = None \<or> cmp (sk_key s (the next)) key \<ge> 0
         then if level = 0 then Some x else find_lt_loop fuel cmp s key x (level - 1)
         else find_lt_loop fuel cmp s key (the next) level)"

definition find_less_than :: "('k \<Rightarrow> 'k \<Rightarrow> int) \<Rightarrow> 'k skiplist \<Rightarrow> 'k \<Rightarrow> nat option" where
  "find_less_than cmp s key = find_lt_loop (sk_bound s) cmp s key 0 (sk_max_height s - 1)"

fun find_last_loop :: "nat \<Rightarrow> 'k skiplist \<Rightarrow> nat \<Rightarrow> nat \<Rightarrow> nat option" where
  "find_last_loop 0 s x level = None"
| "find_last_loop (Suc fuel) s x level =
     (case sk_next s x level of
        None \<Rightarrow> if level = 0 then Some x else find_last_loop fuel s x (level - 1)
      | Some next \<Rightarrow> find_last_loop fuel s next level)"

definition find_last :: "'k skiplist \<Rightarrow> nat option" where
  "find_last s = find_last_loop (sk_bound s) s 0 (sk_max_height s - 1)"

section \<open>Insertion\<close>

text \<open>One round of the linking loop: the links of the new node \<open>x\<close> and of its predecessor at level \<open>i\<close>.\<close>

definition link_level :: "nat \<Rightarrow> nat list \<Rightarrow> nat \<Rightarrow> 'k sknode list \<Rightarrow> 'k sknode list" where
  "link_level x prev i nodes =
     set_next (prev ! i) i (Some x) (set_next x i (nd_next (nodes ! (prev ! i)) ! i) nodes)"

definition sk_insert :: "('k \<Rightarrow> 'k \<Rightarrow> int) \<Rightarrow> 'k \<Rightarrow> 'k skiplist \<Rightarrow> 'k skiplist option" where
  "sk_insert cmp key s =
     (case find_greater_or_equal cmp s key (replicate kMaxHeight 0) of
        None \<Rightarrow> None
      | Some (_, prev) \<Rightarrow>
          (let (height, rnd) = random_height (sk_rnd s);
               m = sk_max_height s;
               prev' = (if height > m then fold (\<lambda>i p. p[i := 0]) [m..<height] prev else prev);
               x = length (sk_nodes s)
           in Some (s\<lparr>sk_nodes := fold (link_level x prev') [0..<height] (sk_nodes s @ [new_node key height]),
                sk_max_height := (if height > m then height else m), sk_rnd := rnd\<rparr>)))"

definition sk_contains :: "('k \<Rightarrow> 'k \<Rightarrow> int) \<Rightarrow> 'k skiplist \<Rightarrow> 'k \<Rightarrow> bool option" where
  "sk_contains cmp s key =
     (case find_greater_or_equal cmp s key [] of
        None \<Rightarrow> None
      | Some (None, _) \<Rightarrow> Some False
      | Some (Some x, _) \<Rightarrow> Some (cmp key (sk_key s x) = 0))"

section \<open>Iterators\<close>

text \<open>The position of an iterator is the address of a node; \<^const>\<open>None\<close> is not valid.\<close>

definition sk_iter_next :: "'k skiplist \<Rightarrow> nat \<Rightarrow> nat option" where
  "sk_iter_next s node = sk_next s node 0"

definition sk_iter_prev :: "('k \<Rightarrow> 'k \<Rightarrow> int) \<Rightarrow> 'k skiplist \<Rightarrow> nat \<Rightarrow> nat option option" where
  "sk_iter_prev cmp s node =
     map_option (\<lambda>x. if x = 0 then None else Some x) (find_less_than cmp s (sk_key s node))"

definition sk_seek :: "('k \<Rightarrow> 'k \<Rightarrow> int) \<Rightarrow> 'k skiplist \<Rightarrow> 'k \<Rightarrow> nat option option" where
  "sk_seek cmp s target = map_option fst (find_greater_or_equal cmp s target [])"

definition sk_seek_to_first :: "'k skiplist \<Rightarrow> nat option" where
  "sk_seek_to_first s = sk_next s 0 0"

definition sk_seek_to_last :: "'k skiplist \<Rightarrow> nat option option" where
  "sk_seek_to_last s = map_option (\<lambda>x. if x = 0 then None else Some x) (find_last s)"

section \<open>Representation\<close>

lemma find_split: "List.find P xs = Some y \<Longrightarrow> \<exists>A B. xs = A @ y # B \<and> P y \<and> (\<forall>z\<in>set A. \<not> P z)"
proof (induct xs)
  case (Cons x xs)
  show ?case
  proof (cases "P x")
    case False
    with Cons obtain A B where "xs = A @ y # B" "P y" "\<forall>z\<in>set A. \<not> P z" by auto
    with False show ?thesis by (intro exI [of _ "x # A"] exI [of _ B]) simp
  next
    case True
    with Cons.prems show ?thesis by (intro exI [of _ "[]"] exI [of _ xs]) simp
  qed
qed simp

lemma find_append: "List.find P (xs @ ys) = (case List.find P xs of None \<Rightarrow> List.find P ys | Some y \<Rightarrow> Some y)"
  by (induct xs) simp_all

abbreviation sk_height :: "'k skiplist \<Rightarrow> nat \<Rightarrow> nat" where
  "sk_height s x \<equiv> length (nd_next (sk_nodes s ! x))"

lemma find_not: "List.find (\<lambda>a. \<not> Q a) L = (if dropWhile Q L = [] then None else Some (hd (dropWhile Q L)))"
  by (induct L) simp_all

text \<open>The first node of a list that takes part in level \<open>i\<close>.\<close>

definition first_at :: "'k skiplist \<Rightarrow> nat \<Rightarrow> nat list \<Rightarrow> nat option" where
  "first_at s i xs = List.find (\<lambda>y. i < sk_height s y) xs"

text \<open>
  The nodes in order of their keys are \<open>L\<close>, and the link of each node at each of its levels leads to
  the next node of that level.
\<close>

definition sk_rep :: "('k \<Rightarrow> 'k \<Rightarrow> int) \<Rightarrow> 'k skiplist \<Rightarrow> nat list \<Rightarrow> bool" where
  "sk_rep cmp s L \<longleftrightarrow>
     0 < length (sk_nodes s) \<and> 0 < sk_max_height s \<and> sk_max_height s \<le> kMaxHeight \<and> sk_height s 0 = kMaxHeight \<and>
     distinct L \<and> set L = {0<..<length (sk_nodes s)} \<and>
     sorted_wrt (\<lambda>a b. cmp (sk_key s a) (sk_key s b) < 0) L \<and>
     (\<forall>x\<in>set L. 0 < sk_height s x \<and> sk_height s x \<le> sk_max_height s) \<and>
     (\<forall>A x B i. 0 # L = A @ x # B \<longrightarrow> i < sk_height s x \<longrightarrow> sk_next s x i = first_at s i B)"

lemma sk_rep_next: "sk_rep cmp s L \<Longrightarrow> 0 # L = A @ x # B \<Longrightarrow> i < sk_height s x \<Longrightarrow> sk_next s x i = first_at s i B"
  unfolding sk_rep_def by (elim conjE) simp

lemma sk_rep_height: "sk_rep cmp s L \<Longrightarrow> x \<in> set L \<Longrightarrow> 0 < sk_height s x \<and> sk_height s x \<le> sk_max_height s"
  unfolding sk_rep_def by (elim conjE) simp

section \<open>Linking\<close>

lemma nth_update: "xs[i := v] ! j = (if i = j \<and> j < length xs then v else xs ! j)"
  by (cases "i < length xs") (auto simp: nth_list_update list_update_beyond not_less)

lemma link_level_next:
  assumes "prev ! i < length N" and "x < length N" and "prev ! i \<noteq> x" and "i < length (nd_next (N ! (prev ! i)))"
    and "i < length (nd_next (N ! x))"
  shows "length (link_level x prev i N) = length N"
    and "nd_key (link_level x prev i N ! y) = nd_key (N ! y)"
    and "length (nd_next (link_level x prev i N ! y)) = length (nd_next (N ! y))"
    and "nd_next (link_level x prev i N ! y) ! k =
      (if k = i \<and> y = x then nd_next (N ! (prev ! i)) ! i else if k = i \<and> y = prev ! i then Some x
       else nd_next (N ! y) ! k)"
  using assms by (auto simp: link_level_def set_next_def nth_update)

lemma link_levels_next:
  assumes "\<forall>i<h. prev ! i < length N \<and> prev ! i \<noteq> x \<and> i < length (nd_next (N ! (prev ! i)))"
    and "x < length N" and "length (nd_next (N ! x)) = h" and "j \<le> h"
  shows "length (fold (link_level x prev) [0..<j] N) = length N \<and>
    (\<forall>y. nd_key (fold (link_level x prev) [0..<j] N ! y) = nd_key (N ! y)) \<and>
    (\<forall>y. length (nd_next (fold (link_level x prev) [0..<j] N ! y)) = length (nd_next (N ! y))) \<and>
    (\<forall>y k. nd_next (fold (link_level x prev) [0..<j] N ! y) ! k =
      (if k < j \<and> y = x then nd_next (N ! (prev ! k)) ! k else if k < j \<and> y = prev ! k then Some x
       else nd_next (N ! y) ! k))"
  using assms(4)
proof (induct j)
  case (Suc j)
  let ?M = "fold (link_level x prev) [0..<j] N"
  have M: "length ?M = length N" "\<And>y. nd_key (?M ! y) = nd_key (N ! y)"
    "\<And>y. length (nd_next (?M ! y)) = length (nd_next (N ! y))"
    "\<And>y k. nd_next (?M ! y) ! k =
      (if k < j \<and> y = x then nd_next (N ! (prev ! k)) ! k else if k < j \<and> y = prev ! k then Some x
       else nd_next (N ! y) ! k)" using Suc by auto
  have pre: "prev ! j < length ?M" "x < length ?M" "prev ! j \<noteq> x" "j < length (nd_next (?M ! (prev ! j)))"
    "j < length (nd_next (?M ! x))" using assms(1-3) Suc.prems M by auto
  note step = link_level_next [OF pre]
  have "fold (link_level x prev) [0..<Suc j] N = link_level x prev j ?M" by simp
  then show ?case using M pre(3) by (auto simp: step less_Suc_eq)
qed simp

lemma random_height_loop_bounds:
  "height \<le> fst (random_height_loop left height rnd) \<and> fst (random_height_loop left height rnd) \<le> height + left"
proof (induct left arbitrary: height rnd)
  case (Suc left)
  have "height + 1 \<le> fst (random_height_loop left (height + 1) (random_next rnd))"
    "fst (random_height_loop left (height + 1) (random_next rnd)) \<le> height + 1 + left"
    using Suc [of "height + 1" "random_next rnd"] by simp_all
  then show ?case by (simp add: Let_def)
qed simp

lemma random_height_bounds: "0 < fst (random_height rnd)" "fst (random_height rnd) \<le> kMaxHeight"
  using random_height_loop_bounds [of 1 "kMaxHeight - 1" rnd] by (simp_all add: random_height_def)

lemma fold_head: "fold (\<lambda>i p. p[i := 0]) is p ! k = (if k \<in> set is \<and> k < length p then 0 else p ! k)"
  "length (fold (\<lambda>i p. p[i := 0]) is p) = length p"
  by (induct "is" arbitrary: p) (auto simp: nth_update)

text \<open>A new node \<open>x\<close> between \<open>P\<close> and \<open>S\<close>, linked after the last node of each level.\<close>

lemma sk_rep_link:
  assumes rep: "sk_rep cmp s (P @ S)" and x: "x = length (sk_nodes s)" and h: "0 < h" "h \<le> kMaxHeight"
    and prev: "\<forall>i<h. prev ! i = last (filter (\<lambda>y. i < sk_height s y) (0 # P))"
    and order: "\<forall>a\<in>set P. cmp (sk_key s a) key < 0" "\<forall>a\<in>set S. cmp key (sk_key s a) < 0"
    and s': "s' = s\<lparr>sk_nodes := fold (link_level x prev) [0..<h] (sk_nodes s @ [new_node key h]),
      sk_max_height := max h (sk_max_height s), sk_rnd := rnd\<rparr>"
  shows "sk_rep cmp s' (P @ x # S) \<and> sk_key s' x = key \<and> (\<forall>y<x. sk_key s' y = sk_key s y)"
proof -
  let ?L = "P @ S"
  define N where "N = sk_nodes s @ [new_node key h]"
  have r: "0 < length (sk_nodes s)" "0 < sk_max_height s" "sk_max_height s \<le> kMaxHeight" "sk_height s 0 = kMaxHeight"
    "distinct ?L" "set ?L = {0<..<x}" "sorted_wrt (\<lambda>a b. cmp (sk_key s a) (sk_key s b) < 0) ?L"
    using rep by (simp_all add: sk_rep_def x)
  have pred: "prev ! i \<in> set (0 # P)" "i < sk_height s (prev ! i)" if "i < h" for i
  proof -
    let ?F = "filter (\<lambda>y. i < sk_height s y) (0 # P)"
    have "?F \<noteq> []" using that h(2) r(4) by (simp add: filter_empty_conv)
    then have "last ?F \<in> set ?F" by (rule last_in_set)
    moreover have "prev ! i = last ?F" using prev that by blast
    ultimately have "prev ! i \<in> set ?F" by (simp only:)
    then show "prev ! i \<in> set (0 # P)" "i < sk_height s (prev ! i)" unfolding set_filter by blast+
  qed
  have old: "prev ! i < x" if "i < h" for i using pred(1) [OF that] r(1,6) x by auto
  have nth: "N ! y = sk_nodes s ! y" if "y < x" for y using that x by (simp add: N_def nth_append)
  have new: "nd_key (N ! x) = key" "length (nd_next (N ! x)) = h" "length N = Suc x"
    using x by (simp_all add: N_def new_node_def)
  have "prev ! i < length N \<and> prev ! i \<noteq> x \<and> i < length (nd_next (N ! (prev ! i)))" if "i < h" for i
    using old [OF that] pred(2) [OF that] nth [OF old [OF that]] new(3) by simp
  then have pre: "\<forall>i<h. prev ! i < length N \<and> prev ! i \<noteq> x \<and> i < length (nd_next (N ! (prev ! i)))"
    "x < length N" "length (nd_next (N ! x)) = h"
    using new by simp_all
  note l = link_levels_next [OF pre order.refl]
  have len: "length (sk_nodes s') = Suc x" using l new(3) by (simp add: s' N_def)
  have key: "sk_key s' y = sk_key s y" "sk_height s' y = sk_height s y" if "y < x" for y
    using l that by (simp_all add: s' nth flip: N_def)
  have keyx: "sk_key s' x = key" "sk_height s' x = h" using l new by (simp_all add: s' flip: N_def)
  have nx: "sk_next s' y k = (if k < h \<and> y = x then sk_next s (prev ! k) k
      else if k < h \<and> y = prev ! k then Some x else sk_next s y k)" if "y < x \<or> y = x \<and> k < h" for y k
    using l that old by (auto simp: s' sk_next_def nth simp flip: N_def)
  have first: "first_at s' i zs = first_at s i zs" if "\<forall>z\<in>set zs. z < x" for i zs
    unfolding first_at_def using that key(2) by (intro find_cong) auto
  have PS: "\<forall>z\<in>set P. z < x" "\<forall>z\<in>set S. z < x" "0 < x" "x \<notin> set P" "x \<notin> set S" "0 \<notin> set P" "0 \<notin> set S"
    using r(1,6) x by auto
  have old_next: "sk_next s y i = first_at s i (B @ S)" if "0 # P = A @ y # B" "i < sk_height s y" for A y B i
    using that by (intro sk_rep_next [OF rep, of A]) simp_all
  have last_of: "filter (\<lambda>z. i < sk_height s z) B = [] \<longleftrightarrow> y = prev ! i"
    if "0 # P = A @ y # B" "i < sk_height s y" "i < h" for A y B i
  proof -
    have "distinct (0 # P)" using r(5) PS(6) by simp
    moreover have "prev ! i = last (filter (\<lambda>z. i < sk_height s z) (A @ y # B))" using prev that(1,3) by simp
    ultimately show ?thesis unfolding that(1) using that(2) last_in_set [of "filter (\<lambda>z. i < sk_height s z) B"] by auto
  qed
  have none: "first_at s i B = None \<longleftrightarrow> filter (\<lambda>z. i < sk_height s z) B = []" for i B
    by (auto simp: first_at_def find_None_iff filter_empty_conv)
  have app: "first_at s i (B @ C) = (case first_at s i B of None \<Rightarrow> first_at s i C | Some z \<Rightarrow> Some z)" for i B C
    unfolding first_at_def by (rule find_append)
  have app': "first_at s' i (B @ x # S) = (case first_at s i B of None \<Rightarrow> if i < h then Some x else first_at s i S | Some z \<Rightarrow> Some z)"
    if "\<forall>z\<in>set B. z < x" for i B
    using first [OF that, of i] first [OF PS(2), of i] keyx(2) unfolding first_at_def find_append
    by (simp split: option.split)
  have x_links: "sk_next s' x i = first_at s' i S" if i: "i < h" for i
  proof -
    obtain A B where AB: "0 # P = A @ prev ! i # B" using split_list [OF pred(1) [OF i]] by blast
    have "first_at s i B = None" using last_of [OF AB pred(2) [OF i] i] none by simp
    then show ?thesis
      using nx [of x i] i old_next [OF AB pred(2) [OF i]] first [OF PS(2)] by (simp add: app)
  qed
  have P_links: "sk_next s' y i = first_at s' i (B @ x # S)" if "0 # P = A @ y # B" "i < sk_height s y" for A y B i
  proof -
    have y: "y < x" "\<forall>z\<in>set B. z < x" using that(1) PS(1,3) by (metis in_set_conv_decomp set_ConsD, cases A) auto
    show ?thesis
      using nx [of y i] y(1) old_next [OF that] last_of [OF that] none [of i B]
      by (auto simp: app app' [OF y(2)] split: option.split)
  qed
  have S_links: "sk_next s' y i = first_at s' i B" if "S = A @ y # B" "i < sk_height s y" for A y B i
  proof -
    have y: "y < x" "\<forall>z\<in>set B. z < x" using that(1) PS(2) by simp_all
    have "y \<noteq> prev ! i" if "i < h" using pred(1) [OF that] r(5) PS(7) \<open>S = A @ y # B\<close> by auto
    moreover have "sk_next s y i = first_at s i B"
      using that by (intro sk_rep_next [OF rep, of "0 # P @ A"]) simp_all
    ultimately show ?thesis using nx [of y i] y first by auto
  qed
  have links: "sk_next s' y i = first_at s' i B" if "(0 # P) @ x # S = A @ y # B" "i < sk_height s' y" for A y B i
    using that(1) unfolding append_eq_append_conv2
  proof (elim exE disjE conjE)
    fix us
    assume us: "0 # P = A @ us" "us @ x # S = y # B"
    show ?thesis
    proof (cases us)
      case Nil
      then show ?thesis using us that(2) x_links keyx(2) by simp
    next
      case (Cons u us')
      then have y: "0 # P = A @ y # us'" "B = us' @ x # S" using us by simp_all
      then have "y < x" using PS(1,3) by (metis in_set_conv_decomp set_ConsD)
      then show ?thesis using P_links [OF y(1)] y(2) that(2) key(2) by simp
    qed
  next
    fix us
    assume us: "(0 # P) @ us = A" "x # S = us @ y # B"
    show ?thesis
    proof (cases us)
      case Nil
      then show ?thesis using us that(2) x_links keyx(2) by simp
    next
      case (Cons u us')
      then have y: "S = us' @ y # B" using us by simp
      then have "y < x" using PS(2) by simp
      then show ?thesis using S_links [OF y] that(2) key(2) by simp
    qed
  qed
  have keys: "map (sk_key s') P = map (sk_key s) P" "map (sk_key s') S = map (sk_key s) S"
    using PS(1,2) key(1) by simp_all
  have "sorted_wrt (\<lambda>a b. cmp a b < 0) (map (sk_key s) P @ key # map (sk_key s) S)"
    using r(7) order by (simp add: sorted_wrt_append sorted_wrt_map)
  then have "sorted_wrt (\<lambda>a b. cmp a b < 0) (map (sk_key s') (P @ x # S))" by (simp add: keys keyx(1))
  then have sorted: "sorted_wrt (\<lambda>a b. cmp (sk_key s' a) (sk_key s' b) < 0) (P @ x # S)" by (simp only: sorted_wrt_map)
  have heights: "0 < sk_height s' y \<and> sk_height s' y \<le> sk_max_height s'" if "y \<in> set (P @ x # S)" for y
  proof (cases "y = x")
    case False
    then have "y \<in> set (P @ S)" using that by auto
    then show ?thesis using sk_rep_height [OF rep, of y] key(2) [of y] PS(1,2) by (auto simp: s')
  qed (use keyx(2) h(1) in \<open>simp add: s'\<close>)
  have nodes: "distinct (P @ x # S)" "set (P @ x # S) = {0<..<Suc x}" using r(5,6) PS by auto
  have top: "sk_height s' 0 = kMaxHeight" "sk_max_height s' \<le> kMaxHeight" "0 < sk_max_height s'"
    using r(1-4) x key(2) [of 0] h PS(3) by (simp_all add: s')
  have "0 # P @ x # S = A @ y # B \<Longrightarrow> i < sk_height s' y \<Longrightarrow> sk_next s' y i = first_at s' i B" for A y B i
    using links [of A y B i] by simp
  then have "sk_rep cmp s' (P @ x # S)"
    unfolding sk_rep_def len using sorted nodes top heights by (intro conjI ballI allI impI) simp_all
  then show ?thesis using key(1) keyx(1) by simp
qed

lemma sk_rep_new: "sk_rep cmp (sk_new any) []"
proof -
  have "sk_next (sk_new any) x i = first_at (sk_new any) i B" if "[0] = A @ x # B" "i < kMaxHeight" for A x B i
    using that by (cases A) (simp_all add: sk_next_def sk_new_def new_node_def first_at_def)
  then show ?thesis
    unfolding sk_rep_def by (auto simp: sk_new_def new_node_def Cons_eq_append_conv)
qed

lemma find_lt_loop_eq:
  "length p = 1 \<Longrightarrow> find_lt_loop fuel cmp s key x level = map_option (\<lambda>(_, prev). prev ! 0) (find_ge_loop fuel cmp s key x level p)"
proof (induct fuel arbitrary: x level p)
  case (Suc fuel)
  have c: "(sk_next s x level = None \<or> cmp (sk_key s (the (sk_next s x level))) key \<ge> 0) \<longleftrightarrow>
      \<not> key_is_after_node cmp s key (sk_next s x level)"
    by (cases "sk_next s x level") (auto simp: key_is_after_node_def)
  have "length (p[level := x]) = 1" using Suc.prems by simp
  from Suc.hyps [OF this] Suc.hyps [OF Suc.prems] show ?case
    using Suc.prems by (simp add: Let_def c)
qed simp

lemma find_last_loop_spec:
  assumes "sk_rep cmp s L" and "0 # L = A @ x # B" and "level < sk_height s x" and "length B + level < fuel"
  shows "find_last_loop fuel s x level = Some (last (0 # L))"
  using assms(2-4)
proof (induct fuel arbitrary: A x B level)
  case (Suc fuel)
  have n: "sk_next s x level = List.find (\<lambda>y. level < sk_height s y) B"
    using sk_rep_next [OF assms(1) Suc.prems(1,2)] by (simp add: first_at_def)
  show ?case
  proof (cases "List.find (\<lambda>y. level < sk_height s y) B")
    case None
    show ?thesis
    proof (cases "level = 0")
      case True
      have "B = []" if "\<forall>y\<in>set B. sk_height s y = 0"
      proof (rule ccontr)
        assume "B \<noteq> []"
        then obtain y where "y \<in> set B" by (cases B) auto
        moreover from this have "y \<in> set L" using Suc.prems(1) by (cases A) auto
        ultimately show False using sk_rep_height [OF assms(1)] that by force
      qed
      then have "B = []" using None True by (auto simp: find_None_iff)
      then show ?thesis using n None True Suc.prems(1) by simp
    next
      case False
      then show ?thesis using n None Suc.hyps [OF Suc.prems(1), of "level - 1"] Suc.prems(2,3) by simp
    qed
  next
    case (Some y)
    then obtain B1 B2 where B: "B = B1 @ y # B2" "level < sk_height s y" by (blast dest: find_split)
    then have "0 # L = (A @ x # B1) @ y # B2" "length B2 + level < fuel" using Suc.prems(1,3) by simp_all
    then show ?thesis using n Some Suc.hyps [OF _ B(2), of "A @ x # B1" B2] by simp
  qed
qed simp

locale comparator =
  fixes cmp :: "'k \<Rightarrow> 'k \<Rightarrow> int"
  assumes cmp_sym: "cmp a b < 0 \<longleftrightarrow> 0 < cmp b a"
    and cmp_trans: "cmp a b \<le> 0 \<Longrightarrow> cmp b c \<le> 0 \<Longrightarrow> cmp a c \<le> 0"
begin

lemma cmp_refl: "cmp a a = 0"
  using cmp_sym [of a a] by linarith

lemma cmp_le: "cmp a b \<le> 0 \<longleftrightarrow> \<not> cmp b a < 0"
  using cmp_sym [of b a] by linarith

lemma cmp_less_trans: "cmp a b < 0 \<Longrightarrow> cmp b c \<le> 0 \<Longrightarrow> cmp a c < 0"
  using cmp_trans [of b c a] cmp_sym [of a b] cmp_le [of c a] cmp_sym [of a c] by linarith

text \<open>A sorted list splits at a key.\<close>

lemma sorted_split:
  assumes "sorted_wrt (\<lambda>a b. cmp (f a) (f b) < 0) L"
  shows "\<forall>a\<in>set (dropWhile (\<lambda>a. cmp (f a) key < 0) L). \<not> cmp (f a) key < 0"
  using assms
proof (induct L)
  case (Cons a L)
  show ?case
  proof (cases "cmp (f a) key < 0")
    case False
    have "\<not> cmp (f b) key < 0" if "b \<in> set L" for b
    proof
      assume "cmp (f b) key < 0"
      then have "cmp (f b) key \<le> 0" by linarith
      moreover have "cmp (f a) (f b) < 0" using Cons.prems that by simp
      ultimately have "cmp (f a) key < 0" by (rule cmp_less_trans [rotated])
      with False show False by contradiction
    qed
    then show ?thesis using False by simp
  next
    case True
    have "sorted_wrt (\<lambda>a b. cmp (f a) (f b) < 0) L" using Cons.prems by simp
    from Cons.hyps [OF this] show ?thesis by (simp only: dropWhile.simps True if_True)
  qed
qed simp

lemma find_ge_loop_spec:
  assumes "sk_rep cmp s (P @ S)" and "\<forall>a\<in>set P. cmp (sk_key s a) key < 0" and "\<forall>a\<in>set S. \<not> cmp (sk_key s a) key < 0"
    and "0 # P = A @ x # B" and "level < sk_height s x" and "length B + level < fuel"
  shows "\<exists>prev'. find_ge_loop fuel cmp s key x level prev = Some (if S = [] then None else Some (hd S), prev') \<and>
    length prev' = length prev \<and>
    (\<forall>i < length prev. prev' ! i = (if i \<le> level then last (filter (\<lambda>y. i < sk_height s y) (0 # P)) else prev ! i))"
  using assms(4-6)
proof (induct fuel arbitrary: A x B level prev)
  case (Suc fuel)
  have next': "sk_next s x level = first_at s level (B @ S)"
    using Suc.prems(1) by (intro sk_rep_next [OF assms(1), of A] Suc.prems(2)) simp
  show ?case
  proof (cases "List.find (\<lambda>y. level < sk_height s y) B")
    case (Some y)
    then obtain B1 B2 where B: "B = B1 @ y # B2" "level < sk_height s y" by (blast dest: find_split)
    have y: "0 # P = (A @ x # B1) @ y # B2" using Suc.prems(1) B(1) by simp
    have "y \<in> set P" using Suc.prems(1) B(1) by (cases A) simp_all
    then have "key_is_after_node cmp s key (Some y)" using assms(2) by (simp add: key_is_after_node_def)
    moreover have "sk_next s x level = Some y" using next' Some by (simp add: first_at_def find_append)
    ultimately have step: "find_ge_loop (Suc fuel) cmp s key x level prev = find_ge_loop fuel cmp s key y level prev"
      by (simp add: Let_def)
    have "length B2 + level < fuel" using Suc.prems(3) B(1) by simp
    then show ?thesis unfolding step by (rule Suc.hyps [OF y B(2)])
  next
    case None
    then have n: "sk_next s x level = first_at s level S" unfolding next' by (simp add: first_at_def find_append)
    have e: "filter (\<lambda>y. level < sk_height s y) B = []" using None by (auto simp: find_None_iff filter_empty_conv)
    have "\<not> cmp (sk_key s y) key < 0" if "List.find (\<lambda>y. level < sk_height s y) S = Some y" for y
    proof -
      have "y \<in> set S" using find_split [OF that] by auto
      then show ?thesis using assms(3) by blast
    qed
    then have "\<not> key_is_after_node cmp s key (first_at s level S)"
      by (simp add: key_is_after_node_def first_at_def split: option.split)
    moreover have l: "last (filter (\<lambda>y. level < sk_height s y) (0 # P)) = x"
      unfolding Suc.prems(1) using e Suc.prems(2) by simp
    moreover have "first_at s 0 S = (if S = [] then None else Some (hd S))"
      using sk_rep_height [OF assms(1)] by (cases S) (simp_all add: first_at_def)
    ultimately have step: "find_ge_loop (Suc fuel) cmp s key x level prev =
        (if level = 0 then Some (if S = [] then None else Some (hd S), prev[level := x])
         else find_ge_loop fuel cmp s key x (level - 1) (prev[level := x]))"
      using n by (simp add: Let_def)
    show ?thesis
    proof (cases "level = 0")
      case True
      then show ?thesis unfolding step using l by (simp add: nth_list_update)
    next
      case False
      have "level - 1 < sk_height s x" "length B + (level - 1) < fuel" using Suc.prems(2,3) False by simp_all
      from Suc.hyps [OF Suc.prems(1) this, of "prev[level := x]"] obtain prev' where
        p: "find_ge_loop fuel cmp s key x (level - 1) (prev[level := x]) =
          Some (if S = [] then None else Some (hd S), prev')" "length prev' = length prev"
        "\<forall>i < length prev. prev' ! i = (if i \<le> level - 1 then last (filter (\<lambda>y. i < sk_height s y) (0 # P))
           else prev[level := x] ! i)" by auto
      have "prev' ! i = (if i \<le> level then last (filter (\<lambda>y. i < sk_height s y) (0 # P)) else prev ! i)"
        if "i < length prev" for i
        using p(3) that False l by (cases "i = level") auto
      then show ?thesis unfolding step using p(1,2) False by simp
    qed
  qed
qed simp

lemma find_greater_or_equal_spec:
  assumes "sk_rep cmp s L"
  shows "\<exists>prev'. find_greater_or_equal cmp s key prev =
      Some (List.find (\<lambda>a. \<not> cmp (sk_key s a) key < 0) L, prev') \<and> length prev' = length prev \<and>
    (\<forall>i < length prev. prev' ! i = (if i < sk_max_height s
       then last (filter (\<lambda>y. i < sk_height s y) (0 # takeWhile (\<lambda>a. cmp (sk_key s a) key < 0) L)) else prev ! i))"
proof -
  let ?P = "takeWhile (\<lambda>a. cmp (sk_key s a) key < 0) L" and ?S = "dropWhile (\<lambda>a. cmp (sk_key s a) key < 0) L"
  have rep: "0 < sk_max_height s" "sk_max_height s \<le> kMaxHeight" "sk_height s 0 = kMaxHeight"
    "set L = {0<..<length (sk_nodes s)}" "distinct L"
    "sorted_wrt (\<lambda>a b. cmp (sk_key s a) (sk_key s b) < 0) L" "0 < length (sk_nodes s)"
    using assms by (simp_all add: sk_rep_def)
  have "length L < length (sk_nodes s)"
    using distinct_card [OF rep(5)] rep(4) rep(7) by (simp add: Suc_le_eq [symmetric])
  moreover have "length ?P \<le> length L" by (rule length_takeWhile_le)
  ultimately have fuel: "length ?P + (sk_max_height s - 1) < sk_bound s" using rep(1) by (simp add: sk_bound_def)
  have S: "\<forall>a\<in>set ?S. \<not> cmp (sk_key s a) key < 0" by (rule sorted_split [OF rep(6)])
  have P: "\<forall>a\<in>set ?P. cmp (sk_key s a) key < 0" by (meson set_takeWhileD)
  have r: "sk_rep cmp s (?P @ ?S)" using assms by simp
  have lv: "sk_max_height s - 1 < sk_height s 0" using rep(1-3) by simp
  obtain prev' where p: "find_greater_or_equal cmp s key prev = Some (if ?S = [] then None else Some (hd ?S), prev')"
      "length prev' = length prev"
      "\<forall>i < length prev. prev' ! i = (if i \<le> sk_max_height s - 1 then last (filter (\<lambda>y. i < sk_height s y) (0 # ?P)) else prev ! i)"
    using find_ge_loop_spec [OF r P S _ lv fuel, of "[]" prev] unfolding find_greater_or_equal_def by auto
  have "(if ?S = [] then None else Some (hd ?S)) = List.find (\<lambda>a. \<not> cmp (sk_key s a) key < 0) L"
    by (rule find_not [symmetric])
  moreover have "i \<le> sk_max_height s - 1 \<longleftrightarrow> i < sk_max_height s" for i using rep(1) by auto
  ultimately show ?thesis using p by auto
qed

lemma sk_insert_spec:
  assumes rep: "sk_rep cmp s L" and new: "\<forall>a\<in>set L. cmp (sk_key s a) key \<noteq> 0"
  shows "\<exists>s' L'. sk_insert cmp key s = Some s' \<and> sk_rep cmp s' L' \<and>
    map (sk_key s') L' = takeWhile (\<lambda>k. cmp k key < 0) (map (sk_key s) L) @ key #
      dropWhile (\<lambda>k. cmp k key < 0) (map (sk_key s) L)"
proof -
  let ?Q = "\<lambda>a. cmp (sk_key s a) key < 0"
  let ?P = "takeWhile ?Q L" and ?S = "dropWhile ?Q L" and ?x = "length (sk_nodes s)"
  obtain prev where f: "find_greater_or_equal cmp s key (replicate kMaxHeight 0) = Some (List.find (\<lambda>a. \<not> ?Q a) L, prev)"
      "length prev = kMaxHeight"
      "\<forall>i < kMaxHeight. prev ! i = (if i < sk_max_height s then last (filter (\<lambda>y. i < sk_height s y) (0 # ?P))
        else replicate kMaxHeight 0 ! i)"
    using find_greater_or_equal_spec [OF rep, of key "replicate kMaxHeight 0"] by auto
  obtain h rnd where h: "random_height (sk_rnd s) = (h, rnd)" by fastforce
  have hb: "0 < h" "h \<le> kMaxHeight" using random_height_bounds [of "sk_rnd s"] h by simp_all
  let ?m = "sk_max_height s"
  let ?prev = "if h > ?m then fold (\<lambda>i p. p[i := 0]) [?m..<h] prev else prev"
  have m: "?m \<le> kMaxHeight" "sk_height s 0 = kMaxHeight"
    and sorted: "sorted_wrt (\<lambda>a b. cmp (sk_key s a) (sk_key s b) < 0) L" using rep by (simp_all add: sk_rep_def)
  have prev: "?prev ! i = last (filter (\<lambda>y. i < sk_height s y) (0 # ?P))" if "i < h" for i
  proof (cases "i < ?m")
    case True
    then show ?thesis using f(3) m hb that by (simp add: fold_head f(2))
  next
    case False
    have "filter (\<lambda>y. i < sk_height s y) ?P = []"
      using sk_rep_height [OF rep] False by (fastforce simp: filter_empty_conv dest: set_takeWhileD)
    then show ?thesis using False that hb m(2) by (simp add: fold_head f(2))
  qed
  define s' where "s' = s\<lparr>sk_nodes := fold (link_level ?x ?prev) [0..<h] (sk_nodes s @ [new_node key h]),
      sk_max_height := max h ?m, sk_rnd := rnd\<rparr>"
  have i: "sk_insert cmp key s = Some s'" using f(1) h by (simp add: sk_insert_def s'_def Let_def max_def)
  have "\<not> ?Q a" if "a \<in> set ?S" for a using sorted_split [OF sorted] that by blast
  moreover have "cmp (sk_key s a) key \<noteq> 0" if "a \<in> set ?S" for a using new that by (blast dest: set_dropWhileD)
  ultimately have S: "\<forall>a\<in>set ?S. cmp key (sk_key s a) < 0"
    using cmp_sym by (metis linorder_neqE_linordered_idom)
  have P: "\<forall>a\<in>set ?P. ?Q a" by (meson set_takeWhileD)
  have rep': "sk_rep cmp s (?P @ ?S)" using rep by simp
  have "\<forall>i<h. ?prev ! i = last (filter (\<lambda>y. i < sk_height s y) (0 # ?P))" using prev by blast
  from sk_rep_link [OF rep' refl hb this P S s'_def]
  have r: "sk_rep cmp s' (?P @ ?x # ?S)" "sk_key s' ?x = key" "\<forall>y<?x. sk_key s' y = sk_key s y" by blast+
  have old: "a < ?x" if "a \<in> set L" for a using rep that by (simp add: sk_rep_def)
  have "map (sk_key s') ?P = map (sk_key s) ?P" "map (sk_key s') ?S = map (sk_key s) ?S"
    using r(3) old by (auto dest: set_takeWhileD set_dropWhileD)
  then show ?thesis
    using i r(1,2) by (intro exI [of _ s'] exI [of _ "?P @ ?x # ?S"]) (simp add: takeWhile_map dropWhile_map comp_def)
qed

lemma sk_seek_spec:
  "sk_rep cmp s L \<Longrightarrow> sk_seek cmp s target = Some (List.find (\<lambda>a. \<not> cmp (sk_key s a) target < 0) L)"
  using find_greater_or_equal_spec [of s L target "[]"] by (auto simp: sk_seek_def)

lemma sk_contains_spec:
  assumes "sk_rep cmp s L"
  shows "sk_contains cmp s key = Some (\<exists>a\<in>set L. cmp (sk_key s a) key = 0)"
proof -
  have sorted: "sorted_wrt (\<lambda>a b. cmp (sk_key s a) (sk_key s b) < 0) L" using assms by (simp add: sk_rep_def)
  obtain p where "find_greater_or_equal cmp s key [] = Some (List.find (\<lambda>a. \<not> cmp (sk_key s a) key < 0) L, p)"
    using find_greater_or_equal_spec [OF assms] by blast
  moreover have "(\<exists>a\<in>set L. cmp (sk_key s a) key = 0) \<longleftrightarrow>
      (\<exists>x. List.find (\<lambda>a. \<not> cmp (sk_key s a) key < 0) L = Some x \<and> cmp key (sk_key s x) = 0)"
    using sorted
  proof (induct L)
    case (Cons a L)
    have z: "cmp (sk_key s a) key = 0 \<longleftrightarrow> cmp key (sk_key s a) = 0" using cmp_sym by (metis linorder_neqE_linordered_idom less_irrefl)
    show ?case
    proof (cases "cmp (sk_key s a) key < 0")
      case False
      have "cmp (sk_key s b) key \<noteq> 0" if "b \<in> set L" for b
      proof
        assume "cmp (sk_key s b) key = 0"
        moreover have "cmp (sk_key s a) (sk_key s b) < 0" using Cons.prems that by simp
        ultimately show False using cmp_less_trans [of "sk_key s a" "sk_key s b" key] False by simp
      qed
      then show ?thesis using False z by auto
    qed (use Cons z in auto)
  qed simp
  ultimately show ?thesis by (auto simp: sk_contains_def split: option.split)
qed

lemma find_less_than_spec:
  assumes "sk_rep cmp s L"
  shows "find_less_than cmp s key = Some (last (0 # takeWhile (\<lambda>a. cmp (sk_key s a) key < 0) L))"
proof -
  let ?P = "takeWhile (\<lambda>a. cmp (sk_key s a) key < 0) L"
  obtain p where p: "find_greater_or_equal cmp s key [0] = Some (List.find (\<lambda>a. \<not> cmp (sk_key s a) key < 0) L, p)"
      "p ! 0 = last (filter (\<lambda>y. 0 < sk_height s y) (0 # ?P))"
    using find_greater_or_equal_spec [OF assms, of key "[0]"] assms by (auto simp: sk_rep_def)
  have "filter (\<lambda>y. 0 < sk_height s y) ?P = ?P"
    using sk_rep_height [OF assms] by (auto simp: filter_id_conv dest: set_takeWhileD)
  moreover have "0 < sk_height s 0" using assms by (simp add: sk_rep_def)
  ultimately have "p ! 0 = last (0 # ?P)" using p(2) by simp
  then show ?thesis
    using find_lt_loop_eq [of "[0]" "sk_bound s" cmp s key 0 "sk_max_height s - 1"] p(1)
    by (simp add: find_less_than_def find_greater_or_equal_def)
qed

lemma find_last_spec:
  assumes "sk_rep cmp s L"
  shows "find_last s = Some (last (0 # L))"
proof -
  have r: "0 < sk_max_height s" "sk_max_height s \<le> kMaxHeight" "sk_height s 0 = kMaxHeight" "distinct L"
    "set L = {0<..<length (sk_nodes s)}" "0 < length (sk_nodes s)" using assms by (simp_all add: sk_rep_def)
  have "length L < length (sk_nodes s)" using distinct_card [OF r(4)] r(5,6) by (simp add: Suc_le_eq [symmetric])
  then show ?thesis
    unfolding find_last_def using r(1-3)
    by (intro find_last_loop_spec [OF assms, of "[]" _ L]) (simp_all add: sk_bound_def)
qed

end

end
