(* ===== verification/LdbFormat.thy ===== *)
theory LdbFormat
  imports LdbCoding SkipList
begin

text \<open>
  Keys of leveldb: the byte-wise comparator (src/zcloud/leveldb/util/comparator.cc and
  include/leveldb/slice.h) and the internal keys, which carry a sequence number and a type behind the
  key of the user (db/dbformat.h and dbformat.cc).  The user comparator is the byte-wise one, as in the
  options the storage server opens the database with.
\<close>

section \<open>Byte-wise order\<close>

text \<open>\<^verbatim>\<open>memcmp\<close> on two areas of the same length; only the sign of the result matters.\<close>

fun zmemcmp :: "bytes \<Rightarrow> bytes \<Rightarrow> int" where
  "zmemcmp (x # xs) (y # ys) = (if x = y then zmemcmp xs ys else of_char x - of_char y)"
| "zmemcmp _ _ = 0"

definition slice_compare :: "bytes \<Rightarrow> bytes \<Rightarrow> int" where
  "slice_compare a b =
     (let min_len = (if length a < length b then length a else length b);
          r = zmemcmp (take min_len a) (take min_len b)
      in if r = 0 then if length a < length b then - 1 else if length a > length b then 1 else r else r)"

fun common_prefix :: "bytes \<Rightarrow> bytes \<Rightarrow> nat" where
  "common_prefix (x # xs) (y # ys) = (if x = y then Suc (common_prefix xs ys) else 0)"
| "common_prefix _ _ = 0"

definition find_shortest_separator :: "bytes \<Rightarrow> bytes \<Rightarrow> bytes" where
  "find_shortest_separator start limit =
     (let min_length = min (length start) (length limit); diff_index = common_prefix start limit
      in if diff_index \<ge> min_length then start
         else let diff_byte = of_char (start ! diff_index) :: nat
              in if diff_byte < 255 \<and> diff_byte + 1 < of_char (limit ! diff_index)
                 then take diff_index start @ [char_of (diff_byte + 1)] else start)"

fun find_short_successor :: "bytes \<Rightarrow> bytes" where
  "find_short_successor [] = []"
| "find_short_successor (c # key) =
     (if (of_char c :: nat) \<noteq> 255 then [char_of ((of_char c :: nat) + 1)] else c # find_short_successor key)"

section \<open>Internal keys\<close>

datatype value_type = Type_deletion | Type_value

definition type_num :: "value_type \<Rightarrow> u64" where
  "type_num t = (case t of Type_deletion \<Rightarrow> 0 | Type_value \<Rightarrow> 1)"

abbreviation kValueTypeForSeek :: value_type where "kValueTypeForSeek \<equiv> Type_value"

definition kMaxSequenceNumber :: u64 where "kMaxSequenceNumber = 2 ^ 56 - 1"

definition pack_sequence_and_type :: "u64 \<Rightarrow> value_type \<Rightarrow> u64" where
  "pack_sequence_and_type seq t = push_bit 8 seq OR type_num t"

definition append_internal_key :: "bytes \<Rightarrow> bytes \<Rightarrow> u64 \<Rightarrow> value_type \<Rightarrow> bytes" where
  "append_internal_key result user_key seq t = put_fixed64 (result @ user_key) (pack_sequence_and_type seq t)"

definition extract_user_key :: "bytes \<Rightarrow> bytes" where
  "extract_user_key internal_key = take (length internal_key - 8) internal_key"

definition extract_num :: "bytes \<Rightarrow> u64" where
  "extract_num internal_key = decode_fixed64 (drop (length internal_key - 8) internal_key)"

definition extract_value_type :: "bytes \<Rightarrow> u8" where
  "extract_value_type internal_key = ucast (extract_num internal_key AND 0xff)"

definition parse_internal_key :: "bytes \<Rightarrow> (bytes \<times> u64 \<times> value_type) option" where
  "parse_internal_key internal_key =
     (let n = length internal_key
      in if n < 8 then None
         else let num = extract_num internal_key; c = num AND 0xff
              in if c \<le> 1
                 then Some (extract_user_key internal_key, drop_bit 8 num, if c = 0 then Type_deletion else Type_value)
                 else None)"

definition internal_key_compare :: "bytes \<Rightarrow> bytes \<Rightarrow> int" where
  "internal_key_compare akey bkey =
     (let r = slice_compare (extract_user_key akey) (extract_user_key bkey)
      in if r = 0 then
           let anum = extract_num akey; bnum = extract_num bkey
           in if anum > bnum then - 1 else if anum < bnum then 1 else r
         else r)"

definition internal_find_shortest_separator :: "bytes \<Rightarrow> bytes \<Rightarrow> bytes" where
  "internal_find_shortest_separator start limit =
     (let user_start = extract_user_key start; tmp = find_shortest_separator user_start (extract_user_key limit)
      in if length tmp < length user_start \<and> slice_compare user_start tmp < 0
         then put_fixed64 tmp (pack_sequence_and_type kMaxSequenceNumber kValueTypeForSeek) else start)"

definition internal_find_short_successor :: "bytes \<Rightarrow> bytes" where
  "internal_find_short_successor key =
     (let user_key = extract_user_key key; tmp = find_short_successor user_key
      in if length tmp < length user_key \<and> slice_compare user_key tmp < 0
         then put_fixed64 tmp (pack_sequence_and_type kMaxSequenceNumber kValueTypeForSeek) else key)"

section \<open>Lookup keys\<close>

record lookup_key =
  lk_start :: bytes
  lk_kstart :: nat

definition lookup_key_new :: "bytes \<Rightarrow> u64 \<Rightarrow> lookup_key" where
  "lookup_key_new user_key s =
     (let v = encode_varint32 (of_nat (length user_key + 8))
      in \<lparr>lk_start = v @ user_key @ encode_fixed64 (pack_sequence_and_type s kValueTypeForSeek), lk_kstart = length v\<rparr>)"

definition memtable_key :: "lookup_key \<Rightarrow> bytes" where
  "memtable_key k = lk_start k"

definition lk_internal_key :: "lookup_key \<Rightarrow> bytes" where
  "lk_internal_key k = drop (lk_kstart k) (lk_start k)"

definition lk_user_key :: "lookup_key \<Rightarrow> bytes" where
  "lk_user_key k = take (length (lk_start k) - lk_kstart k - 8) (drop (lk_kstart k) (lk_start k))"

section \<open>The orders are linear\<close>

lemma slice_compare_simps [simp]:
  "slice_compare [] [] = 0" "slice_compare [] (y # ys) = - 1" "slice_compare (x # xs) [] = 1"
  "slice_compare (x # xs) (y # ys) = (if x = y then slice_compare xs ys else of_char x - of_char y)"
proof -
  have "(of_char x :: int) = of_char y \<longleftrightarrow> x = y"
    by (metis of_char_eq_iff)
  then show "slice_compare (x # xs) (y # ys) = (if x = y then slice_compare xs ys else of_char x - of_char y)"
    by (simp add: slice_compare_def Let_def)
qed (simp_all add: slice_compare_def)

lemma slice_compare_0: "slice_compare a b = 0 \<longleftrightarrow> a = b"
proof (induct a arbitrary: b)
  case (Cons x xs)
  have "(of_char x :: int) = of_char y \<longleftrightarrow> x = y" for y by (metis of_char_eq_iff)
  with Cons show ?case by (cases b) auto
qed (case_tac b, auto)

interpretation slices: comparator slice_compare
proof
  show "slice_compare a b < 0 \<longleftrightarrow> 0 < slice_compare b a" for a b
  proof (induct a arbitrary: b)
    case (Cons x xs)
    then show ?case by (cases b) auto
  qed (case_tac b, auto)
  show "slice_compare a b \<le> 0 \<Longrightarrow> slice_compare b c \<le> 0 \<Longrightarrow> slice_compare a c \<le> 0" for a b c
  proof (induct a arbitrary: b c)
    case Nil
    then show ?case by (cases c) simp_all
  next
    case (Cons x xs)
    from Cons.prems(1) obtain y ys where b: "b = y # ys" by (cases b) simp_all
    with Cons.prems(2) obtain z zs where c: "c = z # zs" by (cases c) simp_all
    have e: "(of_char u :: int) = of_char w \<longleftrightarrow> u = w" for u w :: char by (metis of_char_eq_iff)
    show ?case using Cons b c e [of x y] e [of y z] e [of x z] by (auto split: if_splits)
  qed
qed

interpretation ikeys: comparator internal_key_compare
proof
  have s: "slice_compare a b = 0 \<longleftrightarrow> slice_compare b a = 0" for a b by (auto simp: slice_compare_0)
  show "internal_key_compare a b < 0 \<longleftrightarrow> 0 < internal_key_compare b a" for a b
    using slices.cmp_sym [of "extract_user_key a" "extract_user_key b"] s [of "extract_user_key a" "extract_user_key b"]
    by (cases "extract_user_key a = extract_user_key b") (auto simp: internal_key_compare_def Let_def slices.cmp_refl)
  show "internal_key_compare a b \<le> 0 \<Longrightarrow> internal_key_compare b c \<le> 0 \<Longrightarrow> internal_key_compare a c \<le> 0" for a b c
  proof -
    assume ab: "internal_key_compare a b \<le> 0" and bc: "internal_key_compare b c \<le> 0"
    let ?u = "\<lambda>x y. slice_compare (extract_user_key x) (extract_user_key y)"
    have le: "?u a b \<le> 0" "?u b c \<le> 0"
      using ab bc by (auto simp: internal_key_compare_def Let_def split: if_splits)
    then have ac: "?u a c \<le> 0" by (rule slices.cmp_trans)
    show ?thesis
    proof (cases "?u a c = 0")
      case True
      then have "extract_user_key a = extract_user_key c" by (simp add: slice_compare_0)
      then have "?u a b = 0 \<and> ?u b c = 0" using le slices.cmp_sym [of "extract_user_key b" "extract_user_key a"] s by force
      then show ?thesis using ab bc True by (auto simp: internal_key_compare_def Let_def split: if_splits)
    next
      case False
      then show ?thesis using ac by (simp add: internal_key_compare_def Let_def)
    qed
  qed
qed

section \<open>Separators\<close>

lemma of_char_diff: "(of_char x :: int) - of_char y < 0 \<longleftrightarrow> (of_char x :: nat) < of_char y"
proof -
  have "(of_char c :: int) = int (of_char c)" for c by (rule of_nat_of_char [symmetric])
  then show ?thesis by presburger
qed

lemma char_succ:
  assumes "(of_char c :: nat) \<noteq> 255"
  shows "of_char (char_of ((of_char c :: nat) + 1)) = (of_char c :: nat) + 1" and "char_of ((of_char c :: nat) + 1) \<noteq> c"
proof -
  have "(of_char c :: nat) + 1 < 256" using assms of_char_bound [of c] by linarith
  then show e: "of_char (char_of ((of_char c :: nat) + 1)) = (of_char c :: nat) + 1" by simp
  show "char_of ((of_char c :: nat) + 1) \<noteq> c"
  proof
    assume "char_of ((of_char c :: nat) + 1) = c"
    with e show False by (metis n_not_Suc_n Suc_eq_plus1)
  qed
qed

text \<open>The separator of the byte-wise order: not before \<open>start\<close>, before \<open>limit\<close>, and not longer than \<open>start\<close>.\<close>

lemma separator_between:
  assumes "slice_compare start limit < 0"
  shows "slice_compare start (find_shortest_separator start limit) \<le> 0 \<and>
    slice_compare (find_shortest_separator start limit) limit < 0 \<and>
    length (find_shortest_separator start limit) \<le> length start"
  using assms
proof (induct start arbitrary: limit)
  case (Cons x xs)
  obtain y ys where l: "limit = y # ys" using Cons.prems by (cases limit) simp_all
  show ?case
  proof (cases "x = y")
    case True
    have IH: "slice_compare xs (find_shortest_separator xs ys) \<le> 0 \<and> slice_compare (find_shortest_separator xs ys) ys < 0 \<and>
        length (find_shortest_separator xs ys) \<le> length xs"
      using Cons.hyps [of ys] Cons.prems True l by simp
    have "find_shortest_separator (x # xs) (y # ys) = x # find_shortest_separator xs ys"
      using True by (simp add: find_shortest_separator_def Let_def)
    then show ?thesis using IH True l by simp
  next
    case False
    let ?b = "of_char x :: nat"
    show ?thesis
    proof (cases "?b < 255 \<and> ?b + 1 < of_char y")
      case True
      note c = char_succ [of x]
      have "char_of (?b + 1) \<noteq> y" using c(1) True by (metis less_irrefl nat_neq_iff)
      then show ?thesis
        using False l c True of_char_diff [of x "char_of (?b + 1)"] of_char_diff [of "char_of (?b + 1)" y]
        by (auto simp: find_shortest_separator_def Let_def)
    qed (use False Cons.prems l in \<open>auto simp: find_shortest_separator_def Let_def slices.cmp_refl\<close>)
  qed
qed (simp add: find_shortest_separator_def slices.cmp_refl)

lemma successor_after: "slice_compare key (find_short_successor key) \<le> 0 \<and> length (find_short_successor key) \<le> length key"
proof (induct key)
  case (Cons c key)
  show ?case using Cons of_char_diff [of c "char_of ((of_char c :: nat) + 1)"] char_succ [of c] by auto
qed simp

lemma ikey_parts [simp]:
  "extract_user_key (k @ encode_fixed64 n) = k" "extract_num (k @ encode_fixed64 n) = n"
  by (simp_all add: extract_user_key_def extract_num_def)

lemma internal_compare_parts:
  "internal_key_compare (k @ encode_fixed64 n) (k' @ encode_fixed64 n') =
    (if k = k' then if n > n' then - 1 else if n < n' then 1 else 0 else slice_compare k k')"
  by (simp add: internal_key_compare_def Let_def slice_compare_0 slices.cmp_refl)

lemma internal_separator_between:
  assumes "internal_key_compare start limit < 0"
  shows "internal_key_compare start (internal_find_shortest_separator start limit) \<le> 0 \<and>
    internal_key_compare (internal_find_shortest_separator start limit) limit < 0"
proof -
  let ?us = "extract_user_key start" and ?ul = "extract_user_key limit"
  let ?tmp = "find_shortest_separator ?us ?ul"
  show ?thesis
  proof (cases "length ?tmp < length ?us \<and> slice_compare ?us ?tmp < 0")
    case True
    have "?us \<noteq> ?ul"
    proof
      assume e: "?us = ?ul"
      have "find_shortest_separator k k = k" for k
      proof -
        have "common_prefix k k = length k" by (induct k) simp_all
        then show ?thesis by (simp add: find_shortest_separator_def)
      qed
      with e True show False by simp
    qed
    then have "slice_compare ?us ?ul < 0" using assms by (auto simp: internal_key_compare_def Let_def slice_compare_0)
    then have "slice_compare ?tmp ?ul < 0" using separator_between by blast
    then show ?thesis
      using True by (simp add: internal_find_shortest_separator_def Let_def put_fixed64_def internal_key_compare_def)
  next
    case False
    then have "internal_find_shortest_separator start limit = start"
      unfolding internal_find_shortest_separator_def Let_def by (rule if_not_P)
    then show ?thesis using assms by (simp add: ikeys.cmp_refl)
  qed
qed

lemma internal_successor_after: "internal_key_compare key (internal_find_short_successor key) \<le> 0"
  by (simp add: internal_find_short_successor_def Let_def slices.cmp_refl put_fixed64_def internal_key_compare_def)

section \<open>Packed sequence numbers\<close>

lemma type_num_simps: "type_num Type_deletion = 0" "type_num Type_value = 1"
  by (simp_all add: type_num_def)

lemma unat_pack: "unat seq < 2 ^ 56 \<Longrightarrow> unat (pack_sequence_and_type seq t) = unat seq * 256 + unat (type_num t)"
proof -
  assume s: "unat seq < 2 ^ 56"
  have "push_bit 8 seq AND type_num t = 0"
    by (cases t) (auto simp: type_num_simps bit_and_iff bit_push_bit_iff bit_1_iff intro!: bit_eqI)
  then have "pack_sequence_and_type seq t = push_bit 8 seq + type_num t"
    by (simp add: pack_sequence_and_type_def disjunctive_add_eq_or)
  moreover have "unat (push_bit 8 seq) = unat seq * 256"
    using s by (simp add: unsigned_push_bit_eq push_bit_nat_def take_bit_nat_def)
  moreover have "unat (type_num t) \<le> 1" by (cases t) (simp_all add: type_num_simps)
  ultimately show ?thesis using s by (simp add: unat_word_ariths)
qed

lemma pack_parts:
  assumes "unat seq < 2 ^ 56"
  shows "drop_bit 8 (pack_sequence_and_type seq t) = seq" and "pack_sequence_and_type seq t AND 0xff = type_num t"
proof -
  have t: "unat (type_num t) < 256" by (cases t) (simp_all add: type_num_simps)
  have "unat (drop_bit 8 (pack_sequence_and_type seq t)) = unat seq"
    using t unfolding unat_drop_bit_eq unat_pack [OF assms] by (simp add: drop_bit_nat_def)
  then show "drop_bit 8 (pack_sequence_and_type seq t) = seq" by (rule word_unat_eq_iff [THEN iffD2])
  have "pack_sequence_and_type seq t AND 0xff = take_bit 8 (pack_sequence_and_type seq t)"
    by (simp add: take_bit_eq_mask mask_eq_exp_minus_1)
  then have "unat (pack_sequence_and_type seq t AND 0xff) = unat (type_num t)"
    using t by (simp add: unsigned_take_bit_eq unat_pack [OF assms] take_bit_nat_def)
  then show "pack_sequence_and_type seq t AND 0xff = type_num t" by (rule word_unat_eq_iff [THEN iffD2])
qed

lemma parse_append:
  assumes "unat seq < 2 ^ 56"
  shows "parse_internal_key (append_internal_key [] key seq t) = Some (key, seq, t)"
  using pack_parts [OF assms]
  by (cases t) (simp_all add: parse_internal_key_def append_internal_key_def put_fixed64_def Let_def type_num_simps)

end
