(* ===== verification/LdbMem.thy ===== *)
theory LdbMem
  imports LdbFormat OrdMap
begin

text \<open>
  The write path of leveldb: batches of writes in their serialized form
  (src/zcloud/leveldb/db/write_batch.cc) and the table in memory they are inserted into
  (db/memtable.cc), over the skip list.
\<close>

section \<open>Memory table\<close>

text \<open>
  \<^verbatim>\<open>GetLengthPrefixedSlice(const char*)\<close> of memtable.cc: the length takes at most five bytes, and the limit
  of the memory is not known.  The second component is the memory behind the string.
\<close>

definition get_slice5 :: "bytes \<Rightarrow> bytes \<times> bytes" where
  "get_slice5 data =
     (case get_varint32_ptr (take 5 data) of
        None \<Rightarrow> ([], [])
      | Some (len, r) \<Rightarrow>
          let p = drop (length (take 5 data) - length r) data in (take (unat len) p, drop (unat len) p))"

definition mem_compare :: "bytes \<Rightarrow> bytes \<Rightarrow> int" where
  "mem_compare aptr bptr = internal_key_compare (fst (get_slice5 aptr)) (fst (get_slice5 bptr))"

type_synonym memtable = "bytes skiplist"

definition mem_new :: memtable where "mem_new = sk_new []"

definition encode_key :: "bytes \<Rightarrow> bytes" where
  "encode_key target = put_varint32 [] (of_nat (length target)) @ target"

definition mem_entry :: "u64 \<Rightarrow> value_type \<Rightarrow> bytes \<Rightarrow> bytes \<Rightarrow> bytes" where
  "mem_entry s type key value =
     encode_varint32 (of_nat (length key + 8)) @ key @ encode_fixed64 (push_bit 8 s OR type_num type) @
     encode_varint32 (of_nat (length value)) @ value"

definition mem_add :: "u64 \<Rightarrow> value_type \<Rightarrow> bytes \<Rightarrow> bytes \<Rightarrow> memtable \<Rightarrow> memtable option" where
  "mem_add s type key value mem = sk_insert mem_compare (mem_entry s type key value) mem"

datatype mem_result = Mem_absent | Mem_value bytes | Mem_deleted

text \<open>The result is outside \<^const>\<open>None\<close> only when the search of the list does not end.\<close>

definition mem_get :: "lookup_key \<Rightarrow> memtable \<Rightarrow> mem_result option" where
  "mem_get key mem =
     (case sk_seek mem_compare mem (memtable_key key) of
        None \<Rightarrow> None
      | Some None \<Rightarrow> Some Mem_absent
      | Some (Some x) \<Rightarrow>
          (let entry = sk_key mem x; (ikey, rest) = get_slice5 entry
           in if slice_compare (take (length ikey - 8) ikey) (lk_user_key key) = 0
              then let tag = decode_fixed64 (drop (length ikey - 8) ikey)
                   in if tag AND 0xff = 1 then Some (Mem_value (fst (get_slice5 rest)))
                      else if tag AND 0xff = 0 then Some Mem_deleted else Some Mem_absent
              else Some Mem_absent))"

section \<open>Batches\<close>

type_synonym wbatch = bytes

abbreviation kHeader :: nat where "kHeader \<equiv> 12"

definition wb_clear :: wbatch where "wb_clear = replicate kHeader NUL"

definition wb_count :: "wbatch \<Rightarrow> u32" where "wb_count b = decode_fixed32 (drop 8 b)"

definition wb_set_count :: "u32 \<Rightarrow> wbatch \<Rightarrow> wbatch" where
  "wb_set_count n b = take 8 b @ encode_fixed32 n @ drop 12 b"

definition wb_sequence :: "wbatch \<Rightarrow> u64" where "wb_sequence b = decode_fixed64 b"

definition wb_set_sequence :: "u64 \<Rightarrow> wbatch \<Rightarrow> wbatch" where
  "wb_set_sequence seq b = encode_fixed64 seq @ drop 8 b"

definition tag_char :: "value_type \<Rightarrow> char" where
  "tag_char t = char_of (unat (type_num t))"

definition wb_put :: "bytes \<Rightarrow> bytes \<Rightarrow> wbatch \<Rightarrow> wbatch" where
  "wb_put key value b =
     put_length_prefixed_slice (put_length_prefixed_slice (wb_set_count (wb_count b + 1) b @ [tag_char Type_value]) key) value"

definition wb_delete :: "bytes \<Rightarrow> wbatch \<Rightarrow> wbatch" where
  "wb_delete key b = put_length_prefixed_slice (wb_set_count (wb_count b + 1) b @ [tag_char Type_deletion]) key"

definition wb_append :: "wbatch \<Rightarrow> wbatch \<Rightarrow> wbatch" where
  "wb_append dst src = wb_set_count (wb_count dst + wb_count src) dst @ drop kHeader src"

datatype wb_status = Wb_ok | Wb_corruption string

lemma get_varint32_shorter: "get_varint32_loop s r p = Some (v, q) \<Longrightarrow> length q < length p"
  by (induct s r p rule: get_varint32_loop.induct) (auto simp: Let_def split: if_splits)

lemma get_slice_shorter: "get_length_prefixed_slice p = Some (v, q) \<Longrightarrow> length q < length p"
  by (auto simp: get_length_prefixed_slice_def get_varint32_ptr_eq get_varint32_ptr_fallback_def
      split: option.splits if_splits dest!: get_varint32_shorter intro: less_imp_diff_less)

text \<open>\<^verbatim>\<open>Iterate\<close>: the handler is called for each operation, in order, also when an error follows.\<close>

function wb_iterate_loop :: "(batch_op \<Rightarrow> 's \<Rightarrow> 's) \<Rightarrow> 's \<Rightarrow> u32 \<Rightarrow> u32 \<Rightarrow> bytes \<Rightarrow> 's \<times> wb_status" where
  "wb_iterate_loop f st count found [] =
     (st, if found \<noteq> count then Wb_corruption ''WriteBatch has wrong count'' else Wb_ok)"
| "wb_iterate_loop f st count found (tag # input) =
     (if tag = tag_char Type_value then
        (case get_length_prefixed_slice input of
           None \<Rightarrow> (st, Wb_corruption ''bad WriteBatch Put'')
         | Some (key, input1) \<Rightarrow>
            (case get_length_prefixed_slice input1 of
               None \<Rightarrow> (st, Wb_corruption ''bad WriteBatch Put'')
             | Some (value, input2) \<Rightarrow> wb_iterate_loop f (f (Batch_Put key value) st) count (found + 1) input2))
      else if tag = tag_char Type_deletion then
        (case get_length_prefixed_slice input of
           None \<Rightarrow> (st, Wb_corruption ''bad WriteBatch Delete'')
         | Some (key, input1) \<Rightarrow> wb_iterate_loop f (f (Batch_Delete key) st) count (found + 1) input1)
      else (st, Wb_corruption ''unknown WriteBatch tag''))"
  by pat_completeness auto
termination
  by (relation "measure (\<lambda>(_, _, _, _, input). length input)") (auto dest!: get_slice_shorter)

definition wb_iterate :: "(batch_op \<Rightarrow> 's \<Rightarrow> 's) \<Rightarrow> 's \<Rightarrow> wbatch \<Rightarrow> 's \<times> wb_status" where
  "wb_iterate f st b =
     (if length b < kHeader then (st, Wb_corruption ''malformed WriteBatch (too small)'')
      else wb_iterate_loop f st (wb_count b) 0 (drop kHeader b))"

text \<open>\<^verbatim>\<open>MemTableInserter\<close>: the table, and the sequence number of the next operation.\<close>

fun mem_inserter :: "batch_op \<Rightarrow> (memtable \<times> u64) option \<Rightarrow> (memtable \<times> u64) option" where
  "mem_inserter op None = None"
| "mem_inserter (Batch_Put key value) (Some (mem, seq)) =
     map_option (\<lambda>m. (m, seq + 1)) (mem_add seq Type_value key value mem)"
| "mem_inserter (Batch_Delete key) (Some (mem, seq)) =
     map_option (\<lambda>m. (m, seq + 1)) (mem_add seq Type_deletion key [] mem)"

definition wb_insert_into :: "wbatch \<Rightarrow> memtable \<Rightarrow> (memtable \<times> u64) option \<times> wb_status" where
  "wb_insert_into b mem = wb_iterate mem_inserter (Some (mem, wb_sequence b)) b"

section \<open>Batches keep their operations\<close>

fun wb_op :: "batch_op \<Rightarrow> wbatch \<Rightarrow> wbatch" where
  "wb_op (Batch_Put key value) b = wb_put key value b"
| "wb_op (Batch_Delete key) b = wb_delete key b"

definition wb_build :: "batch_op list \<Rightarrow> wbatch" where
  "wb_build ops = fold wb_op ops wb_clear"

fun op_bytes :: "batch_op \<Rightarrow> bytes" where
  "op_bytes (Batch_Put key value) = tag_char Type_value # put_length_prefixed_slice [] key @ put_length_prefixed_slice [] value"
| "op_bytes (Batch_Delete key) = tag_char Type_deletion # put_length_prefixed_slice [] key"

text \<open>Keys and values whose lengths fit the encoding.\<close>

fun op_fits :: "batch_op \<Rightarrow> bool" where
  "op_fits (Batch_Put key value) \<longleftrightarrow> length key + 8 < 2 ^ 32 \<and> length value < 2 ^ 32"
| "op_fits (Batch_Delete key) \<longleftrightarrow> length key + 8 < 2 ^ 32"

lemma tag_chars [simp]: "tag_char Type_value \<noteq> tag_char Type_deletion" "tag_char Type_deletion \<noteq> tag_char Type_value"
  by code_simp+

lemma wb_op_eq:
  assumes "length h = 8"
  shows "wb_op op (h @ encode_fixed32 n @ body) = h @ encode_fixed32 (n + 1) @ body @ op_bytes op"
  using assms
  by (cases op) (simp_all add: wb_put_def wb_delete_def wb_set_count_def wb_count_def
      put_length_prefixed_append [of "_ @ _"] put_length_prefixed_append [of "_ # _"])

lemma fold_wb_op:
  "length h = 8 \<Longrightarrow> fold wb_op ops (h @ encode_fixed32 n @ body) =
    h @ encode_fixed32 (n + of_nat (length ops)) @ body @ concat (map op_bytes ops)"
  by (induct ops arbitrary: n body) (simp_all add: wb_op_eq add.assoc)

lemma wb_build_eq: "wb_build ops = replicate 8 NUL @ encode_fixed32 (of_nat (length ops)) @ concat (map op_bytes ops)"
proof -
  have "wb_clear = replicate 8 NUL @ encode_fixed32 0 @ []" unfolding wb_clear_def by code_simp
  then show ?thesis using fold_wb_op [of "replicate 8 NUL" ops 0 "[]"] by (simp add: wb_build_def)
qed

lemma wb_set_sequence_eq:
  "length h = 8 \<Longrightarrow> wb_set_sequence seq (h @ b) = encode_fixed64 seq @ b"
  by (simp add: wb_set_sequence_def)

lemma wb_iterate_loop_ops:
  "list_all op_fits ops \<Longrightarrow>
    wb_iterate_loop f st count found (concat (map op_bytes ops)) =
      (fold f ops st, if found + of_nat (length ops) \<noteq> count then Wb_corruption ''WriteBatch has wrong count'' else Wb_ok)"
proof (induct ops arbitrary: st found)
  case (Cons op ops)
  have IH: "wb_iterate_loop f st' count (found + 1) (concat (map op_bytes ops)) =
      (fold f ops st', if found + of_nat (length (op # ops)) \<noteq> count
        then Wb_corruption ''WriteBatch has wrong count'' else Wb_ok)" for st'
    using Cons.hyps [of st' "found + 1"] Cons.prems by (simp add: add.assoc)
  show ?case using Cons.prems IH by (cases op) (simp_all add: length_prefixed_roundtrip)
qed simp

lemma wb_iterate_build:
  "list_all op_fits ops \<Longrightarrow> wb_iterate f st (wb_set_sequence seq (wb_build ops)) = (fold f ops st, Wb_ok)"
  using wb_iterate_loop_ops [of ops f st "of_nat (length ops)" 0]
  by (simp add: wb_iterate_def wb_build_eq wb_set_sequence_eq wb_count_def)

lemma wb_sequence_set: "wb_sequence (wb_set_sequence seq b) = seq"
  by (simp add: wb_sequence_def wb_set_sequence_def)

lemma wb_append_build:
  "wb_set_sequence seq (wb_append (wb_build a) (wb_build b)) = wb_set_sequence seq (wb_build (a @ b))"
  by (simp add: wb_append_def wb_build_eq wb_set_sequence_eq wb_set_count_def wb_count_def)

section \<open>Entries\<close>

lemma get_slice5_encode:
  "get_slice5 (encode_varint32 v @ rest) = (take (unat v) rest, drop (unat v) rest)"
proof -
  have "take 5 (encode_varint32 v @ rest) = encode_varint32 v @ take (5 - length (encode_varint32 v)) rest"
    using length_encode_varint32(2) [of v] by simp
  then show ?thesis using length_encode_varint32(2) [of v] by (simp add: get_slice5_def Let_def)
qed

lemma unat_of_nat32: "n < 2 ^ 32 \<Longrightarrow> unat (of_nat n :: u32) = n"
  by (simp add: unat_of_nat)

lemma mem_entry_parts:
  assumes "length key + 8 < 2 ^ 32" and "length value < 2 ^ 32"
  shows "get_slice5 (mem_entry s t key value) =
      (key @ encode_fixed64 (pack_sequence_and_type s t), encode_varint32 (of_nat (length value)) @ value)"
    and "get_slice5 (encode_varint32 (of_nat (length value)) @ value) = (value, [])"
proof -
  have "unat (of_nat (length key + 8) :: u32) = length key + 8" "unat (of_nat (length value) :: u32) = length value"
    using unat_of_nat32 assms by blast+
  then show "get_slice5 (mem_entry s t key value) =
      (key @ encode_fixed64 (pack_sequence_and_type s t), encode_varint32 (of_nat (length value)) @ value)"
    "get_slice5 (encode_varint32 (of_nat (length value)) @ value) = (value, [])"
    by (simp_all only: mem_entry_def get_slice5_encode pack_sequence_and_type_def) simp_all
qed

interpretation mems: comparator mem_compare
  unfolding mem_compare_def by unfold_locales (rule ikeys.cmp_sym, rule ikeys.cmp_trans)

fun op_key :: "batch_op \<Rightarrow> bytes" where
  "op_key (Batch_Put key value) = key"
| "op_key (Batch_Delete key) = key"

fun op_type :: "batch_op \<Rightarrow> value_type" where
  "op_type (Batch_Put key value) = Type_value"
| "op_type (Batch_Delete key) = Type_deletion"

fun op_value :: "batch_op \<Rightarrow> bytes option" where
  "op_value (Batch_Put key value) = Some value"
| "op_value (Batch_Delete key) = None"

definition op_entry :: "nat \<Rightarrow> batch_op \<Rightarrow> bytes" where
  "op_entry seq op = mem_entry (of_nat seq) (op_type op) (op_key op) (case op_value op of None \<Rightarrow> [] | Some v \<Rightarrow> v)"

text \<open>The number of an operation in its internal key.\<close>

definition op_num :: "nat \<Rightarrow> value_type \<Rightarrow> nat" where
  "op_num seq t = seq * 256 + unat (type_num t)"

lemma op_entry_parts:
  assumes "op_fits op"
  shows "fst (get_slice5 (op_entry seq op)) = op_key op @ encode_fixed64 (pack_sequence_and_type (of_nat seq) (op_type op))"
    and "fst (get_slice5 (snd (get_slice5 (op_entry seq op)))) = (case op_value op of None \<Rightarrow> [] | Some v \<Rightarrow> v)"
proof -
  let ?v = "case op_value op of None \<Rightarrow> [] | Some v \<Rightarrow> v"
  have "length (op_key op) + 8 < 2 ^ 32" "length ?v < 2 ^ 32" using assms by (cases op; simp)+
  note p = mem_entry_parts [OF this]
  show "fst (get_slice5 (op_entry seq op)) = op_key op @ encode_fixed64 (pack_sequence_and_type (of_nat seq) (op_type op))"
    "fst (get_slice5 (snd (get_slice5 (op_entry seq op)))) = ?v"
    unfolding op_entry_def p(1) snd_conv p(2) by simp_all
qed

lemma pack_of_nat: "seq < 2 ^ 56 \<Longrightarrow> unat (pack_sequence_and_type (of_nat seq) t) = op_num seq t"
proof -
  assume s: "seq < 2 ^ 56"
  then have "unat (of_nat seq :: u64) = seq" by (simp add: unat_of_nat)
  then show ?thesis using unat_pack [of "of_nat seq" t] s by (simp add: op_num_def)
qed

lemma pack_less:
  assumes "seq < 2 ^ 56" and "seq' < 2 ^ 56"
  shows "pack_sequence_and_type (of_nat seq) t < pack_sequence_and_type (of_nat seq') t' \<longleftrightarrow> op_num seq t < op_num seq' t'"
  using assms by (simp add: word_less_nat_alt pack_of_nat)

lemma type_num_le: "unat (type_num t) \<le> 1"
  by (cases t) (simp_all add: type_num_simps)

lemma op_num_less: "seq \<noteq> seq' \<Longrightarrow> op_num seq t < op_num seq' t' \<longleftrightarrow> seq < seq'"
  using type_num_le [of t] type_num_le [of t'] unfolding op_num_def by linarith

lemma op_num_target: "op_num seq t > op_num s Type_value \<longleftrightarrow> seq > s"
  using type_num_le [of t] by (cases "seq = s") (auto simp: op_num_less op_num_def type_num_simps)

lemma compare_entries:
  assumes "op_fits op" and "op_fits op'" and "seq < 2 ^ 56" and "seq' < 2 ^ 56"
  shows "mem_compare (op_entry seq op) (op_entry seq' op') =
    (if op_key op = op_key op' then
       if op_num seq (op_type op) > op_num seq' (op_type op') then - 1
       else if op_num seq (op_type op) < op_num seq' (op_type op') then 1 else 0
     else slice_compare (op_key op) (op_key op'))"
  using assms by (simp add: mem_compare_def op_entry_parts internal_compare_parts pack_less)

lemma lookup_parts:
  assumes "length k + 8 < 2 ^ 32"
  shows "fst (get_slice5 (memtable_key (lookup_key_new k s))) = k @ encode_fixed64 (pack_sequence_and_type s Type_value)"
    and "lk_user_key (lookup_key_new k s) = k"
proof -
  have "unat (of_nat (length k + 8) :: u32) = length k + 8" using unat_of_nat32 assms by blast
  then show "fst (get_slice5 (memtable_key (lookup_key_new k s))) = k @ encode_fixed64 (pack_sequence_and_type s Type_value)"
    unfolding memtable_key_def lookup_key_new_def Let_def lookup_key.simps by (simp only: get_slice5_encode) simp
  show "lk_user_key (lookup_key_new k s) = k"
    by (simp add: lk_user_key_def lookup_key_new_def Let_def)
qed

lemma compare_lookup:
  assumes "op_fits op" and "seq < 2 ^ 56" and "s < 2 ^ 56" and "length k + 8 < 2 ^ 32"
  shows "mem_compare (op_entry seq op) (memtable_key (lookup_key_new k (of_nat s))) < 0 \<longleftrightarrow>
    (if op_key op = k then s < seq else slice_compare (op_key op) k < 0)"
  using assms op_num_target [of s seq "op_type op"]
  by (simp add: mem_compare_def op_entry_parts lookup_parts internal_compare_parts pack_less)

section \<open>Histories\<close>

text \<open>The table after a sequence of operations, the first with sequence number \<open>base\<close>.\<close>

definition mem_rep :: "nat \<Rightarrow> batch_op list \<Rightarrow> memtable \<Rightarrow> bool" where
  "mem_rep base hist mem \<longleftrightarrow> base + length hist < 2 ^ 56 \<and> list_all op_fits hist \<and>
     (\<exists>L. sk_rep mem_compare mem L \<and> set (map (sk_key mem) L) = (\<lambda>i. op_entry (base + i) (hist ! i)) ` {..<length hist})"

lemma mem_rep_new: "base < 2 ^ 56 \<Longrightarrow> mem_rep base [] mem_new"
  unfolding mem_rep_def mem_new_def by (auto intro: exI [of _ "[]"] sk_rep_new)

lemma mem_inserter_eq:
  "mem_inserter op (Some (mem, of_nat seq)) = map_option (\<lambda>m. (m, of_nat (seq + 1))) (sk_insert mem_compare (op_entry seq op) mem)"
  by (cases op) (simp_all add: op_entry_def mem_add_def add.commute)

lemma mem_insert_rep:
  assumes "mem_rep base hist mem" and "op_fits op" and "base + length hist + 1 < 2 ^ 56"
  shows "\<exists>mem'. mem_inserter op (Some (mem, of_nat (base + length hist))) = Some (mem', of_nat (base + length (hist @ [op]))) \<and>
    mem_rep base (hist @ [op]) mem'"
proof -
  let ?n = "length hist" and ?e = "\<lambda>i. op_entry (base + i) (hist ! i)"
  obtain L where L: "sk_rep mem_compare mem L" "set (map (sk_key mem) L) = ?e ` {..<?n}" and fits: "list_all op_fits hist"
    using assms(1) by (auto simp: mem_rep_def)
  have "mem_compare (sk_key mem a) (op_entry (base + ?n) op) \<noteq> 0" if a: "a \<in> set L" for a
  proof -
    obtain i where i: "i < ?n" "sk_key mem a = ?e i" using L(2) a by auto
    have "op_fits (hist ! i)" using fits i(1) by (simp add: list_all_length)
    then show ?thesis
      using i assms(2,3) op_num_less [of "base + i" "base + ?n"]
      by (simp add: compare_entries slice_compare_0)
  qed
  then obtain mem' L' where ins: "sk_insert mem_compare (op_entry (base + ?n) op) mem = Some mem'"
      "sk_rep mem_compare mem' L'"
      "map (sk_key mem') L' = takeWhile (\<lambda>k. mem_compare k (op_entry (base + ?n) op) < 0) (map (sk_key mem) L) @
        op_entry (base + ?n) op # dropWhile (\<lambda>k. mem_compare k (op_entry (base + ?n) op) < 0) (map (sk_key mem) L)"
    using mems.sk_insert_spec [OF L(1)] by blast
  have "set (map (sk_key mem') L') = insert (op_entry (base + ?n) op) (set (map (sk_key mem) L))"
    unfolding ins(3) by (metis set_append list.simps(15) Un_insert_right takeWhile_dropWhile_id)
  also have "\<dots> = (\<lambda>i. op_entry (base + i) ((hist @ [op]) ! i)) ` {..<length (hist @ [op])}"
    unfolding L(2) by (auto simp: nth_append lessThan_Suc)
  finally have "mem_rep base (hist @ [op]) mem'"
    using ins(2) assms fits by (auto simp: mem_rep_def)
  moreover have "base + length (hist @ [op]) = base + ?n + 1" by simp
  ultimately show ?thesis by (intro exI [of _ mem']) (simp only: mem_inserter_eq ins(1) option.map simp_thms)
qed

lemma mem_insert_all:
  assumes "mem_rep base hist mem" and "list_all op_fits ops" and "base + length hist + length ops < 2 ^ 56"
  shows "\<exists>mem'. fold mem_inserter ops (Some (mem, of_nat (base + length hist))) =
      Some (mem', of_nat (base + length (hist @ ops))) \<and> mem_rep base (hist @ ops) mem'"
  using assms
proof (induct ops arbitrary: hist mem)
  case (Cons op ops)
  obtain m where m: "mem_inserter op (Some (mem, of_nat (base + length hist))) = Some (m, of_nat (base + length (hist @ [op])))"
      "mem_rep base (hist @ [op]) m"
    using mem_insert_rep [OF Cons.prems(1), of op] Cons.prems(2,3) by auto
  have "\<exists>mem'. fold mem_inserter ops (Some (m, of_nat (base + length (hist @ [op])))) =
      Some (mem', of_nat (base + length ((hist @ [op]) @ ops))) \<and> mem_rep base ((hist @ [op]) @ ops) mem'"
    using Cons.prems(2,3) by (intro Cons.hyps m(2)) simp_all
  then show ?case using m(1) by simp
qed simp

section \<open>Lookup\<close>

lemma last_write_None: "last_write ops k = None \<longleftrightarrow> (\<forall>op\<in>set ops. op_key op \<noteq> k)"
  by (induct ops k rule: last_write.induct) (auto split: option.splits)

lemma last_write_Some:
  "last_write ops k = Some w \<Longrightarrow>
    \<exists>i<length ops. op_key (ops ! i) = k \<and> w = op_value (ops ! i) \<and> (\<forall>j. i < j \<and> j < length ops \<longrightarrow> op_key (ops ! j) \<noteq> k)"
proof (induct ops rule: rev_induct)
  case (snoc op ops)
  show ?case
  proof (cases "op_key op = k")
    case True
    then have "w = op_value op" using snoc.prems by (cases op) (auto simp: last_write_append)
    then show ?thesis using True by (intro exI [of _ "length ops"]) (auto simp: nth_append)
  next
    case False
    then have "last_write [op] k = None" by (cases op) auto
    then have "last_write ops k = Some w" using snoc.prems by (simp add: last_write_append)
    then obtain i where "i < length ops" "op_key (ops ! i) = k" "w = op_value (ops ! i)"
      "\<forall>j. i < j \<and> j < length ops \<longrightarrow> op_key (ops ! j) \<noteq> k" using snoc.hyps by blast
    then show ?thesis using False by (intro exI [of _ i]) (auto simp: nth_append less_Suc_eq)
  qed
qed simp

fun mem_found :: "bytes option option \<Rightarrow> mem_result" where
  "mem_found None = Mem_absent"
| "mem_found (Some None) = Mem_deleted"
| "mem_found (Some (Some v)) = Mem_value v"

text \<open>What \<^const>\<open>mem_get\<close> answers when the search ends at the entry of an operation.\<close>

lemma mem_get_at:
  assumes "sk_seek mem_compare mem (memtable_key (lookup_key_new k s)) = Some (Some x)"
    and "sk_key mem x = op_entry seq op" and "op_fits op" and "seq < 2 ^ 56" and "length k + 8 < 2 ^ 32"
  shows "mem_get (lookup_key_new k s) mem = Some (if op_key op = k then mem_found (Some (op_value op)) else Mem_absent)"
proof -
  let ?n = "pack_sequence_and_type (of_nat seq) (op_type op)"
  have s: "unat (of_nat seq :: u64) < 2 ^ 56" using assms(4) by (simp add: unat_of_nat)
  obtain ik r where ik: "get_slice5 (op_entry seq op) = (ik, r)" by fastforce
  have e: "ik = op_key op @ encode_fixed64 ?n" "fst (get_slice5 r) = (case op_value op of None \<Rightarrow> [] | Some v \<Rightarrow> v)"
    using op_entry_parts [OF assms(3), of seq] ik by simp_all
  have tag: "decode_fixed64 (drop (length ik - 8) ik) AND 0xff = type_num (op_type op)"
    using pack_parts(2) [OF s] by (simp add: e(1))
  have key: "take (length ik - 8) ik = op_key op" by (simp add: e(1))
  show ?thesis
    unfolding mem_get_def assms(1) option.case Let_def assms(2) ik prod.case key tag lookup_parts(2) [OF assms(5)] e(2)
    by (cases op) (simp_all add: slice_compare_0 type_num_simps)
qed

lemma mem_get_rep:
  assumes "mem_rep base hist mem" and "s < 2 ^ 56" and "length k + 8 < 2 ^ 32"
  shows "mem_get (lookup_key_new k (of_nat s)) mem = Some (mem_found (last_write (take (s + 1 - base) hist) k))"
proof -
  let ?e = "\<lambda>i. op_entry (base + i) (hist ! i)" and ?t = "memtable_key (lookup_key_new k (of_nat s))"
  let ?m = "s + 1 - base" and ?n = "length hist"
  obtain L where L: "sk_rep mem_compare mem L" "set (map (sk_key mem) L) = ?e ` {..<?n}"
    and fits: "\<And>i. i < ?n \<Longrightarrow> op_fits (hist ! i)" and b: "base + ?n < 2 ^ 56"
    using assms(1) by (auto simp: mem_rep_def list_all_length)
  have entry: "\<exists>i<?n. sk_key mem a = ?e i" if "a \<in> set L" for a using L(2) that by auto
  have less: "mem_compare (?e i) ?t < 0 \<longleftrightarrow> (if op_key (hist ! i) = k then s < base + i else slice_compare (op_key (hist ! i)) k < 0)"
    if "i < ?n" for i using compare_lookup [OF fits [OF that] _ assms(2,3)] that b by simp
  note seek = mems.sk_seek_spec [OF L(1), of ?t]
  show ?thesis
  proof (cases "last_write (take ?m hist) k")
    case None
    have none: "op_key (hist ! i) \<noteq> k" if "i < ?n" "i < ?m" for i
      using None that nth_mem [of i "take ?m hist"] unfolding last_write_None by auto
    show ?thesis
    proof (cases "List.find (\<lambda>a. \<not> mem_compare (sk_key mem a) ?t < 0) L")
      case None
      then show ?thesis using seek \<open>last_write _ _ = None\<close> by (simp add: mem_get_def)
    next
      case (Some x)
      then obtain i where i: "i < ?n" "sk_key mem x = ?e i" "\<not> mem_compare (?e i) ?t < 0"
        using entry [of x] find_split [OF Some] by auto
      have "i < ?m" if "\<not> s < base + i" using that by linarith
      then have "op_key (hist ! i) \<noteq> k" using less [OF i(1)] i(3) none [OF i(1)] by auto
      then show ?thesis
        using mem_get_at [OF _ i(2) fits [OF i(1)] _ assms(3), of "of_nat s"] seek Some i(1) b \<open>last_write _ _ = None\<close> by simp
    qed
  next
    case (Some w)
    then obtain i where i: "i < length (take ?m hist)" "op_key (take ?m hist ! i) = k" "w = op_value (take ?m hist ! i)"
      "\<forall>j. i < j \<and> j < length (take ?m hist) \<longrightarrow> op_key (take ?m hist ! j) \<noteq> k" using last_write_Some [OF Some] by blast
    then have i': "i < ?n" "base + i \<le> s" "op_key (hist ! i) = k" "w = op_value (hist ! i)"
      and last: "\<And>j. i < j \<Longrightarrow> j < ?n \<Longrightarrow> base + j \<le> s \<Longrightarrow> op_key (hist ! j) \<noteq> k" by auto
    have "?e i \<in> set (map (sk_key mem) L)" unfolding L(2) using i'(1) by blast
    then obtain a where a: "a \<in> set L" "sk_key mem a = ?e i" by auto
    have na: "\<not> mem_compare (sk_key mem a) ?t < 0" using less [OF i'(1)] i' a(2) by simp
    then obtain x where x: "List.find (\<lambda>a. \<not> mem_compare (sk_key mem a) ?t < 0) L = Some x"
      using a(1) by (cases "List.find (\<lambda>a. \<not> mem_compare (sk_key mem a) ?t < 0) L") (auto simp: find_None_iff)
    then obtain A B where AB: "L = A @ x # B" "\<not> mem_compare (sk_key mem x) ?t < 0"
      "\<forall>z\<in>set A. mem_compare (sk_key mem z) ?t < 0" using find_split [OF x] by auto
    then have "a = x \<or> a \<in> set B" using a(1) na by auto
    then have xa: "mem_compare (sk_key mem x) (sk_key mem a) \<le> 0"
      using L(1) AB(1) by (auto simp: sk_rep_def sorted_wrt_append mems.cmp_refl less_imp_le)
    obtain j where j: "j < ?n" "sk_key mem x = ?e j" using entry [of x] AB(1) by auto
    have c: "mem_compare (?e j) (?e i) \<le> 0" using xa j(2) a(2) by simp
    have "j = i"
    proof (rule ccontr)
      assume ji: "j \<noteq> i"
      have cmp: "mem_compare (?e j) (?e i) = (if op_key (hist ! j) = k then if i < j then - 1 else 1 else slice_compare (op_key (hist ! j)) k)"
        using compare_entries [OF fits [OF j(1)] fits [OF i'(1)]] op_num_less [of "base + i" "base + j"]
          op_num_less [of "base + j" "base + i"] ji j(1) i'(1,3) b by simp
      show False
        using c cmp less [OF j(1)] AB(2) j(2) last [of j] j(1) slice_compare_0 [of "op_key (hist ! j)" k]
        by (auto split: if_splits)
    qed
    then show ?thesis
      using mem_get_at [OF _ j(2) fits [OF j(1)] _ assms(3), of "of_nat s"] seek x j(1) b i' Some by simp
  qed
qed

end
