(* ===== verification/LdbLog.thy ===== *)
theory LdbLog
  imports Crc32c
begin

text \<open>
  The log of leveldb (\<^verbatim>\<open>db/log_format.h\<close>, \<^verbatim>\<open>db/log_writer.cc\<close>, \<^verbatim>\<open>db/log_reader.cc\<close>): a file of
  blocks of 32768 bytes, each a sequence of physical records with a header of checksum, length and
  type, into which the writer cuts the records and from which the reader joins them.  What is read
  is what was written, also when the file ends early, and the reader ends on every file.
\<close>

section \<open>Format\<close>

datatype record_type = Zero_type | Full_type | First_type | Middle_type | Last_type

fun rt_num :: "record_type \<Rightarrow> nat" where
  "rt_num Zero_type = 0"
| "rt_num Full_type = 1"
| "rt_num First_type = 2"
| "rt_num Middle_type = 3"
| "rt_num Last_type = 4"

definition kMaxRecordType :: nat where "kMaxRecordType = rt_num Last_type"

definition kBlockSize :: nat where "kBlockSize = 32768"

definition kHeaderSize :: nat where "kHeaderSize = 4 + 1 + 2"

text \<open>
  The operating system: the operation \<open>n\<close> on a file succeeds when \<open>io n\<close> is \<^const>\<open>None\<close> and otherwise
  fails after the given number of bytes.
\<close>

type_synonym faults = "nat \<Rightarrow> nat option"

definition no_faults :: faults where "no_faults n = None"

section \<open>Writer\<close>

record lwriter =
  lw_dest :: bytes
  lw_ops :: nat
  lw_block_offset :: nat

definition writer_new :: lwriter where
  "writer_new = \<lparr>lw_dest = [], lw_ops = 0, lw_block_offset = 0\<rparr>"

definition file_append :: "faults \<Rightarrow> bytes \<Rightarrow> lwriter \<Rightarrow> lwriter \<times> bool" where
  "file_append io data w =
     (case io (lw_ops w) of
        None \<Rightarrow> (w\<lparr>lw_dest := lw_dest w @ data, lw_ops := lw_ops w + 1\<rparr>, True)
      | Some n \<Rightarrow> (w\<lparr>lw_dest := lw_dest w @ take n data, lw_ops := lw_ops w + 1\<rparr>, False))"

definition file_flush :: "faults \<Rightarrow> lwriter \<Rightarrow> lwriter \<times> bool" where
  "file_flush io w = (w\<lparr>lw_ops := lw_ops w + 1\<rparr>, io (lw_ops w) = None)"

text \<open>The checksum does not depend on the address of the buffer (\<open>crc_extend_ref\<close>); 0 stands for it.\<close>

definition type_crc :: "record_type \<Rightarrow> u32" where
  "type_crc t = crc_value 0 [char_of (rt_num t)]"

definition record_header :: "record_type \<Rightarrow> bytes \<Rightarrow> bytes" where
  "record_header t data =
     (let n = length data; crc = crc_mask (crc_extend 0 (type_crc t) data)
      in encode_fixed32 crc @ [char_of (n mod 256), char_of (n div 256), char_of (rt_num t)])"

definition emit_physical_record :: "faults \<Rightarrow> record_type \<Rightarrow> bytes \<Rightarrow> lwriter \<Rightarrow> lwriter \<times> bool" where
  "emit_physical_record io t data w =
     (let (w1, s1) = file_append io (record_header t data) w;
          (w2, s2) = (if s1
                      then let (w', s') = file_append io data w1 in (if s' then file_flush io w' else (w', s'))
                      else (w1, s1))
      in (w2\<lparr>lw_block_offset := lw_block_offset w2 + (kHeaderSize + length data)\<rparr>, s2))"

definition switch_block :: "faults \<Rightarrow> lwriter \<Rightarrow> lwriter" where
  "switch_block io w =
     (let leftover = kBlockSize - lw_block_offset w in
      if leftover < kHeaderSize
      then (if 0 < leftover then fst (file_append io (replicate leftover NUL) w) else w)\<lparr>lw_block_offset := 0\<rparr>
      else w)"

definition fragment_type :: "bool \<Rightarrow> bool \<Rightarrow> record_type" where
  "fragment_type first final =
     (if first \<and> final then Full_type else if first then First_type else if final then Last_type else Middle_type)"

lemma block_offset_simps [simp]:
  "lw_block_offset (fst (file_append io d w)) = lw_block_offset w"
  "lw_block_offset (fst (emit_physical_record io t d w)) = lw_block_offset w + (kHeaderSize + length d)"
  by (auto simp: file_append_def emit_physical_record_def file_flush_def Let_def split: option.splits prod.splits)

lemma switch_block_offset:
  "lw_block_offset (switch_block io w) = (if kBlockSize - lw_block_offset w < kHeaderSize then 0 else lw_block_offset w)"
  by (simp add: switch_block_def Let_def)

function add_record_loop :: "faults \<Rightarrow> bytes \<Rightarrow> bool \<Rightarrow> lwriter \<Rightarrow> lwriter \<times> bool" where
  "add_record_loop io ptr first w =
     (let w1 = switch_block io w;
          avail = kBlockSize - lw_block_offset w1 - kHeaderSize;
          fragment_length = (if length ptr < avail then length ptr else avail);
          final = (length ptr = fragment_length);
          (w2, s) = emit_physical_record io (fragment_type first final) (take fragment_length ptr) w1
      in if s \<and> 0 < length ptr - fragment_length then add_record_loop io (drop fragment_length ptr) False w2 else (w2, s))"
  by pat_completeness auto
termination
proof (relation "measure (\<lambda>(_, ptr, _, w). 2 * length ptr + (if kBlockSize - lw_block_offset w = kHeaderSize then 1 else 0))", goal_cases)
  case (2 io ptr first w w1 avail n e p w2 s)
  have w2: "lw_block_offset w2 = lw_block_offset w1 + (kHeaderSize + n)"
  proof -
    have "w2 = fst (emit_physical_record io (fragment_type first e) (take n ptr) w1)" using 2(5,6) by (metis fst_conv)
    then show ?thesis using 2(3) by (simp split: if_splits)
  qed
  show ?case
    using 2(2,3,6,7) switch_block_offset [of io w] 2(1)
    by (auto simp: w2 kBlockSize_def kHeaderSize_def split: if_splits)
qed simp

declare add_record_loop.simps [simp del]

definition add_record :: "faults \<Rightarrow> bytes \<Rightarrow> lwriter \<Rightarrow> lwriter \<times> bool" where
  "add_record io record w = add_record_loop io record True w"

section \<open>Reader\<close>

datatype drop_reason = Drop_corruption string | Drop_io

record lreader =
  lr_file :: bytes
  lr_ops :: nat
  lr_checksum :: bool
  lr_buffer :: bytes
  lr_eof :: bool
  lr_last_record_offset :: u64
  lr_end_of_buffer_offset :: u64
  lr_initial_offset :: u64
  lr_drops :: "(nat \<times> drop_reason) list"

definition reader_new :: "bytes \<Rightarrow> bool \<Rightarrow> u64 \<Rightarrow> lreader" where
  "reader_new file checksum initial_offset =
     \<lparr>lr_file = file, lr_ops = 0, lr_checksum = checksum, lr_buffer = [], lr_eof = False,
      lr_last_record_offset = 0, lr_end_of_buffer_offset = 0, lr_initial_offset = initial_offset, lr_drops = []\<rparr>"

text \<open>What is reported to the \<^verbatim>\<open>Reporter\<close> is collected in \<^const>\<open>lr_drops\<close>.\<close>

definition report_drop :: "nat \<Rightarrow> drop_reason \<Rightarrow> lreader \<Rightarrow> lreader" where
  "report_drop n reason r =
     (if lr_initial_offset r \<le> lr_end_of_buffer_offset r - of_nat (length (lr_buffer r)) - of_nat n
      then r\<lparr>lr_drops := lr_drops r @ [(n, reason)]\<rparr> else r)"

definition report_corruption :: "nat \<Rightarrow> string \<Rightarrow> lreader \<Rightarrow> lreader" where
  "report_corruption n reason r = report_drop n (Drop_corruption reason) r"

definition skip_to_initial_block :: "faults \<Rightarrow> lreader \<Rightarrow> lreader \<times> bool" where
  "skip_to_initial_block io r =
     (let offset_in_block = lr_initial_offset r mod of_nat kBlockSize;
          start = lr_initial_offset r - offset_in_block;
          block_start_location = (if of_nat (kBlockSize - 6) < offset_in_block then start + of_nat kBlockSize else start);
          r1 = r\<lparr>lr_end_of_buffer_offset := block_start_location\<rparr>
      in if 0 < block_start_location
         then (case io (lr_ops r1) of
                 None \<Rightarrow> (r1\<lparr>lr_file := drop (unat block_start_location) (lr_file r1), lr_ops := lr_ops r1 + 1\<rparr>, True)
               | Some _ \<Rightarrow> (report_drop (unat block_start_location) Drop_io (r1\<lparr>lr_ops := lr_ops r1 + 1\<rparr>), False))
         else (r1, True))"

definition kEof :: u32 where "kEof = of_nat (kMaxRecordType + 1)"

definition kBadRecord :: u32 where "kBadRecord = of_nat (kMaxRecordType + 2)"

text \<open>\<^verbatim>\<open>char\<close> is signed: a type beyond 127 becomes a large unsigned number.\<close>

definition header_type :: "char \<Rightarrow> u32" where
  "header_type c = (if of_char c < (128 :: nat) then of_char c else of_char c - 256)"

definition header_length :: "bytes \<Rightarrow> nat" where
  "header_length header = unat (((of_char (header ! 4) :: u32) AND 0xff) OR push_bit 8 (of_char (header ! 5) AND 0xff))"

definition read_block :: "faults \<Rightarrow> lreader \<Rightarrow> lreader \<times> bool" where
  "read_block io r =
     (let data = take kBlockSize (lr_file r) in
      case io (lr_ops r) of
        Some n \<Rightarrow>
          (let r1 = r\<lparr>lr_buffer := [], lr_file := drop (length (take n data)) (lr_file r), lr_ops := lr_ops r + 1,
                lr_end_of_buffer_offset := lr_end_of_buffer_offset r + of_nat (length (take n data))\<rparr>
           in ((report_drop kBlockSize Drop_io r1)\<lparr>lr_eof := True\<rparr>, False))
      | None \<Rightarrow>
          (r\<lparr>lr_buffer := data, lr_file := drop kBlockSize (lr_file r), lr_ops := lr_ops r + 1,
             lr_end_of_buffer_offset := lr_end_of_buffer_offset r + of_nat (length data),
             lr_eof := (lr_eof r \<or> length data < kBlockSize)\<rparr>, True))"

text \<open>
  When the buffer has no header: the next block, unless the last one was short.  The loop of \<^verbatim>\<open>ReadPhysicalRecord\<close> runs a second time only after a block was read, and then the buffer
  has a header or the end of the file was seen, so that there is no third time.
\<close>

definition refill :: "faults \<Rightarrow> lreader \<Rightarrow> lreader \<times> bool" where
  "refill io r = (if length (lr_buffer r) < kHeaderSize \<and> \<not> lr_eof r then read_block io r else (r, True))"

definition read_physical_record :: "faults \<Rightarrow> lreader \<Rightarrow> (u32 \<times> bytes) \<times> lreader" where
  "read_physical_record io r0 =
     (let (r, ok) = refill io r0 in
      if \<not> ok then ((kEof, []), r)
      else if length (lr_buffer r) < kHeaderSize then ((kEof, []), r\<lparr>lr_buffer := []\<rparr>)
      else
        (let header = lr_buffer r; n = header_length header; t = header_type (header ! 6) in
         if length header < kHeaderSize + n
         then (if \<not> lr_eof r
               then ((kBadRecord, []), report_corruption (length header) ''bad record length'' (r\<lparr>lr_buffer := []\<rparr>))
               else ((kEof, []), r\<lparr>lr_buffer := []\<rparr>))
         else if t = of_nat (rt_num Zero_type) \<and> n = 0 then ((kBadRecord, []), r\<lparr>lr_buffer := []\<rparr>)
         else if lr_checksum r \<and> crc_value 0 (take (1 + n) (drop 6 header)) \<noteq> crc_unmask (decode_fixed32 header)
         then ((kBadRecord, []), report_corruption (length header) ''checksum mismatch'' (r\<lparr>lr_buffer := []\<rparr>))
         else
           (let r2 = r\<lparr>lr_buffer := drop (kHeaderSize + n) header\<rparr> in
            if lr_end_of_buffer_offset r2 - of_nat (length (lr_buffer r2)) - of_nat kHeaderSize - of_nat n < lr_initial_offset r2
            then ((kBadRecord, []), r2)
            else ((t, take n (drop kHeaderSize header)), r2))))"

text \<open>
  The loop of \<^verbatim>\<open>ReadRecord\<close>, with fuel: every physical record takes bytes from the file.  The result is the
  record, or \<^const>\<open>None\<close> at the end of the file.
\<close>

fun read_record_loop :: "nat \<Rightarrow> faults \<Rightarrow> bool \<Rightarrow> bytes \<Rightarrow> u64 \<Rightarrow> lreader \<Rightarrow> (bytes option \<times> lreader) option" where
  "read_record_loop 0 io in_fragmented scratch prospective r = None"
| "read_record_loop (Suc fuel) io in_fragmented scratch prospective r =
     (let physical = lr_end_of_buffer_offset r - of_nat (length (lr_buffer r));
          ((t, fragment), r1) = read_physical_record io r in
      if t = of_nat (rt_num Full_type) then
        (let r2 = (if in_fragmented \<and> scratch \<noteq> []
                   then report_corruption (length scratch) ''partial record without end(1)'' r1 else r1)
         in Some (Some fragment, r2\<lparr>lr_last_record_offset := physical\<rparr>))
      else if t = of_nat (rt_num First_type) then
        (let r2 = (if in_fragmented \<and> scratch \<noteq> []
                   then report_corruption (length scratch) ''partial record without end(2)'' r1 else r1)
         in read_record_loop fuel io True fragment physical r2)
      else if t = of_nat (rt_num Middle_type) then
        (if \<not> in_fragmented
         then read_record_loop fuel io in_fragmented scratch prospective
                (report_corruption (length fragment) ''missing start of fragmented record(1)'' r1)
         else read_record_loop fuel io in_fragmented (scratch @ fragment) prospective r1)
      else if t = of_nat (rt_num Last_type) then
        (if \<not> in_fragmented
         then read_record_loop fuel io in_fragmented scratch prospective
                (report_corruption (length fragment) ''missing start of fragmented record(2)'' r1)
         else Some (Some (scratch @ fragment), r1\<lparr>lr_last_record_offset := prospective\<rparr>))
      else if t = kEof then Some (None, r1)
      else if t = kBadRecord then
        (if in_fragmented
         then read_record_loop fuel io False [] prospective
                (report_corruption (length scratch) ''error in middle of record'' r1)
         else read_record_loop fuel io in_fragmented scratch prospective r1)
      else
        read_record_loop fuel io False [] prospective
          (report_corruption (length fragment + (if in_fragmented then length scratch else 0))
             (''unknown record type '' @ itostr (uint t)) r1))"

declare read_record_loop.simps [simp del]

definition read_bound :: "lreader \<Rightarrow> nat" where
  "read_bound r = length (lr_buffer r) + length (lr_file r) + 1"

definition read_record :: "faults \<Rightarrow> lreader \<Rightarrow> (bytes option \<times> lreader) option" where
  "read_record io r =
     (let (r1, ok) = (if lr_last_record_offset r < lr_initial_offset r then skip_to_initial_block io r else (r, True)) in
      if \<not> ok then Some (None, r1) else read_record_loop (read_bound r1) io False [] 0 r1)"

section \<open>Physical records\<close>

lemma log_sizes: "kBlockSize = 32768" "kHeaderSize = 7" by (simp_all add: kBlockSize_def kHeaderSize_def)

definition phys_record :: "record_type \<Rightarrow> bytes \<Rightarrow> bytes" where
  "phys_record t d = record_header t d @ d"

definition block_pad :: "nat \<Rightarrow> nat" where
  "block_pad off = (if kBlockSize - off < kHeaderSize then kBlockSize - off else 0)"

definition block_start :: "nat \<Rightarrow> nat" where
  "block_start off = (if kBlockSize - off < kHeaderSize then 0 else off)"

lemma length_record_header [simp]: "length (record_header t d) = kHeaderSize"
  by (simp add: record_header_def Let_def log_sizes)

lemma length_phys_record [simp]: "length (phys_record t d) = kHeaderSize + length d"
  by (simp add: phys_record_def)

lemma of_char_u32: "(of_char c :: u32) = of_nat (of_char c)"
  by (metis of_nat_of_char)

lemma and_ff_char: "(of_char c :: u32) AND 0xff = of_char c"
  by (simp add: and_ff of_char_u32 take_bit_of_nat) (simp add: take_bit_eq_mod of_char_bound)

lemma header_length_eq: "header_length h = of_char (h ! 4) + 256 * of_char (h ! 5)"
proof -
  define a b where "a = (of_char (h ! 4) :: nat)" and "b = (of_char (h ! 5) :: nat)"
  have ab: "a < 256" "b < 256" using of_char_bound by (simp_all add: a_def b_def)
  have "((of_nat a :: u32) AND push_bit 8 (of_nat b)) = 0"
  proof (rule bit_eqI)
    fix n
    have "\<not> bit a n" if "8 \<le> n"
      using ab(1) power_increasing [OF that, of "2 :: nat"] by (simp add: bit_iff_odd)
    then show "bit ((of_nat a :: u32) AND push_bit 8 (of_nat b)) n = bit (0 :: u32) n" by (auto simp: bit_simps)
  qed
  then have "(of_nat a :: u32) OR push_bit 8 (of_nat b) = of_nat (a + 256 * b)"
    using disjunctive_add_eq_or [of "of_nat a :: u32" "push_bit 8 (of_nat b)"] by (simp add: push_bit_eq_mult mult.commute)
  moreover have "unat (of_nat (a + 256 * b) :: u32) = a + 256 * b" unfolding unat_of_nat using ab by simp
  ultimately show ?thesis
    unfolding header_length_def and_ff_char unfolding of_char_u32 by (simp add: a_def b_def)
qed

lemma rt_num_less: "rt_num t < 128" by (cases t) simp_all

lemma record_header_nth:
  "(record_header t d @ x) ! 4 = char_of (length d mod 256)"
  "(record_header t d @ x) ! 5 = char_of (length d div 256)"
  "(record_header t d @ x) ! 6 = char_of (rt_num t)"
  "drop 6 (record_header t d @ x) = char_of (rt_num t) # x"
  by (simp_all add: record_header_def Let_def nth_append)

lemma header_fields:
  assumes "length d < 65536"
  shows "header_length (record_header t d @ x) = length d"
    and "header_type ((record_header t d @ x) ! 6) = of_nat (rt_num t)"
    and "crc_unmask (decode_fixed32 (record_header t d @ x)) = crc_value 0 (char_of (rt_num t) # d)"
proof -
  have "length d div 256 < 256" using assms by simp
  then show "header_length (record_header t d @ x) = length d"
    by (simp add: header_length_eq record_header_nth)
  show "header_type ((record_header t d @ x) ! 6) = of_nat (rt_num t)"
    using rt_num_less [of t] by (simp add: record_header_nth header_type_def of_char_u32)
  have "crc_extend 0 (crc_value 0 [char_of (rt_num t)]) d = crc_value 0 ([char_of (rt_num t)] @ d)"
    unfolding crc_value_def by (rule crc_extend_append)
  then show "crc_unmask (decode_fixed32 (record_header t d @ x)) = crc_value 0 (char_of (rt_num t) # d)"
    by (simp add: record_header_def Let_def crc_unmask_mask type_crc_def)
qed

section \<open>The reader at a position of the file\<close>

text \<open>
  The reader at the offset \<open>off\<close> of a block, with the bytes \<open>S\<close> still to come: the rest of the block is in the
  buffer, the rest of the file is unread.
\<close>

definition rd_at :: "nat \<Rightarrow> bytes \<Rightarrow> lreader \<Rightarrow> bool" where
  "rd_at off S r \<longleftrightarrow> lr_initial_offset r = 0 \<and> off \<le> kBlockSize \<and>
     (if off = 0 then lr_buffer r = [] \<and> lr_file r = S \<and> \<not> lr_eof r
      else lr_buffer r = take (kBlockSize - off) S \<and> lr_file r = drop (kBlockSize - off) S \<and>
        (lr_eof r \<longleftrightarrow> length S < kBlockSize - off))"

lemma rd_at_new: "rd_at 0 file (reader_new file checksum 0)"
  by (simp add: rd_at_def reader_new_def)

lemma rd_at_bound: "rd_at off S r \<Longrightarrow> read_bound r = length S + 1"
  by (auto simp: rd_at_def read_bound_def split: if_splits)

lemma refill_at:
  assumes "rd_at off (replicate (block_pad off) NUL @ X) r"
  obtains r1 where "refill no_faults r = (r1, True)" "lr_buffer r1 = take (kBlockSize - block_start off) X"
    "lr_file r1 = drop (kBlockSize - block_start off) X" "lr_eof r1 \<longleftrightarrow> length X < kBlockSize - block_start off"
    "lr_drops r1 = lr_drops r" "lr_initial_offset r1 = 0"
proof (cases "off = 0 \<or> kBlockSize - off < kHeaderSize")
  case True
  then have "length (lr_buffer r) < kHeaderSize" "\<not> lr_eof r" "lr_file r = X" "block_start off = 0"
    using assms(1) by (auto simp: rd_at_def block_pad_def block_start_def log_sizes split: if_splits)
  then show ?thesis using assms
    by (intro that [of "fst (read_block no_faults r)"]) (auto simp: refill_def read_block_def Let_def rd_at_def no_faults_def)
next
  case False
  then have "refill no_faults r = (r, True)"
    using assms(1) by (auto simp: rd_at_def block_pad_def refill_def log_sizes)
  then show ?thesis using assms(1) False
    by (intro that [of r]) (auto simp: rd_at_def block_pad_def block_start_def)
qed

lemma read_physical_full:
  assumes "rd_at off (replicate (block_pad off) NUL @ phys_record t d @ T) r"
    and "block_start off + kHeaderSize + length d \<le> kBlockSize" and "t \<noteq> Zero_type"
  obtains r' where "read_physical_record no_faults r = ((of_nat (rt_num t), d), r')"
    "rd_at (block_start off + kHeaderSize + length d) T r'" "lr_drops r' = lr_drops r"
proof -
  define k where "k = kBlockSize - (block_start off + kHeaderSize + length d)"
  obtain r1 where r1: "refill no_faults r = (r1, True)" "lr_buffer r1 = take (kBlockSize - block_start off) (phys_record t d @ T)"
    "lr_file r1 = drop (kBlockSize - block_start off) (phys_record t d @ T)"
    "lr_eof r1 \<longleftrightarrow> length (phys_record t d @ T) < kBlockSize - block_start off" "lr_drops r1 = lr_drops r" "lr_initial_offset r1 = 0"
    by (rule refill_at [OF assms(1)])
  have k: "kBlockSize - block_start off = kHeaderSize + (length d + k)" using assms(2) by (simp add: k_def)
  have buf: "lr_buffer r1 = record_header t d @ d @ take k T" and rest: "lr_file r1 = drop k T"
    unfolding r1(2,3) k by (simp_all add: phys_record_def)
  have d: "length d < 65536" using assms(2) by (simp add: log_sizes)
  note header = header_fields [OF d, of t "d @ take k T", folded buf]
  have t: "(of_nat (rt_num t) :: u32) \<noteq> of_nat (rt_num Zero_type)" using assms(3) by (cases t) simp_all
  have c: "take (1 + length d) (drop 6 (lr_buffer r1)) = char_of (rt_num t) # d"
    unfolding buf record_header_nth by simp
  have l: "\<not> length (lr_buffer r1) < kHeaderSize" "\<not> length (lr_buffer r1) < kHeaderSize + length d"
    and p: "drop (kHeaderSize + length d) (lr_buffer r1) = take k T" "take (length d) (drop kHeaderSize (lr_buffer r1)) = d"
    by (simp_all add: buf)
  have "read_physical_record no_faults r = ((of_nat (rt_num t), d), r1\<lparr>lr_buffer := take k T\<rparr>)"
    unfolding read_physical_record_def Let_def r1(1) prod.case header c p using l t by (simp add: r1(6))
  moreover have "rd_at (block_start off + kHeaderSize + length d) T (r1\<lparr>lr_buffer := take k T\<rparr>)"
    using assms(2) r1(4,6) rest by (auto simp: rd_at_def log_sizes k_def)
  ultimately show ?thesis using r1(5) by (intro that [of "r1\<lparr>lr_buffer := take k T\<rparr>"]) simp_all
qed

text \<open>A file that ends inside the physical record, or inside the trailer before it, ends the log there.\<close>

lemma read_physical_short:
  assumes "rd_at off (take n (replicate (block_pad off) NUL @ phys_record t d)) r"
    and "block_start off + kHeaderSize + length d \<le> kBlockSize" and "n < block_pad off + kHeaderSize + length d"
  obtains r' where "read_physical_record no_faults r = ((kEof, []), r')" "lr_drops r' = lr_drops r"
proof (cases "n < block_pad off")
  case True
  then have "refill no_faults r = (r, True)" "length (lr_buffer r) < kHeaderSize"
    using assms(1) by (auto simp: rd_at_def block_pad_def refill_def log_sizes split: if_splits)
  then show ?thesis by (intro that [of "r\<lparr>lr_buffer := []\<rparr>"]) (simp_all add: read_physical_record_def Let_def)
next
  case False
  define X where "X = take (n - block_pad off) (phys_record t d)"
  have lX: "length X < kHeaderSize + length d" using assms(3) False by (simp add: X_def)
  have "rd_at off (replicate (block_pad off) NUL @ X) r" using assms(1) False by (simp add: X_def)
  from this obtain r1 where r1: "refill no_faults r = (r1, True)" "lr_buffer r1 = take (kBlockSize - block_start off) X"
    "lr_file r1 = drop (kBlockSize - block_start off) X" "lr_eof r1 \<longleftrightarrow> length X < kBlockSize - block_start off"
    "lr_drops r1 = lr_drops r" "lr_initial_offset r1 = 0"
    by (rule refill_at)
  have b: "lr_buffer r1 = X" "lr_eof r1" using r1(2,4) lX assms(2) by simp_all
  have h: "header_length X = length d" if "\<not> length X < kHeaderSize"
  proof -
    have "X = record_header t d @ take (n - block_pad off - kHeaderSize) d"
      using that by (simp add: X_def phys_record_def)
    then show ?thesis using assms(2) header_fields(1) [of d t] by (simp add: log_sizes)
  qed
  show ?thesis
    using r1(5) by (intro that [of "r1\<lparr>lr_buffer := []\<rparr>"]) (auto simp: read_physical_record_def Let_def r1(1) b h lX)
qed

section \<open>Records\<close>

text \<open>
  The bytes \<open>out\<close>, from the offset \<open>off\<close> to the offset \<open>off'\<close> of a block, are read as the rest \<open>rec\<close> of a record,
  of which \<open>first\<close> says that it has no earlier fragment; when the file ends within them, as the end of the log.
\<close>

definition reads_as :: "nat \<Rightarrow> bytes \<Rightarrow> nat \<Rightarrow> bool \<Rightarrow> bytes \<Rightarrow> bool" where
  "reads_as off out off' first rec \<longleftrightarrow>
     (\<forall>T r sc p fuel. rd_at off (out @ T) r \<longrightarrow> length (out @ T) < fuel \<longrightarrow> (first \<longrightarrow> sc = []) \<longrightarrow>
        (\<exists>r'. read_record_loop fuel no_faults (\<not> first) sc p r = Some (Some (sc @ rec), r') \<and> rd_at off' T r' \<and>
          lr_drops r' = lr_drops r)) \<and>
     (\<forall>n r sc p fuel. n < length out \<longrightarrow> rd_at off (take n out) r \<longrightarrow> n < fuel \<longrightarrow> (first \<longrightarrow> sc = []) \<longrightarrow>
        (\<exists>r'. read_record_loop fuel no_faults (\<not> first) sc p r = Some (None, r') \<and> lr_drops r' = lr_drops r))"

lemma rd_at_last [simp]: "rd_at off S (r\<lparr>lr_last_record_offset := x\<rparr>) = rd_at off S r"
  by (simp add: rd_at_def)

lemma read_record_loop_eof:
  assumes "read_physical_record no_faults r = ((kEof, []), r')" and "0 < fuel"
  shows "read_record_loop fuel no_faults in_fragmented sc p r = Some (None, r')"
  using assms by (cases fuel) (simp_all add: read_record_loop.simps kEof_def kMaxRecordType_def Let_def)

lemma reads_as_last:
  assumes "block_start off + kHeaderSize + length d \<le> kBlockSize"
  shows "reads_as off (replicate (block_pad off) NUL @ phys_record (fragment_type first True) d)
    (block_start off + kHeaderSize + length d) first d" (is "reads_as off ?out _ _ _")
  unfolding reads_as_def
proof (intro conjI allI impI, goal_cases)
  case (1 T r sc p fuel)
  have "rd_at off (replicate (block_pad off) NUL @ phys_record (fragment_type first True) d @ T) r" using 1(1) by simp
  from this assms obtain r' where "read_physical_record no_faults r = ((of_nat (rt_num (fragment_type first True)), d), r')"
    "rd_at (block_start off + kHeaderSize + length d) T r'" "lr_drops r' = lr_drops r"
    by (rule read_physical_full) (simp add: fragment_type_def)
  moreover obtain f where "fuel = Suc f" using 1(2) by (cases fuel) simp_all
  ultimately show ?case using 1(3) by (cases first) (simp_all add: read_record_loop.simps fragment_type_def Let_def)
next
  case (2 n r sc p fuel)
  have "n < block_pad off + kHeaderSize + length d" using 2(1) by simp
  with 2(2) assms obtain r' where "read_physical_record no_faults r = ((kEof, []), r')" "lr_drops r' = lr_drops r"
    by (rule read_physical_short)
  then show ?case using read_record_loop_eof 2(3) by (metis gr_zeroI not_less_zero)
qed

lemma reads_as_step:
  assumes "block_start off + kHeaderSize + length d \<le> kBlockSize"
    and "reads_as (block_start off + kHeaderSize + length d) out off' False rest"
  shows "reads_as off (replicate (block_pad off) NUL @ phys_record (fragment_type first False) d @ out) off' first (d @ rest)"
proof -
  let ?t = "fragment_type first False" and ?off = "block_start off + kHeaderSize + length d"
  have step: "\<exists>f r'. fuel = Suc f \<and> length T < f \<and> rd_at ?off T r' \<and> lr_drops r' = lr_drops r \<and>
      (\<forall>p. \<exists>p'. read_record_loop fuel no_faults (\<not> first) sc p r = read_record_loop f no_faults True (sc @ d) p' r')"
    if at: "rd_at off (replicate (block_pad off) NUL @ phys_record ?t d @ T) r" and big: "kHeaderSize + length T < fuel"
      and sc: "first \<longrightarrow> sc = []" for T r sc fuel
  proof -
    from at assms(1) obtain r' where r': "read_physical_record no_faults r = ((of_nat (rt_num ?t), d), r')"
      "rd_at ?off T r'" "lr_drops r' = lr_drops r"
      by (rule read_physical_full) (simp add: fragment_type_def)
    obtain f where f: "fuel = Suc f" "length T < f" using big by (cases fuel) (simp_all add: log_sizes)
    have "\<forall>p. \<exists>p'. read_record_loop fuel no_faults (\<not> first) sc p r = read_record_loop f no_faults True (sc @ d) p' r'"
      unfolding f(1) using r'(1) sc by (cases first) (auto simp: read_record_loop.simps fragment_type_def Let_def)
    then show ?thesis using r'(2,3) f by blast
  qed
  show ?thesis
    unfolding reads_as_def
  proof (intro conjI allI impI, goal_cases)
    case (1 T r sc p fuel)
    have "rd_at off (replicate (block_pad off) NUL @ phys_record ?t d @ out @ T) r" "kHeaderSize + length (out @ T) < fuel"
      using 1(1,2) by simp_all
    from step [OF this 1(3)] obtain f r1 p' where "length (out @ T) < f" "rd_at ?off (out @ T) r1" "lr_drops r1 = lr_drops r"
      "read_record_loop fuel no_faults (\<not> first) sc p r = read_record_loop f no_faults True (sc @ d) p' r1" by blast
    then show ?case using assms(2) [unfolded reads_as_def] by (metis append.assoc)
  next
    case (2 n r sc p fuel)
    show ?case
    proof (cases "n < block_pad off + kHeaderSize + length d")
      case True
      then have "rd_at off (take n (replicate (block_pad off) NUL @ phys_record ?t d)) r" using 2(2) by simp
      from this assms(1) True obtain r' where "read_physical_record no_faults r = ((kEof, []), r')" "lr_drops r' = lr_drops r"
        by (rule read_physical_short)
      then show ?thesis using read_record_loop_eof 2(3) by (metis gr_zeroI not_less_zero)
    next
      case False
      define m where "m = n - (block_pad off + kHeaderSize + length d)"
      have n: "n = block_pad off + kHeaderSize + length d + m" using False by (simp add: m_def)
      have "rd_at off (replicate (block_pad off) NUL @ phys_record ?t d @ take m out) r" "kHeaderSize + length (take m out) < fuel"
        using 2(1-3) by (simp_all add: n)
      from step [OF this 2(4)] obtain f r1 p' where "length (take m out) < f" "rd_at ?off (take m out) r1" "lr_drops r1 = lr_drops r"
        "read_record_loop fuel no_faults (\<not> first) sc p r = read_record_loop f no_faults True (sc @ d) p' r1" by blast
      moreover have "m < length out" using 2(1) by (simp add: n)
      ultimately show ?thesis using assms(2) [unfolded reads_as_def] by (metis length_take min.absorb4)
    qed
  qed
qed

lemma switch_block_ok:
  "lw_dest (switch_block no_faults w) = lw_dest w @ replicate (block_pad (lw_block_offset w)) NUL"
  "lw_block_offset (switch_block no_faults w) = block_start (lw_block_offset w)"
  by (simp_all add: switch_block_def block_pad_def block_start_def file_append_def no_faults_def Let_def)

lemma emit_physical_ok:
  "emit_physical_record no_faults t d w =
     (w\<lparr>lw_dest := lw_dest w @ phys_record t d, lw_ops := lw_ops w + 3,
        lw_block_offset := lw_block_offset w + (kHeaderSize + length d)\<rparr>, True)"
  by (simp add: emit_physical_record_def file_append_def file_flush_def no_faults_def phys_record_def)

lemma block_start_fits: "block_start off + kHeaderSize \<le> kBlockSize"
  by (auto simp: block_start_def log_sizes)

lemma add_record_loop_reads:
  assumes "io = no_faults"
  shows "\<exists>out w'. add_record_loop io ptr first w = (w', True) \<and> lw_dest w' = lw_dest w @ out \<and>
    reads_as (lw_block_offset w) out (lw_block_offset w') first ptr"
  using assms
proof (induct io ptr first w rule: add_record_loop.induct)
  case (1 io ptr first w)
  let ?off = "block_start (lw_block_offset w)" and ?pad = "replicate (block_pad (lw_block_offset w)) NUL"
  define n where "n = (if length ptr < kBlockSize - ?off - kHeaderSize then length ptr else kBlockSize - ?off - kHeaderSize)"
  define d where "d = take n ptr"
  have n: "n \<le> length ptr" "?off + kHeaderSize + length d \<le> kBlockSize" "length d = n"
    using block_start_fits [of "lw_block_offset w"] by (auto simp: n_def d_def)
  define w1 where "w1 = switch_block io w"
  have w1: "lw_dest w1 = lw_dest w @ ?pad" "lw_block_offset w1 = ?off" using switch_block_ok by (simp_all add: w1_def 1(2))
  let ?t = "fragment_type first (length ptr = n)"
  obtain w2 where w2: "emit_physical_record io ?t d w1 = (w2, True)" "lw_dest w2 = lw_dest w1 @ phys_record ?t d"
    "lw_block_offset w2 = ?off + kHeaderSize + length d"
    using w1(2) by (simp add: emit_physical_ok 1(2))
  have loop: "add_record_loop io ptr first w =
      (if 0 < length ptr - n then add_record_loop io (drop n ptr) False w2 else (w2, True))"
    unfolding add_record_loop.simps [of io ptr first w] Let_def w1_def [symmetric] w1(2) n_def [symmetric] d_def [symmetric] w2(1)
    by simp
  show ?case
  proof (cases "length ptr = n")
    case True
    then show ?thesis
      using reads_as_last [OF n(2), of first] w1(1) w2(2,3)
      by (intro exI [of _ "?pad @ phys_record ?t d"] exI [of _ w2]) (simp add: loop d_def)
  next
    case False
    then have less: "n < length ptr" using n(1) by simp
    have "\<exists>out w'. add_record_loop io (drop n ptr) False w2 = (w', True) \<and> lw_dest w' = lw_dest w2 @ out \<and>
        reads_as (lw_block_offset w2) out (lw_block_offset w') False (drop n ptr)"
      by (rule 1(1) [OF w1_def refl _ refl _ refl _ 1(2)])
        (use less w2(1) in \<open>simp_all add: w1(2) n_def d_def\<close>)
    then obtain out w' where w': "add_record_loop io (drop n ptr) False w2 = (w', True)" "lw_dest w' = lw_dest w2 @ out"
        "reads_as (lw_block_offset w2) out (lw_block_offset w') False (drop n ptr)" by blast
    then show ?thesis
      using reads_as_step [OF n(2), of out "lw_block_offset w'" "drop n ptr" first] w1(1) w2(2,3) False less
      by (intro exI [of _ "?pad @ phys_record ?t d @ out"] exI [of _ w']) (simp add: loop d_def)
  qed
qed

lemma add_record_reads:
  obtains out w' where "add_record no_faults rec w = (w', True)" "lw_dest w' = lw_dest w @ out"
    "reads_as (lw_block_offset w) out (lw_block_offset w') True rec"
  using add_record_loop_reads [OF refl] by (metis add_record_def)

section \<open>Logs\<close>

definition log_write :: "faults \<Rightarrow> bytes list \<Rightarrow> lwriter \<Rightarrow> lwriter" where
  "log_write io records w = fold (\<lambda>rec w. fst (add_record io rec w)) records w"

text \<open>All records up to the end of the log.\<close>

fun read_log :: "nat \<Rightarrow> faults \<Rightarrow> lreader \<Rightarrow> (bytes list \<times> lreader) option" where
  "read_log 0 io r = None"
| "read_log (Suc fuel) io r =
     (case read_record io r of
        None \<Rightarrow> None
      | Some (None, r') \<Rightarrow> Some ([], r')
      | Some (Some rec, r') \<Rightarrow> map_option (\<lambda>(records, r''). (rec # records, r'')) (read_log fuel io r'))"

lemma log_write_simps [simp]:
  "log_write io [] w = w"
  "log_write io (rec # records) w = log_write io records (fst (add_record io rec w))"
  by (simp_all add: log_write_def)

lemma read_record_at: "rd_at off S r \<Longrightarrow> read_record io r = read_record_loop (length S + 1) io False [] 0 r"
  by (simp add: read_record_def rd_at_bound) (simp add: rd_at_def)

lemma read_record_end:
  assumes "rd_at off [] r"
  obtains r' where "read_record no_faults r = Some (None, r')" "lr_drops r' = lr_drops r"
proof -
  have "rd_at off (take 0 (replicate (block_pad off) NUL @ phys_record Full_type [])) r" using assms by simp
  then obtain r' where "read_physical_record no_faults r = ((kEof, []), r')" "lr_drops r' = lr_drops r"
    by (rule read_physical_short) (use block_start_fits in \<open>simp_all add: log_sizes\<close>)
  then show ?thesis using that read_record_at [OF assms] read_record_loop_eof by simp
qed

lemma log_write_dest: "\<exists>out. lw_dest (log_write no_faults records w) = lw_dest w @ out"
proof (induct records arbitrary: w)
  case (Cons rec records)
  obtain out w' where "add_record no_faults rec w = (w', True)" "lw_dest w' = lw_dest w @ out"
    by (rule add_record_reads)
  then show ?case using Cons [of w'] by auto
qed simp

lemma read_log_written:
  assumes "rd_at (lw_block_offset w) (take n out) r" and "lw_dest (log_write no_faults records w) = lw_dest w @ out"
    and "length records < fuel"
  shows "\<exists>m r'. read_log fuel no_faults r = Some (take m records, r') \<and> lr_drops r' = lr_drops r \<and> m \<le> length records \<and>
    length (lw_dest (log_write no_faults (take m records) w)) \<le> length (lw_dest w) + n \<and>
    (m < length records \<longrightarrow> length (lw_dest w) + n < length (lw_dest (log_write no_faults (take (Suc m) records) w)))"
  using assms
proof (induct records arbitrary: w n out r fuel)
  case Nil
  then have "rd_at (lw_block_offset w) [] r" by simp
  then obtain r' where "read_record no_faults r = Some (None, r')" "lr_drops r' = lr_drops r" by (rule read_record_end)
  moreover obtain f where "fuel = Suc f" using Nil(3) by (cases fuel) simp_all
  ultimately show ?case by simp
next
  case (Cons rec records)
  obtain out1 w1 where w1: "add_record no_faults rec w = (w1, True)" "lw_dest w1 = lw_dest w @ out1"
    "reads_as (lw_block_offset w) out1 (lw_block_offset w1) True rec" by (rule add_record_reads)
  obtain out2 where out2: "lw_dest (log_write no_faults records w1) = lw_dest w1 @ out2" using log_write_dest by blast
  have out: "out = out1 @ out2" using Cons.prems(2) w1(1,2) out2 by simp
  obtain f where f: "fuel = Suc f" "length records < f" using Cons.prems(3) by (cases fuel) simp_all
  define F where "F = length (take n out) + 1"
  have rr: "read_record no_faults r = read_record_loop F no_faults False [] 0 r"
    unfolding F_def by (rule read_record_at [OF Cons.prems(1)])
  show ?case
  proof (cases "n < length out1")
    case True
    then have at: "rd_at (lw_block_offset w) (take n out1) r" using Cons.prems(1) by (simp add: out)
    then obtain r' where "read_record no_faults r = Some (None, r')" "lr_drops r' = lr_drops r"
      using w1(3) [unfolded reads_as_def, THEN conjunct2, rule_format, OF True at, of F "[]" 0] True
      by (auto simp: rr F_def out)
    then show ?thesis using True w1 by (intro exI [of _ 0] exI [of _ r']) (simp add: f(1))
  next
    case False
    define k where "k = n - length out1"
    have n: "n = length out1 + k" using False by (simp add: k_def)
    have at: "rd_at (lw_block_offset w) (out1 @ take k out2) r" using Cons.prems(1) by (simp add: out n)
    then obtain r1 where r1: "read_record no_faults r = Some (Some rec, r1)" "rd_at (lw_block_offset w1) (take k out2) r1"
      "lr_drops r1 = lr_drops r"
      using w1(3) [unfolded reads_as_def, THEN conjunct1, rule_format, OF at, of F "[]" 0]
      by (auto simp: rr F_def out n)
    obtain m r' where "read_log f no_faults r1 = Some (take m records, r')" "lr_drops r' = lr_drops r1" "m \<le> length records"
      "length (lw_dest (log_write no_faults (take m records) w1)) \<le> length (lw_dest w1) + k"
      "m < length records \<longrightarrow> length (lw_dest w1) + k < length (lw_dest (log_write no_faults (take (Suc m) records) w1))"
      using Cons.hyps [OF r1(2) out2 f(2)] by blast
    then show ?thesis
      using r1(1,3) w1(1,2) by (intro exI [of _ "Suc m"] exI [of _ r']) (simp add: f(1) n add.assoc)
  qed
qed

section \<open>The reader ends on every file\<close>

abbreviation lr_left :: "lreader \<Rightarrow> nat" where
  "lr_left r \<equiv> length (lr_buffer r) + length (lr_file r)"

lemma report_left [simp]: "lr_left (report_drop n e r) = lr_left r" "lr_left (report_corruption n x r) = lr_left r"
  by (simp_all add: report_corruption_def report_drop_def)

lemma refill_left: "refill io r = (r', ok) \<Longrightarrow> lr_left r' \<le> lr_left r"
  by (auto simp: refill_def read_block_def Let_def report_drop_def split: if_splits option.splits)

lemma read_physical_left:
  assumes "read_physical_record io r = ((t, fragment), r')"
  shows "(t = kEof \<or> lr_left r' < lr_left r) \<and> lr_left r' \<le> lr_left r"
proof -
  obtain r1 ok where r1: "refill io r = (r1, ok)" by fastforce
  show ?thesis
    using assms refill_left [OF r1]
    by (auto simp: read_physical_record_def r1 Let_def report_corruption_def report_drop_def log_sizes split: if_splits)
qed

lemma read_record_loop_returns:
  "lr_left r < fuel \<Longrightarrow> read_record_loop fuel io in_fragmented scratch p r \<noteq> None"
proof (induct fuel arbitrary: in_fragmented scratch p r)
  case (Suc fuel)
  obtain t fragment r1 where r1: "read_physical_record io r = ((t, fragment), r1)" by (metis surj_pair)
  show ?case
  proof (cases "t = kEof")
    case True
    then show ?thesis by (simp add: read_record_loop.simps r1 Let_def kEof_def kMaxRecordType_def)
  next
    case False
    then have "lr_left r1 < fuel" using read_physical_left [OF r1] Suc.prems by simp
    then show ?thesis using False by (simp add: read_record_loop.simps r1 Let_def Suc.hyps del: not_None_eq)
  qed
qed simp

lemma read_record_returns: "read_record io r \<noteq> None"
  using read_record_loop_returns by (auto simp: read_record_def read_bound_def Let_def split: prod.split)

lemma read_record_loop_left:
  "read_record_loop fuel io in_fragmented scratch p r = Some (x, r') \<Longrightarrow> lr_left r' \<le> lr_left r \<and> (x \<noteq> None \<longrightarrow> lr_left r' < lr_left r)"
proof (induct fuel arbitrary: in_fragmented scratch p r)
  case (Suc fuel)
  obtain t fragment r1 where r1: "read_physical_record io r = ((t, fragment), r1)" by (metis surj_pair)
  note left = read_physical_left [OF r1]
  have again: "lr_left r' \<le> lr_left r \<and> (x \<noteq> None \<longrightarrow> lr_left r' < lr_left r)"
    if "read_record_loop fuel io b sc q r2 = Some (x, r')" "lr_left r2 \<le> lr_left r1" for b sc q r2
    using Suc.hyps [OF that(1)] that(2) left by linarith
  have eof: "kEof \<noteq> 1" "kEof \<noteq> 4" by (simp_all add: kEof_def kMaxRecordType_def)
  show ?case
    using Suc.prems left eof
    by (auto simp: read_record_loop.simps r1 Let_def split: if_splits dest!: again)
qed (simp add: read_record_loop.simps)

lemma skip_left: "skip_to_initial_block io r = (r', ok) \<Longrightarrow> lr_left r' \<le> lr_left r"
  by (auto simp: skip_to_initial_block_def Let_def report_drop_def split: if_splits option.splits)

lemma read_record_left: "read_record io r = Some (Some rec, r') \<Longrightarrow> lr_left r' < lr_left r"
  by (auto simp: read_record_def Let_def split: if_splits prod.splits dest!: skip_left read_record_loop_left)

lemma read_log_returns: "lr_left r < fuel \<Longrightarrow> read_log fuel io r \<noteq> None"
proof (induct fuel arbitrary: r)
  case (Suc fuel)
  obtain x r' where x: "read_record io r = Some (x, r')" using read_record_returns [of io r] by auto
  then show ?case using read_record_left [of io r _ r'] Suc.prems Suc.hyps [of r'] by (cases x) auto
qed simp

section \<open>Reports, fuel and the counter of operations\<close>

lemma report_drops: "\<exists>d. lr_drops (report_drop n e r) = lr_drops r @ d" "\<exists>d. lr_drops (report_corruption n x r) = lr_drops r @ d"
  by (simp_all add: report_corruption_def report_drop_def)

lemma refill_drops: "refill io r = (r', ok) \<Longrightarrow> \<exists>d. lr_drops r' = lr_drops r @ d"
  by (auto simp: refill_def read_block_def Let_def report_drop_def split: if_splits option.splits)

lemma read_physical_drops: "read_physical_record io r = (x, r') \<Longrightarrow> \<exists>d. lr_drops r' = lr_drops r @ d"
proof -
  assume r': "read_physical_record io r = (x, r')"
  obtain r1 ok where r1: "refill io r = (r1, ok)" by fastforce
  then obtain d where "lr_drops r1 = lr_drops r @ d" using refill_drops by blast
  then show ?thesis
    using r' by (auto simp: read_physical_record_def r1 Let_def report_corruption_def report_drop_def split: if_splits)
qed

lemma read_record_loop_drops:
  "read_record_loop fuel io in_fragmented scratch p r = Some (x, r') \<Longrightarrow> \<exists>d. lr_drops r' = lr_drops r @ d"
proof (induct fuel arbitrary: in_fragmented scratch p r)
  case (Suc fuel)
  obtain t fragment r1 where r1: "read_physical_record io r = ((t, fragment), r1)" by (metis surj_pair)
  then obtain d where d: "lr_drops r1 = lr_drops r @ d" using read_physical_drops by blast
  have again: "\<exists>d. lr_drops r' = lr_drops r @ d"
    if "read_record_loop fuel io b sc q r2 = Some (x, r')" "\<exists>d. lr_drops r2 = lr_drops r1 @ d" for b sc q r2
    using Suc.hyps [OF that(1)] that(2) d by auto
  have c: "\<exists>d. lr_drops (report_corruption n e r1) = lr_drops r1 @ d" for n e by (rule report_drops)
  show ?case
    using Suc.prems d
    by (auto simp: read_record_loop.simps r1 Let_def c split: if_splits elim!: again)
      (auto simp: report_corruption_def report_drop_def)
qed (simp add: read_record_loop.simps)

lemma read_record_drops: "read_record io r = Some (x, r') \<Longrightarrow> \<exists>d. lr_drops r' = lr_drops r @ d"
  by (auto simp: read_record_def skip_to_initial_block_def Let_def report_drop_def
      split: if_splits prod.splits option.splits dest!: read_record_loop_drops)

lemma read_log_drops: "read_log fuel io r = Some (records, r') \<Longrightarrow> \<exists>d. lr_drops r' = lr_drops r @ d"
  by (induct fuel arbitrary: r records) (auto split: option.splits dest!: read_record_drops, fastforce+)

lemma read_log_mono: "read_log fuel io r = Some x \<Longrightarrow> fuel \<le> fuel' \<Longrightarrow> read_log fuel' io r = Some x"
proof (induct fuel arbitrary: fuel' r x)
  case (Suc fuel)
  obtain f where f: "fuel' = Suc f" "fuel \<le> f" using Suc.prems(2) by (cases fuel') simp_all
  have "read_log f io r' = Some y" if "read_log fuel io r' = Some y" for r' y using Suc.hyps [OF that f(2)] .
  then show ?case using Suc.prems(1) by (auto simp: f(1) split: option.splits)
qed simp

lemma read_log_fuel:
  assumes "read_log fuel io r = Some x" and "lr_left r < fuel'"
  shows "read_log fuel' io r = Some x"
proof -
  obtain y where y: "read_log fuel' io r = Some y" using read_log_returns [OF assms(2), of io] not_None_eq by metis
  show ?thesis using read_log_mono [OF assms(1), of "max fuel fuel'"] read_log_mono [OF y, of "max fuel fuel'"] y by simp
qed

definition same_log :: "lwriter \<Rightarrow> lwriter \<Rightarrow> bool" where
  "same_log w v \<longleftrightarrow> lw_dest w = lw_dest v \<and> lw_block_offset w = lw_block_offset v"

lemma add_record_loop_same:
  assumes "io = no_faults" and "same_log w v"
  shows "same_log (fst (add_record_loop io ptr first w)) (fst (add_record_loop io ptr first v))"
  using assms
proof (induct io ptr first w arbitrary: v rule: add_record_loop.induct)
  case (1 io ptr first w)
  define w1 v1 where "w1 = switch_block io w" and "v1 = switch_block io v"
  have s1: "same_log w1 v1" "lw_block_offset v1 = lw_block_offset w1"
    using 1(2,3) by (simp_all add: w1_def v1_def same_log_def switch_block_ok)
  let ?a = "kBlockSize - lw_block_offset w1 - kHeaderSize"
  define n where "n = (if length ptr < ?a then length ptr else ?a)"
  obtain w2 v2 where e: "emit_physical_record io (fragment_type first (length ptr = n)) (take n ptr) w1 = (w2, True)"
      "emit_physical_record io (fragment_type first (length ptr = n)) (take n ptr) v1 = (v2, True)" and s2: "same_log w2 v2"
    using s1 by (simp add: emit_physical_ok 1(2) same_log_def)
  have loop: "add_record_loop io ptr first w = (if 0 < length ptr - n then add_record_loop io (drop n ptr) False w2 else (w2, True))"
      "add_record_loop io ptr first v = (if 0 < length ptr - n then add_record_loop io (drop n ptr) False v2 else (v2, True))"
    unfolding add_record_loop.simps [of io ptr first w] add_record_loop.simps [of io ptr first v] Let_def
      w1_def [symmetric] v1_def [symmetric] s1(2) n_def [symmetric] e by simp_all
  have "same_log (fst (add_record_loop io (drop n ptr) False w2)) (fst (add_record_loop io (drop n ptr) False v2))" if "0 < length ptr - n"
    by (rule 1(1) [OF w1_def refl _ refl _ refl _ 1(2) s2]) (use that e(1) in \<open>simp_all add: n_def\<close>)
  then show ?case using s2 by (simp add: loop)
qed

lemma add_record_same: "same_log w v \<Longrightarrow> same_log (fst (add_record no_faults rec w)) (fst (add_record no_faults rec v))"
  by (simp add: add_record_def add_record_loop_same)

lemma log_write_append: "log_write io (a @ b) w = log_write io b (log_write io a w)"
  by (simp add: log_write_def)

lemma log_write_length: "length (lw_dest (log_write no_faults (take m records) w)) \<le> length (lw_dest (log_write no_faults records w))"
  using log_write_append [of no_faults "take m records" "drop m records" w]
    log_write_dest [of "drop m records" "log_write no_faults (take m records) w"] by auto

section \<open>Properties\<close>

text \<open>
  C70. A log that was cut off anywhere, as after a crash, is read as the records that were written
  completely, in order and without a report of corruption: of the records written, the first \<open>m\<close>
  come back, and the file was too short for one more.  An uncut log comes back as it was written.
\<close>

theorem log_survives_truncation:
  "\<exists>m r. read_log (length records + 1) no_faults (reader_new (take n (lw_dest (log_write no_faults records writer_new))) checksum 0) =
      Some (take m records, r) \<and> lr_drops r = [] \<and>
     length (lw_dest (log_write no_faults (take m records) writer_new)) \<le> n \<and>
     (m = length records \<or> m < length records \<and> n < length (lw_dest (log_write no_faults (take (m + 1) records) writer_new)))"
proof -
  let ?out = "lw_dest (log_write no_faults records writer_new)"
  have w: "lw_block_offset writer_new = 0" "lw_dest writer_new = []" by (simp_all add: writer_new_def)
  have "rd_at (lw_block_offset writer_new) (take n ?out) (reader_new (take n ?out) checksum 0)"
    unfolding w by (rule rd_at_new)
  from read_log_written [OF this, of records "length records + 1"] show ?thesis
    by (auto simp: w reader_new_def le_less)
qed

text \<open>
  C71. The reader comes to an end on every file, whatever its bytes are, with any initial offset and
  whichever reads fail: each record it returns and each corruption it skips takes bytes from the file.
\<close>

theorem log_reader_returns:
  "\<exists>records r. read_log (length file + 1) io (reader_new file checksum initial) = Some (records, r)"
  using read_log_returns [of "reader_new file checksum initial" "length file + 1" io] by (auto simp: reader_new_def)

end
