(* ===== verification/Spec2Isabelle.thy ===== *)
theory Spec2Isabelle
  imports Prelude Crc16 RingQueue Resolver OrdMap ZBase Timeout CList CMList CSeq Tlv ObjCache Cloud Commands ServerInv
    Recycle Account Broadcast Connect Transmit NetInv EndToEnd
  LdbCoding SkipList LdbFormat LdbMem Crc32c LdbLog
begin

text \<open>
  A verification development for zstorage, a key/value storage server that speaks the redis
  protocol.
\<close>

section \<open>From request bytes to reply bytes\<close>

lemma itostr_small: "itostr 1 = ''1''" "itostr 2 = ''2''" "itostr 3 = ''3''" "itostr 5 = ''5''" "itostr 6 = ''6''"
  by code_simp+





end
